(* ===== verification/GT_Prelude.thy ===== *)
theory GT_Prelude
  imports Main "HOL-Library.Word" "HOL-Library.Monad_Syntax"
begin

text \<open>
  Shared vocabulary of the development: the machine types of \<open>user/comm/gt_typedef.h\<close>, the
  return codes, the collections of rewrite rules the component proofs use, and generic lemmas on
  the option monad, maps and lists.

  The computations of the program are written in the option monad with the state passed
  explicitly. \<open>None\<close> means that control does not come back in a defined way: an access
  through a dangling, null or poisoned pointer, a call through a null function pointer, an array
  index out of bounds, or a blocking call that waits for ever. A theorem that shows \<open>Some\<close>
  therefore shows memory safety as well.
\<close>

unbundle bit_operations_syntax

type_synonym addr = "64 word"
type_synonym u8 = "8 word"
type_synonym u16 = "16 word"
type_synonym u32 = "32 word"
type_synonym u64 = "64 word"
type_synonym fd = int

abbreviation NULL :: addr where
  "NULL \<equiv> 0"

definition GT_OK :: int where
  "GT_OK = 0"

definition GT_ERROR :: int where
  "GT_ERROR = -1"

lemma GT_OK_neq_ERROR [simp]: "GT_OK \<noteq> GT_ERROR" "GT_ERROR \<noteq> GT_OK"
  by (simp_all add: GT_OK_def GT_ERROR_def)

text \<open>
  Byte order conversions on a little-endian machine: \<open>htonl\<close> and \<open>ntohl\<close> exchange the four
  bytes, \<open>htons\<close> and \<open>ntohs\<close> the two.
\<close>

definition ntohl :: "u32 \<Rightarrow> u32" where
  "ntohl w = push_bit 24 (take_bit 8 w) OR push_bit 16 (take_bit 8 (drop_bit 8 w)) OR
             push_bit 8 (take_bit 8 (drop_bit 16 w)) OR drop_bit 24 w"

definition ntohs :: "u16 \<Rightarrow> u16" where
  "ntohs w = push_bit 8 w OR drop_bit 8 w"

abbreviation htonl :: "u32 \<Rightarrow> u32" where "htonl \<equiv> ntohl"
abbreviation htons :: "u16 \<Rightarrow> u16" where "htons \<equiv> ntohs"

lemma ntohl_byte:
  assumes "k < 8"
  shows "bit (ntohl w) k = bit w (24 + k)" "bit (ntohl w) (8 + k) = bit w (16 + k)"
    "bit (ntohl w) (16 + k) = bit w (8 + k)" "bit (ntohl w) (24 + k) = bit w k"
proof -
  have hi: "\<not> bit w (m + 32)" for m using bit_imp_le_length [of w "m + 32"] by auto
  have "\<not> bit w (24 + (8 + k))" "\<not> bit w (24 + (16 + k))" "\<not> bit w (24 + (24 + k))"
    using hi [of k] hi [of "8 + k"] hi [of "16 + k"] by (simp_all add: add.commute add.left_commute)
  with assms show "bit (ntohl w) k = bit w (24 + k)" "bit (ntohl w) (8 + k) = bit w (16 + k)"
    "bit (ntohl w) (16 + k) = bit w (8 + k)" "bit (ntohl w) (24 + k) = bit w k"
    by (auto simp: ntohl_def bit_or_iff bit_push_bit_iff bit_take_bit_iff bit_drop_bit_eq)
qed

lemma ntohl_ntohl [simp]: "ntohl (ntohl w) = w"
proof (rule bit_word_eqI)
  fix n assume "n < LENGTH(32)"
  then have "n div 8 < 4" by simp
  then have "n div 8 = 0 \<or> n div 8 = 1 \<or> n div 8 = 2 \<or> n div 8 = 3" by linarith
  moreover have "n = 8 * (n div 8) + n mod 8" by simp
  ultimately have "n = n mod 8 \<or> n = 8 + n mod 8 \<or> n = 16 + n mod 8 \<or> n = 24 + n mod 8" by linarith
  moreover have "n mod 8 < 8" by simp
  ultimately show "bit (ntohl (ntohl w)) n = bit w n" using ntohl_byte [of "n mod 8"] by metis
qed

lemma ntohs_ntohs [simp]: "ntohs (ntohs w) = w"
  by (rule bit_word_eqI) (auto simp: ntohs_def bit_simps)

text \<open>Decimal output as \<open>printf\<close> writes it, and the bytes of a string.\<close>

fun nat_dec :: "nat \<Rightarrow> string" where
  "nat_dec n = (if n < 10 then [char_of (48 + n)] else nat_dec (n div 10) @ [char_of (48 + n mod 10)])"

definition int_dec :: "int \<Rightarrow> string" where
  "int_dec i = (if i < 0 then CHR ''-'' # nat_dec (nat (- i)) else nat_dec (nat i))"

definition to_bytes :: "string \<Rightarrow> u8 list" where
  "to_bytes = map (\<lambda>c. of_nat (of_char c))"

declare nat_dec.simps [simp del]

lemma nat_dec_length: "n < 10 ^ k \<Longrightarrow> 0 < k \<Longrightarrow> length (nat_dec n) \<le> k"
proof (induction k arbitrary: n)
  case (Suc k)
  show ?case
  proof (cases "n < 10")
    case False
    with Suc.prems have "n div 10 < 10 ^ k" "0 < k" by (auto simp: less_mult_imp_div_less mult.commute intro: gr0I)
    with Suc.IH False show ?thesis by (simp add: nat_dec.simps [of n])
  qed (simp add: nat_dec.simps [of n])
qed simp

lemma nat_dec_length_step: "10 \<le> n \<Longrightarrow> length (nat_dec n) = Suc (length (nat_dec (n div 10)))"
  by (simp add: nat_dec.simps [of n])

lemma nat_dec_length_four:
  assumes "1000 \<le> n" "n < 10000"
  shows "length (nat_dec n) = 4"
proof -
  have "10 \<le> n div 10 div 10" "10 \<le> n div 10" "n div 10 div 10 div 10 < 10"
    using assms by (simp_all add: div_mult2_eq [symmetric] less_eq_div_iff_mult_less_eq less_mult_imp_div_less)
  then show ?thesis using assms by (simp add: nat_dec_length_step) (simp add: nat_dec.simps)
qed

lemma to_bytes_simps [simp]:
  "length (to_bytes xs) = length xs" "to_bytes (xs @ ys) = to_bytes xs @ to_bytes ys"
  "take n (to_bytes xs) = to_bytes (take n xs)"
  by (simp_all add: to_bytes_def take_map)

text \<open>Collections: evaluation of heap primitives, and frame facts of operations.\<close>

named_theorems heap_eval
named_theorems frame_simps

lemma map_option_bind: "map_option f m \<bind> g = m \<bind> (\<lambda>x. g (f x))"
  by (cases m) simp_all

lemma in_dom_iff: "a \<in> dom m \<longleftrightarrow> (\<exists>v. m a = Some v)"
  by (auto simp: dom_def)

text \<open>Extending a distinct cyclic sequence at one of its positions.\<close>

lemma distinct_insert_mid:
  "distinct (xs @ x # ys) \<longleftrightarrow> x \<notin> set xs \<and> x \<notin> set ys \<and> distinct (xs @ ys)"
  by auto

end
