(* ===== verification/GT_List.thy ===== *)
theory GT_List
  imports GT_Prelude
begin

text \<open>
  The intrusive doubly linked list of \<open>user/comm/gt_list.h\<close>. A \<open>struct list_head\<close> is a
  record of two addresses; the memory that holds list heads is a partial map from addresses.
  Every function and every iteration macro of the header is one definition; an access to an
  address that holds no list head is \<open>None\<close>. \<open>is_list h q xs\<close> relates a memory to the
  abstract sequence \<open>xs\<close> of entries on the ring whose head is at \<open>q\<close>; the lemmas show
  that each operation computes its abstract counterpart on that sequence.
\<close>

subsection \<open>Data\<close>

record list_head =
  lnext :: addr
  lprev :: addr

type_synonym lheap = "addr \<rightharpoonup> list_head"

definition LIST_POISON1 :: addr where
  "LIST_POISON1 = 0x00100100"

definition LIST_POISON2 :: addr where
  "LIST_POISON2 = 0x00200200"

definition get_next :: "addr \<Rightarrow> lheap \<Rightarrow> addr option" where
  "get_next p h = map_option lnext (h p)"

definition get_prev :: "addr \<Rightarrow> lheap \<Rightarrow> addr option" where
  "get_prev p h = map_option lprev (h p)"

definition set_next :: "addr \<Rightarrow> addr \<Rightarrow> lheap \<Rightarrow> lheap option" where
  "set_next p v h = (case h p of None \<Rightarrow> None | Some n \<Rightarrow> Some (h(p \<mapsto> n\<lparr>lnext := v\<rparr>)))"

definition set_prev :: "addr \<Rightarrow> addr \<Rightarrow> lheap \<Rightarrow> lheap option" where
  "set_prev p v h = (case h p of None \<Rightarrow> None | Some n \<Rightarrow> Some (h(p \<mapsto> n\<lparr>lprev := v\<rparr>)))"

subsection \<open>Operations\<close>

definition LIST_HEAD_INIT :: "addr \<Rightarrow> list_head" where
  "LIST_HEAD_INIT name = \<lparr>lnext = name, lprev = name\<rparr>"

definition INIT_LIST_HEAD :: "addr \<Rightarrow> lheap \<Rightarrow> lheap option" where
  "INIT_LIST_HEAD list h = do {
     h \<leftarrow> set_next list list h;
     set_prev list list h }"

definition i_list_add :: "addr \<Rightarrow> addr \<Rightarrow> addr \<Rightarrow> lheap \<Rightarrow> lheap option" where
  "i_list_add xnew prev nxt h = do {
     h \<leftarrow> set_prev nxt xnew h;
     h \<leftarrow> set_next xnew nxt h;
     h \<leftarrow> set_prev xnew prev h;
     set_next prev xnew h }"

definition list_add :: "addr \<Rightarrow> addr \<Rightarrow> lheap \<Rightarrow> lheap option" where
  "list_add xnew head h = do {
     n \<leftarrow> get_next head h;
     i_list_add xnew head n h }"

definition list_add_tail :: "addr \<Rightarrow> addr \<Rightarrow> lheap \<Rightarrow> lheap option" where
  "list_add_tail xnew head h = do {
     p \<leftarrow> get_prev head h;
     i_list_add xnew p head h }"

definition i_list_del :: "addr \<Rightarrow> addr \<Rightarrow> lheap \<Rightarrow> lheap option" where
  "i_list_del prev nxt h = do {
     h \<leftarrow> set_prev nxt prev h;
     set_next prev nxt h }"

definition list_del :: "addr \<Rightarrow> lheap \<Rightarrow> lheap option" where
  "list_del entry h = do {
     p \<leftarrow> get_prev entry h;
     n \<leftarrow> get_next entry h;
     h \<leftarrow> i_list_del p n h;
     h \<leftarrow> set_next entry LIST_POISON1 h;
     set_prev entry LIST_POISON2 h }"

definition list_replace :: "addr \<Rightarrow> addr \<Rightarrow> lheap \<Rightarrow> lheap option" where
  "list_replace old xnew h = do {
     n \<leftarrow> get_next old h;
     h \<leftarrow> set_next xnew n h;
     n' \<leftarrow> get_next xnew h;
     h \<leftarrow> set_prev n' xnew h;
     p \<leftarrow> get_prev old h;
     h \<leftarrow> set_prev xnew p h;
     p' \<leftarrow> get_prev xnew h;
     set_next p' xnew h }"

definition list_replace_init :: "addr \<Rightarrow> addr \<Rightarrow> lheap \<Rightarrow> lheap option" where
  "list_replace_init old xnew h = do {
     h \<leftarrow> list_replace old xnew h;
     INIT_LIST_HEAD old h }"

definition list_del_init :: "addr \<Rightarrow> lheap \<Rightarrow> lheap option" where
  "list_del_init entry h = do {
     p \<leftarrow> get_prev entry h;
     n \<leftarrow> get_next entry h;
     h \<leftarrow> i_list_del p n h;
     INIT_LIST_HEAD entry h }"

definition list_move :: "addr \<Rightarrow> addr \<Rightarrow> lheap \<Rightarrow> lheap option" where
  "list_move list head h = do {
     p \<leftarrow> get_prev list h;
     n \<leftarrow> get_next list h;
     h \<leftarrow> i_list_del p n h;
     list_add list head h }"

definition list_move_tail :: "addr \<Rightarrow> addr \<Rightarrow> lheap \<Rightarrow> lheap option" where
  "list_move_tail list head h = do {
     p \<leftarrow> get_prev list h;
     n \<leftarrow> get_next list h;
     h \<leftarrow> i_list_del p n h;
     list_add_tail list head h }"

definition list_is_last :: "addr \<Rightarrow> addr \<Rightarrow> lheap \<Rightarrow> bool option" where
  "list_is_last list head h = do {
     n \<leftarrow> get_next list h;
     Some (n = head) }"

definition list_empty :: "addr \<Rightarrow> lheap \<Rightarrow> bool option" where
  "list_empty head h = do {
     n \<leftarrow> get_next head h;
     Some (n = head) }"

definition list_empty_careful :: "addr \<Rightarrow> lheap \<Rightarrow> bool option" where
  "list_empty_careful head h = do {
     n \<leftarrow> get_next head h;
     if n = head then do { p \<leftarrow> get_prev head h; Some (n = p) } else Some False }"

definition i_list_splice :: "addr \<Rightarrow> addr \<Rightarrow> addr \<Rightarrow> lheap \<Rightarrow> lheap option" where
  "i_list_splice list prev nxt h = do {
     first \<leftarrow> get_next list h;
     last \<leftarrow> get_prev list h;
     h \<leftarrow> set_prev first prev h;
     h \<leftarrow> set_next prev first h;
     h \<leftarrow> set_next last nxt h;
     set_prev nxt last h }"

definition list_splice :: "addr \<Rightarrow> addr \<Rightarrow> lheap \<Rightarrow> lheap option" where
  "list_splice list head h = do {
     e \<leftarrow> list_empty list h;
     if \<not> e then do { n \<leftarrow> get_next head h; i_list_splice list head n h } else Some h }"

definition list_splice_tail :: "addr \<Rightarrow> addr \<Rightarrow> lheap \<Rightarrow> lheap option" where
  "list_splice_tail list head h = do {
     e \<leftarrow> list_empty list h;
     if \<not> e then do { p \<leftarrow> get_prev head h; i_list_splice list p head h } else Some h }"

definition list_splice_init :: "addr \<Rightarrow> addr \<Rightarrow> lheap \<Rightarrow> lheap option" where
  "list_splice_init list head h = do {
     e \<leftarrow> list_empty list h;
     if \<not> e then do {
       n \<leftarrow> get_next head h;
       h \<leftarrow> i_list_splice list head n h;
       INIT_LIST_HEAD list h }
     else Some h }"

definition list_splice_tail_init :: "addr \<Rightarrow> addr \<Rightarrow> lheap \<Rightarrow> lheap option" where
  "list_splice_tail_init list head h = do {
     e \<leftarrow> list_empty list h;
     if \<not> e then do {
       p \<leftarrow> get_prev head h;
       h \<leftarrow> i_list_splice list p head h;
       INIT_LIST_HEAD list h }
     else Some h }"

subsection \<open>Entries and iteration\<close>

text \<open>
  \<open>container_of\<close> subtracts the offset of the member from its address. The iteration macros
  are \<open>for\<close> loops that may run for ever on a corrupted ring, so they are partial functions.
  The loop body works on a state from which \<open>lh\<close> reads the memory of list heads.
\<close>

definition container_of :: "addr \<Rightarrow> addr \<Rightarrow> addr" where
  "container_of ptr off = ptr - off"

definition list_entry :: "addr \<Rightarrow> addr \<Rightarrow> addr" where
  "list_entry ptr off = container_of ptr off"

definition list_first_entry :: "addr \<Rightarrow> addr \<Rightarrow> lheap \<Rightarrow> addr option" where
  "list_first_entry ptr off h = do {
     n \<leftarrow> get_next ptr h;
     Some (list_entry n off) }"

definition list_next_entry :: "addr \<Rightarrow> addr \<Rightarrow> lheap \<Rightarrow> addr option" where
  "list_next_entry ptr off h = do {
     n \<leftarrow> get_next (ptr + off) h;
     Some (list_entry n off) }"

definition list_prev_entry :: "addr \<Rightarrow> addr \<Rightarrow> lheap \<Rightarrow> addr option" where
  "list_prev_entry ptr off h = do {
     p \<leftarrow> get_prev (ptr + off) h;
     Some (list_entry p off) }"

partial_function (option) for_ptr ::
  "(addr \<Rightarrow> lheap \<Rightarrow> addr option) \<Rightarrow> ('s \<Rightarrow> lheap) \<Rightarrow> (addr \<Rightarrow> 's \<Rightarrow> 's option) \<Rightarrow>
   addr \<Rightarrow> addr \<Rightarrow> 's \<Rightarrow> 's option" where
  "for_ptr get lh body head pos s =
     (if pos = head then Some s
      else do {
        s \<leftarrow> body pos s;
        pos \<leftarrow> get pos (lh s);
        for_ptr get lh body head pos s })"

partial_function (option) for_ptr_safe ::
  "(addr \<Rightarrow> lheap \<Rightarrow> addr option) \<Rightarrow> ('s \<Rightarrow> lheap) \<Rightarrow> (addr \<Rightarrow> 's \<Rightarrow> 's option) \<Rightarrow>
   addr \<Rightarrow> addr \<Rightarrow> addr \<Rightarrow> 's \<Rightarrow> 's option" where
  "for_ptr_safe get lh body head pos n s =
     (if pos = head then Some s
      else do {
        s \<leftarrow> body pos s;
        n' \<leftarrow> get n (lh s);
        for_ptr_safe get lh body head n n' s })"

partial_function (option) for_entry ::
  "(addr \<Rightarrow> addr \<Rightarrow> lheap \<Rightarrow> addr option) \<Rightarrow> addr \<Rightarrow> ('s \<Rightarrow> lheap) \<Rightarrow> (addr \<Rightarrow> 's \<Rightarrow> 's option) \<Rightarrow>
   addr \<Rightarrow> addr \<Rightarrow> 's \<Rightarrow> 's option" where
  "for_entry step off lh body head pos s =
     (if pos + off = head then Some s
      else do {
        s \<leftarrow> body pos s;
        pos \<leftarrow> step pos off (lh s);
        for_entry step off lh body head pos s })"

partial_function (option) for_entry_safe ::
  "(addr \<Rightarrow> addr \<Rightarrow> lheap \<Rightarrow> addr option) \<Rightarrow> addr \<Rightarrow> ('s \<Rightarrow> lheap) \<Rightarrow> (addr \<Rightarrow> 's \<Rightarrow> 's option) \<Rightarrow>
   addr \<Rightarrow> addr \<Rightarrow> addr \<Rightarrow> 's \<Rightarrow> 's option" where
  "for_entry_safe step off lh body head pos n s =
     (if pos + off = head then Some s
      else do {
        s \<leftarrow> body pos s;
        n' \<leftarrow> step n off (lh s);
        for_entry_safe step off lh body head n n' s })"

definition list_for_each ::
  "('s \<Rightarrow> lheap) \<Rightarrow> (addr \<Rightarrow> 's \<Rightarrow> 's option) \<Rightarrow> addr \<Rightarrow> 's \<Rightarrow> 's option" where
  "list_for_each lh body head s = do {
     pos \<leftarrow> get_next head (lh s);
     for_ptr get_next lh body head pos s }"

definition list_for_each_prev ::
  "('s \<Rightarrow> lheap) \<Rightarrow> (addr \<Rightarrow> 's \<Rightarrow> 's option) \<Rightarrow> addr \<Rightarrow> 's \<Rightarrow> 's option" where
  "list_for_each_prev lh body head s = do {
     pos \<leftarrow> get_prev head (lh s);
     for_ptr get_prev lh body head pos s }"

definition list_for_each_safe ::
  "('s \<Rightarrow> lheap) \<Rightarrow> (addr \<Rightarrow> 's \<Rightarrow> 's option) \<Rightarrow> addr \<Rightarrow> 's \<Rightarrow> 's option" where
  "list_for_each_safe lh body head s = do {
     pos \<leftarrow> get_next head (lh s);
     n \<leftarrow> get_next pos (lh s);
     for_ptr_safe get_next lh body head pos n s }"

definition list_for_each_entry ::
  "addr \<Rightarrow> ('s \<Rightarrow> lheap) \<Rightarrow> (addr \<Rightarrow> 's \<Rightarrow> 's option) \<Rightarrow> addr \<Rightarrow> 's \<Rightarrow> 's option" where
  "list_for_each_entry off lh body head s = do {
     pos \<leftarrow> list_first_entry head off (lh s);
     for_entry list_next_entry off lh body head pos s }"

definition list_for_each_entry_reverse ::
  "addr \<Rightarrow> ('s \<Rightarrow> lheap) \<Rightarrow> (addr \<Rightarrow> 's \<Rightarrow> 's option) \<Rightarrow> addr \<Rightarrow> 's \<Rightarrow> 's option" where
  "list_for_each_entry_reverse off lh body head s = do {
     p \<leftarrow> get_prev head (lh s);
     for_entry list_prev_entry off lh body head (list_entry p off) s }"

definition list_prepare_entry :: "addr \<Rightarrow> addr \<Rightarrow> addr \<Rightarrow> addr" where
  "list_prepare_entry pos head off = (if pos \<noteq> NULL then pos else list_entry head off)"

definition list_for_each_entry_continue ::
  "addr \<Rightarrow> ('s \<Rightarrow> lheap) \<Rightarrow> (addr \<Rightarrow> 's \<Rightarrow> 's option) \<Rightarrow> addr \<Rightarrow> addr \<Rightarrow> 's \<Rightarrow> 's option" where
  "list_for_each_entry_continue off lh body pos head s = do {
     pos \<leftarrow> list_next_entry pos off (lh s);
     for_entry list_next_entry off lh body head pos s }"

definition list_for_each_entry_from ::
  "addr \<Rightarrow> ('s \<Rightarrow> lheap) \<Rightarrow> (addr \<Rightarrow> 's \<Rightarrow> 's option) \<Rightarrow> addr \<Rightarrow> addr \<Rightarrow> 's \<Rightarrow> 's option" where
  "list_for_each_entry_from off lh body pos head s =
     for_entry list_next_entry off lh body head pos s"

definition list_for_each_entry_safe ::
  "addr \<Rightarrow> ('s \<Rightarrow> lheap) \<Rightarrow> (addr \<Rightarrow> 's \<Rightarrow> 's option) \<Rightarrow> addr \<Rightarrow> 's \<Rightarrow> 's option" where
  "list_for_each_entry_safe off lh body head s = do {
     pos \<leftarrow> list_first_entry head off (lh s);
     n \<leftarrow> list_next_entry pos off (lh s);
     for_entry_safe list_next_entry off lh body head pos n s }"

definition list_for_each_entry_safe_continue ::
  "addr \<Rightarrow> ('s \<Rightarrow> lheap) \<Rightarrow> (addr \<Rightarrow> 's \<Rightarrow> 's option) \<Rightarrow> addr \<Rightarrow> addr \<Rightarrow> 's \<Rightarrow> 's option" where
  "list_for_each_entry_safe_continue off lh body pos head s = do {
     pos \<leftarrow> list_next_entry pos off (lh s);
     n \<leftarrow> list_next_entry pos off (lh s);
     for_entry_safe list_next_entry off lh body head pos n s }"

definition list_for_each_entry_safe_from ::
  "addr \<Rightarrow> ('s \<Rightarrow> lheap) \<Rightarrow> (addr \<Rightarrow> 's \<Rightarrow> 's option) \<Rightarrow> addr \<Rightarrow> addr \<Rightarrow> 's \<Rightarrow> 's option" where
  "list_for_each_entry_safe_from off lh body pos head s = do {
     n \<leftarrow> list_next_entry pos off (lh s);
     for_entry_safe list_next_entry off lh body head pos n s }"

definition list_for_each_entry_safe_reverse ::
  "addr \<Rightarrow> ('s \<Rightarrow> lheap) \<Rightarrow> (addr \<Rightarrow> 's \<Rightarrow> 's option) \<Rightarrow> addr \<Rightarrow> 's \<Rightarrow> 's option" where
  "list_for_each_entry_safe_reverse off lh body head s = do {
     p \<leftarrow> get_prev head (lh s);
     let pos = list_entry p off;
     n \<leftarrow> list_prev_entry pos off (lh s);
     for_entry_safe list_prev_entry off lh body head pos n s }"

subsection \<open>Abstraction\<close>

text \<open>
  The memory is read through its two fields, \<open>nexts\<close> and \<open>prevs\<close>. \<open>linked\<close> says that
  the entries \<open>xs\<close> lie between \<open>p\<close> and \<open>q\<close>, each pointing at its neighbours in both
  directions; a ring is a chain from its head back to itself without repetition.
\<close>

definition nexts :: "lheap \<Rightarrow> addr \<rightharpoonup> addr" where
  "nexts h = (\<lambda>p. map_option lnext (h p))"

definition prevs :: "lheap \<Rightarrow> addr \<rightharpoonup> addr" where
  "prevs h = (\<lambda>p. map_option lprev (h p))"

definition mapped :: "lheap \<Rightarrow> addr \<Rightarrow> bool" where
  "mapped h p \<longleftrightarrow> h p \<noteq> None"

fun linked :: "(addr \<rightharpoonup> addr) \<Rightarrow> (addr \<rightharpoonup> addr) \<Rightarrow> addr \<Rightarrow> addr list \<Rightarrow> addr \<Rightarrow> bool" where
  "linked N P p [] q \<longleftrightarrow> N p = Some q \<and> P q = Some p"
| "linked N P p (x # xs) q \<longleftrightarrow> N p = Some x \<and> P x = Some p \<and> linked N P x xs q"

definition is_list :: "lheap \<Rightarrow> addr \<Rightarrow> addr list \<Rightarrow> bool" where
  "is_list h q xs \<longleftrightarrow> distinct (q # xs) \<and> linked (nexts h) (prevs h) q xs q"

text \<open>The cells an operation leaves alone.\<close>

definition only_changes :: "addr set \<Rightarrow> lheap \<Rightarrow> lheap \<Rightarrow> bool" where
  "only_changes A h h' \<longleftrightarrow> (\<forall>a. a \<notin> A \<longrightarrow> h' a = h a)"

fun fold_opt :: "('a \<Rightarrow> 's \<Rightarrow> 's option) \<Rightarrow> 'a list \<Rightarrow> 's \<Rightarrow> 's option" where
  "fold_opt f [] s = Some s"
| "fold_opt f (x # xs) s = f x s \<bind> fold_opt f xs"

subsection \<open>Reading and writing one cell\<close>

definition cell_next :: "addr \<Rightarrow> addr \<Rightarrow> lheap \<Rightarrow> lheap" where
  "cell_next p v h = h(p \<mapsto> (the (h p))\<lparr>lnext := v\<rparr>)"

definition cell_prev :: "addr \<Rightarrow> addr \<Rightarrow> lheap \<Rightarrow> lheap" where
  "cell_prev p v h = h(p \<mapsto> (the (h p))\<lparr>lprev := v\<rparr>)"

lemma get_next_nexts [heap_eval]: "get_next p h = nexts h p"
  by (simp add: get_next_def nexts_def)

lemma get_prev_prevs [heap_eval]: "get_prev p h = prevs h p"
  by (simp add: get_prev_def prevs_def)

lemma set_next_eval [heap_eval]: "mapped h p \<Longrightarrow> set_next p v h = Some (cell_next p v h)"
  by (auto simp: set_next_def mapped_def cell_next_def)

lemma set_prev_eval [heap_eval]: "mapped h p \<Longrightarrow> set_prev p v h = Some (cell_prev p v h)"
  by (auto simp: set_prev_def mapped_def cell_prev_def)

lemma nexts_cell_next [heap_eval]: "nexts (cell_next p v h) = (nexts h)(p \<mapsto> v)"
  by (auto simp: nexts_def cell_next_def)

lemma prevs_cell_prev [heap_eval]: "prevs (cell_prev p v h) = (prevs h)(p \<mapsto> v)"
  by (auto simp: prevs_def cell_prev_def)

lemma nexts_cell_prev [heap_eval]: "mapped h p \<Longrightarrow> nexts (cell_prev p v h) = nexts h"
  by (auto simp: nexts_def cell_prev_def mapped_def)

lemma prevs_cell_next [heap_eval]: "mapped h p \<Longrightarrow> prevs (cell_next p v h) = prevs h"
  by (auto simp: prevs_def cell_next_def mapped_def)

lemma mapped_cell [heap_eval]:
  "mapped h p \<Longrightarrow> mapped (cell_next p v h) = mapped h"
  "mapped h p \<Longrightarrow> mapped (cell_prev p v h) = mapped h"
  by (auto simp: mapped_def cell_next_def cell_prev_def fun_eq_iff)

lemma cell_other [heap_eval]:
  "a \<noteq> p \<Longrightarrow> cell_next p v h a = h a"
  "a \<noteq> p \<Longrightarrow> cell_prev p v h a = h a"
  by (simp_all add: cell_next_def cell_prev_def)

lemma mappedI: "nexts h p = Some v \<Longrightarrow> mapped h p" "prevs h p = Some v \<Longrightarrow> mapped h p"
  by (auto simp: nexts_def prevs_def mapped_def)

lemma heap_fields_eqI:
  assumes "nexts h p = nexts h' p" and "prevs h p = prevs h' p"
  shows "h p = h' p"
  using assms by (cases "h p"; cases "h' p") (auto simp: nexts_def prevs_def)

subsection \<open>Chains\<close>

lemma linked_append:
  "linked N P p (xs @ x # ys) q \<longleftrightarrow> linked N P p xs x \<and> linked N P x ys q"
  by (induction xs arbitrary: p) auto

lemma linked_upd_next [simp]:
  "a \<notin> set (p # xs) \<Longrightarrow> linked (N(a \<mapsto> v)) P p xs q = linked N P p xs q"
  by (induction xs arbitrary: p) auto

lemma linked_upd_prev [simp]:
  "a \<notin> set xs \<Longrightarrow> a \<noteq> q \<Longrightarrow> linked N (P(a \<mapsto> v)) p xs q = linked N P p xs q"
  by (induction xs arbitrary: p) auto

lemma linked_cong:
  "(\<And>a. a \<in> set (p # xs) \<Longrightarrow> N a = N' a) \<Longrightarrow> (\<And>a. a \<in> set xs \<union> {q} \<Longrightarrow> P a = P' a) \<Longrightarrow>
   linked N P p xs q = linked N' P' p xs q"
  by (induction xs arbitrary: p) auto

lemma linked_first: "linked N P p xs q \<Longrightarrow> N p = Some (hd (xs @ [q]))"
  by (cases xs) auto

lemma linked_last: "linked N P p xs q \<Longrightarrow> P q = Some (last (p # xs))"
  by (induction xs arbitrary: p) auto

lemma linked_mapped: "linked (nexts h) (prevs h) p xs q \<Longrightarrow> a \<in> set (p # xs @ [q]) \<Longrightarrow> mapped h a"
  by (induction xs arbitrary: p) (auto intro: mappedI)

lemma linked_rev: "linked N P p xs q \<Longrightarrow> linked P N q (rev xs) p"
  by (induction xs arbitrary: p) (auto simp: linked_append)

text \<open>Two chains that start in the same place and end at a marker neither passes are equal.\<close>

lemma linked_unique:
  "linked N P p xs q \<Longrightarrow> linked N P p ys q \<Longrightarrow> q \<notin> set xs \<Longrightarrow> q \<notin> set ys \<Longrightarrow> xs = ys"
proof (induction xs arbitrary: p ys)
  case Nil
  then show ?case by (cases ys) auto
next
  case (Cons x xs)
  then obtain zs where "ys = x # zs" by (cases ys) auto
  with Cons show ?case by auto
qed

subsection \<open>Rings\<close>

lemma is_listD:
  assumes "is_list h q xs"
  shows "distinct (q # xs)" and "linked (nexts h) (prevs h) q xs q"
  using assms by (simp_all add: is_list_def)

lemma is_list_mapped: "is_list h q xs \<Longrightarrow> a \<in> set (q # xs) \<Longrightarrow> mapped h a"
  by (auto simp: is_list_def intro: linked_mapped)

lemma is_list_next: "is_list h q xs \<Longrightarrow> nexts h q = Some (hd (xs @ [q]))"
  by (auto simp: is_list_def dest: linked_first)

lemma is_list_prev: "is_list h q xs \<Longrightarrow> prevs h q = Some (last (q # xs))"
  by (auto simp: is_list_def dest: linked_last)

lemma is_list_unique: "is_list h q xs \<Longrightarrow> is_list h q ys \<Longrightarrow> xs = ys"
  by (auto simp: is_list_def intro: linked_unique)

lemma is_list_frame:
  assumes "is_list h q xs" and "\<And>a. a \<in> set (q # xs) \<Longrightarrow> h' a = h a"
  shows "is_list h' q xs"
proof -
  have "linked (nexts h') (prevs h') q xs q = linked (nexts h) (prevs h) q xs q"
    using assms(2) by (intro linked_cong) (auto simp: nexts_def prevs_def)
  with assms(1) show ?thesis by (simp add: is_list_def)
qed

lemma is_list_only_changes:
  "is_list h q xs \<Longrightarrow> only_changes A h h' \<Longrightarrow> A \<inter> set (q # xs) = {} \<Longrightarrow> is_list h' q xs"
  by (erule is_list_frame) (auto simp: only_changes_def)

lemma only_changes_mono: "only_changes A h h' \<Longrightarrow> A \<subseteq> B \<Longrightarrow> only_changes B h h'"
  by (auto simp: only_changes_def)

lemma only_changes_trans:
  "only_changes A h h' \<Longrightarrow> only_changes B h' h'' \<Longrightarrow> A \<union> B \<subseteq> C \<Longrightarrow> only_changes C h h''"
  unfolding only_changes_def by (metis UnCI subsetD)

text \<open>Rotating a ring: any entry can serve as the head.\<close>

lemma is_list_rotate:
  "is_list h q (xs @ x # ys) \<longleftrightarrow> is_list h x (ys @ q # xs)"
  by (auto simp: is_list_def linked_append)

lemma is_list_Nil: "is_list h q [] \<longleftrightarrow> nexts h q = Some q \<and> prevs h q = Some q"
  by (simp add: is_list_def)

subsection \<open>The operations on rings\<close>

lemma INIT_LIST_HEAD_ok:
  assumes "mapped h q"
  shows "\<exists>h'. INIT_LIST_HEAD q h = Some h' \<and> is_list h' q [] \<and> mapped h' = mapped h \<and>
              only_changes {q} h h'"
  using assms by (simp add: INIT_LIST_HEAD_def heap_eval is_list_Nil only_changes_def)

lemma i_list_add_eval:
  assumes "mapped h x" and "mapped h p" and "mapped h n"
  shows "\<exists>h'. i_list_add x p n h = Some h' \<and> nexts h' = (nexts h)(x \<mapsto> n, p \<mapsto> x) \<and>
              prevs h' = (prevs h)(n \<mapsto> x, x \<mapsto> p) \<and> mapped h' = mapped h \<and>
              only_changes {x, p, n} h h'"
  using assms by (simp add: i_list_add_def heap_eval only_changes_def)

lemma i_list_del_eval:
  assumes "mapped h p" and "mapped h n"
  shows "\<exists>h'. i_list_del p n h = Some h' \<and> nexts h' = (nexts h)(p \<mapsto> n) \<and>
              prevs h' = (prevs h)(n \<mapsto> p) \<and> mapped h' = mapped h \<and> only_changes {p, n} h h'"
  using assms by (simp add: i_list_del_def heap_eval only_changes_def)

text \<open>Insertion between two neighbours, the common core of the two public insertions.\<close>

lemma i_list_add_between:
  assumes l: "is_list h q (xs @ ys)" and x: "mapped h x" "x \<notin> set (q # xs @ ys)"
  shows "\<exists>h'. i_list_add x (last (q # xs)) (hd (ys @ [q])) h = Some h' \<and>
              is_list h' q (xs @ x # ys) \<and> mapped h' = mapped h \<and>
              only_changes (set (x # q # xs @ ys)) h h'"
proof -
  let ?p = "last (q # xs)" and ?n = "hd (ys @ [q])"
  have p: "?p \<in> set (q # xs)" by (rule last_in_set) simp
  have n: "?n \<in> set (ys @ [q])" by (rule hd_in_set) simp
  from p n l have "mapped h ?p" "mapped h ?n" by (auto intro: is_list_mapped simp del: last.simps)
  from i_list_add_eval [OF x(1) this] obtain h' where
    h': "i_list_add x ?p ?n h = Some h'" "nexts h' = (nexts h)(x \<mapsto> ?n, ?p \<mapsto> x)"
      "prevs h' = (prevs h)(?n \<mapsto> x, x \<mapsto> ?p)" "mapped h' = mapped h"
      "only_changes {x, ?p, ?n} h h'"
    by blast
  have "is_list h' q (xs @ x # ys)"
  proof (cases xs rule: rev_cases)
    case Nil
    then show ?thesis
      using l x by (cases ys) (auto simp: is_list_def h'(2,3))
  next
    case (snoc as a)
    then show ?thesis
      using l x by (cases ys) (auto simp: is_list_def h'(2,3) linked_append)
  qed
  moreover from p n have "only_changes (set (x # q # xs @ ys)) h h'"
    by (intro only_changes_mono [OF h'(5)]) (auto simp del: last.simps)
  ultimately show ?thesis using h'(1,4) by blast
qed

lemma list_add_ok:
  assumes "is_list h q xs" and "mapped h x" and "x \<notin> set (q # xs)"
  shows "\<exists>h'. list_add x q h = Some h' \<and> is_list h' q (x # xs) \<and> mapped h' = mapped h \<and>
              only_changes (set (x # q # xs)) h h'"
  using i_list_add_between [of h q "[]" xs x] assms
  by (simp add: list_add_def heap_eval is_list_next)

lemma list_add_tail_ok:
  assumes "is_list h q xs" and "mapped h x" and "x \<notin> set (q # xs)"
  shows "\<exists>h'. list_add_tail x q h = Some h' \<and> is_list h' q (xs @ [x]) \<and> mapped h' = mapped h \<and>
              only_changes (set (x # q # xs)) h h'"
  using i_list_add_between [of h q xs "[]" x] assms
  by (simp add: list_add_tail_def heap_eval is_list_prev)

text \<open>Unlinking an entry from between its neighbours, the common core of the removals.\<close>

lemma i_list_del_between:
  assumes l: "is_list h q (xs @ x # ys)"
  shows "\<exists>p n h'. prevs h x = Some p \<and> nexts h x = Some n \<and> i_list_del p n h = Some h' \<and>
              is_list h' q (xs @ ys) \<and> mapped h' = mapped h \<and> h' x = h x \<and>
              only_changes (set (q # xs @ ys)) h h'"
proof -
  let ?p = "last (q # xs)" and ?n = "hd (ys @ [q])"
  have p: "?p \<in> set (q # xs)" by (rule last_in_set) simp
  have n: "?n \<in> set (ys @ [q])" by (rule hd_in_set) simp
  from l have lk: "linked (nexts h) (prevs h) q xs x" "linked (nexts h) (prevs h) x ys q"
    by (simp_all add: is_list_def linked_append)
  from p n l have "mapped h ?p" "mapped h ?n" by (auto intro: is_list_mapped simp del: last.simps)
  from i_list_del_eval [OF this] obtain h' where
    h': "i_list_del ?p ?n h = Some h'" "nexts h' = (nexts h)(?p \<mapsto> ?n)"
      "prevs h' = (prevs h)(?n \<mapsto> ?p)" "mapped h' = mapped h" "only_changes {?p, ?n} h h'"
    by blast
  have "is_list h' q (xs @ ys)"
  proof (cases xs rule: rev_cases)
    case Nil
    then show ?thesis using l by (cases ys) (auto simp: is_list_def h'(2,3))
  next
    case (snoc as a)
    then show ?thesis using l by (cases ys) (auto simp: is_list_def h'(2,3) linked_append)
  qed
  moreover from p n have c: "only_changes (set (q # xs @ ys)) h h'"
    by (intro only_changes_mono [OF h'(5)]) (auto simp del: last.simps)
  moreover from l c have "h' x = h x" by (auto simp: only_changes_def is_list_def)
  ultimately show ?thesis
    using linked_first [OF lk(2)] linked_last [OF lk(1)] h'(1,4) by blast
qed

lemma list_del_ok:
  assumes l: "is_list h q (xs @ x # ys)"
  shows "\<exists>h'. list_del x h = Some h' \<and> is_list h' q (xs @ ys) \<and> mapped h' = mapped h \<and>
              h' x = Some \<lparr>lnext = LIST_POISON1, lprev = LIST_POISON2\<rparr> \<and>
              only_changes (set (q # xs @ x # ys)) h h'"
proof -
  from l have x: "mapped h x" and d: "x \<notin> set (q # xs @ ys)"
    by (auto simp: is_list_def intro: is_list_mapped [OF l])
  from i_list_del_between [OF l] obtain p n h' where
    h': "prevs h x = Some p" "nexts h x = Some n" "i_list_del p n h = Some h'"
      "is_list h' q (xs @ ys)" "mapped h' = mapped h" "only_changes (set (q # xs @ ys)) h h'"
    by blast
  let ?h = "cell_prev x LIST_POISON2 (cell_next x LIST_POISON1 h')"
  have eq: "list_del x h = Some ?h"
    using h'(1,2,3,5) x by (simp add: list_del_def heap_eval)
  have c: "only_changes {x} h' ?h" by (simp add: only_changes_def heap_eval)
  from d have "is_list ?h q (xs @ ys)" by (intro is_list_only_changes [OF h'(4) c]) auto
  moreover have "?h x = Some \<lparr>lnext = LIST_POISON1, lprev = LIST_POISON2\<rparr>"
    by (simp add: cell_next_def cell_prev_def)
  moreover have "mapped ?h = mapped h" using h'(5) x by (simp add: heap_eval)
  moreover have "only_changes (set (q # xs @ x # ys)) h ?h"
    by (rule only_changes_trans [OF h'(6) c]) auto
  ultimately show ?thesis using eq by blast
qed

lemma list_del_init_ok:
  assumes l: "is_list h q (xs @ x # ys)"
  shows "\<exists>h'. list_del_init x h = Some h' \<and> is_list h' q (xs @ ys) \<and> is_list h' x [] \<and>
              mapped h' = mapped h \<and> only_changes (set (q # xs @ x # ys)) h h'"
proof -
  from l have x: "mapped h x" and d: "x \<notin> set (q # xs @ ys)"
    by (auto simp: is_list_def intro: is_list_mapped [OF l])
  from i_list_del_between [OF l] obtain p n h' where
    h': "prevs h x = Some p" "nexts h x = Some n" "i_list_del p n h = Some h'"
      "is_list h' q (xs @ ys)" "mapped h' = mapped h" "only_changes (set (q # xs @ ys)) h h'"
    by blast
  from INIT_LIST_HEAD_ok [of h' x] x h'(5) obtain h'' where
    h'': "INIT_LIST_HEAD x h' = Some h''" "is_list h'' x []" "mapped h'' = mapped h'"
      "only_changes {x} h' h''" by auto
  have "list_del_init x h = Some h''"
    using h'(1-3) h''(1) by (simp add: list_del_init_def heap_eval)
  moreover from d have "is_list h'' q (xs @ ys)"
    by (intro is_list_only_changes [OF h'(4) h''(4)]) auto
  moreover have "only_changes (set (q # xs @ x # ys)) h h''"
    by (rule only_changes_trans [OF h'(6) h''(4)]) auto
  ultimately show ?thesis using h'(5) h''(2,3) by auto
qed

text \<open>Moving an entry within its ring or to another ring.\<close>

lemma list_move_ok:
  assumes l: "is_list h q (xs @ x # ys)"
  shows "\<exists>h'. list_move x q h = Some h' \<and> is_list h' q (x # xs @ ys) \<and> mapped h' = mapped h"
    and "\<exists>h'. list_move_tail x q h = Some h' \<and> is_list h' q (xs @ ys @ [x]) \<and> mapped h' = mapped h"
proof -
  from l have x: "mapped h x" and d: "x \<notin> set (q # xs @ ys)"
    by (auto simp: is_list_def intro: is_list_mapped [OF l])
  from i_list_del_between [OF l] obtain p n h' where
    h': "prevs h x = Some p" "nexts h x = Some n" "i_list_del p n h = Some h'"
      "is_list h' q (xs @ ys)" "mapped h' = mapped h"
    by blast
  from x h'(5) have "mapped h' x" by simp
  from list_add_ok [OF h'(4) this d] list_add_tail_ok [OF h'(4) this d]
  show "\<exists>h'. list_move x q h = Some h' \<and> is_list h' q (x # xs @ ys) \<and> mapped h' = mapped h"
    and "\<exists>h'. list_move_tail x q h = Some h' \<and> is_list h' q (xs @ ys @ [x]) \<and> mapped h' = mapped h"
    using h'(1-3,5) by (auto simp: list_move_def list_move_tail_def heap_eval)
qed

lemma list_move_other:
  assumes l: "is_list h q (xs @ x # ys)" and r: "is_list h r zs"
    and dj: "set (q # xs @ x # ys) \<inter> set (r # zs) = {}"
  shows "\<exists>h'. list_move x r h = Some h' \<and> is_list h' q (xs @ ys) \<and> is_list h' r (x # zs)"
    and "\<exists>h'. list_move_tail x r h = Some h' \<and> is_list h' q (xs @ ys) \<and> is_list h' r (zs @ [x])"
proof -
  from l have x: "mapped h x" and d: "x \<notin> set (q # xs @ ys)"
    by (auto simp: is_list_def intro: is_list_mapped [OF l])
  from i_list_del_between [OF l] obtain p n h' where
    h': "prevs h x = Some p" "nexts h x = Some n" "i_list_del p n h = Some h'"
      "is_list h' q (xs @ ys)" "mapped h' = mapped h" "only_changes (set (q # xs @ ys)) h h'"
    by blast
  from dj have r': "is_list h' r zs" by (intro is_list_only_changes [OF r h'(6)]) auto
  from x h'(5) have x': "mapped h' x" by simp
  from dj have xz: "x \<notin> set (r # zs)" by auto
  from list_add_ok [OF r' x' xz] obtain h1 where
    h1: "list_add x r h' = Some h1" "is_list h1 r (x # zs)" "only_changes (set (x # r # zs)) h' h1"
    by blast
  from list_add_tail_ok [OF r' x' xz] obtain h2 where
    h2: "list_add_tail x r h' = Some h2" "is_list h2 r (zs @ [x])"
      "only_changes (set (x # r # zs)) h' h2"
    by blast
  from dj d have "is_list h1 q (xs @ ys)"
    by (intro is_list_only_changes [OF h'(4) h1(3)]) auto
  moreover from dj d have "is_list h2 q (xs @ ys)"
    by (intro is_list_only_changes [OF h'(4) h2(3)]) auto
  moreover note h1 h2 h'(1-3)
  ultimately
  show "\<exists>h'. list_move x r h = Some h' \<and> is_list h' q (xs @ ys) \<and> is_list h' r (x # zs)"
    and "\<exists>h'. list_move_tail x r h = Some h' \<and> is_list h' q (xs @ ys) \<and> is_list h' r (zs @ [x])"
    by (auto simp: list_move_def list_move_tail_def heap_eval)
qed

subsection \<open>Queries\<close>

lemma list_empty_ok: "is_list h q xs \<Longrightarrow> list_empty q h = Some (xs = [])"
  by (cases xs) (auto simp: list_empty_def heap_eval is_list_def)

lemma list_empty_careful_ok: "is_list h q xs \<Longrightarrow> list_empty_careful q h = Some (xs = [])"
  by (cases xs) (auto simp: list_empty_careful_def heap_eval is_list_def)

lemma list_is_last_ok:
  assumes "is_list h q (xs @ x # ys)"
  shows "list_is_last x q h = Some (ys = [])"
proof -
  from assms have "linked (nexts h) (prevs h) x ys q" and "q \<notin> set ys"
    by (auto simp: is_list_def linked_append)
  then show ?thesis by (cases ys) (auto simp: list_is_last_def heap_eval)
qed

subsection \<open>Replacing and joining\<close>

lemma list_replace_eval:
  assumes "mapped h y" "nexts h x = Some n" "prevs h x = Some p" "mapped h n" "mapped h p"
    "y \<noteq> x" "n \<noteq> x"
  shows "\<exists>h'. list_replace x y h = Some h' \<and> nexts h' = (nexts h)(y \<mapsto> n, p \<mapsto> y) \<and>
              prevs h' = (prevs h)(n \<mapsto> y, y \<mapsto> p) \<and> mapped h' = mapped h \<and>
              only_changes {y, p, n} h h'"
  using assms by (simp add: list_replace_def heap_eval only_changes_def)

lemma list_replace_ok:
  assumes l: "is_list h q (xs @ x # ys)" and y: "mapped h y" "y \<notin> set (q # xs @ x # ys)"
  shows "\<exists>h'. list_replace x y h = Some h' \<and> is_list h' q (xs @ y # ys) \<and> mapped h' = mapped h \<and>
              only_changes (set (y # q # xs @ ys)) h h'"
proof -
  let ?p = "last (q # xs)" and ?n = "hd (ys @ [q])"
  have p: "?p \<in> set (q # xs)" by (rule last_in_set) simp
  have n: "?n \<in> set (ys @ [q])" by (rule hd_in_set) simp
  from l have lk: "linked (nexts h) (prevs h) q xs x" "linked (nexts h) (prevs h) x ys q"
    by (simp_all add: is_list_def linked_append)
  from p n l have m: "mapped h ?n" "mapped h ?p" by (auto intro: is_list_mapped simp del: last.simps)
  from n l y have "y \<noteq> x" "?n \<noteq> x" by (auto simp: is_list_def)
  from list_replace_eval [OF y(1) linked_first [OF lk(2)] linked_last [OF lk(1)] m this]
  obtain h' where h': "list_replace x y h = Some h'" "nexts h' = (nexts h)(y \<mapsto> ?n, ?p \<mapsto> y)"
      "prevs h' = (prevs h)(?n \<mapsto> y, y \<mapsto> ?p)" "mapped h' = mapped h"
      "only_changes {y, ?p, ?n} h h'"
    by blast
  have "is_list h' q (xs @ y # ys)"
  proof (cases xs rule: rev_cases)
    case Nil
    then show ?thesis using l y by (cases ys) (auto simp: is_list_def h'(2,3))
  next
    case (snoc as a)
    then show ?thesis using l y by (cases ys) (auto simp: is_list_def h'(2,3) linked_append)
  qed
  moreover from p n have "only_changes (set (y # q # xs @ ys)) h h'"
    by (intro only_changes_mono [OF h'(5)]) (auto simp del: last.simps)
  ultimately show ?thesis using h'(1,4) by blast
qed

lemma list_replace_init_ok:
  assumes l: "is_list h q (xs @ x # ys)" and y: "mapped h y" "y \<notin> set (q # xs @ x # ys)"
  shows "\<exists>h'. list_replace_init x y h = Some h' \<and> is_list h' q (xs @ y # ys) \<and> is_list h' x [] \<and>
              mapped h' = mapped h"
proof -
  from l have x: "mapped h x" and d: "x \<notin> set (q # xs @ ys)"
    by (auto simp: is_list_def intro: is_list_mapped [OF l])
  from list_replace_ok [OF l y] obtain h' where
    h': "list_replace x y h = Some h'" "is_list h' q (xs @ y # ys)" "mapped h' = mapped h" by blast
  from INIT_LIST_HEAD_ok [of h' x] x h'(3) obtain h'' where
    h'': "INIT_LIST_HEAD x h' = Some h''" "is_list h'' x []" "mapped h'' = mapped h'"
      "only_changes {x} h' h''" by auto
  from d y have "is_list h'' q (xs @ y # ys)"
    by (intro is_list_only_changes [OF h'(2) h''(4)]) auto
  then show ?thesis using h' h'' by (auto simp: list_replace_init_def)
qed

text \<open>Replacing the head itself of a non-empty ring hands the entries to the new head.\<close>

lemma list_replace_head:
  assumes l: "is_list h q (x # xs)" and y: "mapped h y" "y \<notin> set (q # x # xs)"
  shows "\<exists>h'. list_replace q y h = Some h' \<and> is_list h' y (x # xs) \<and> mapped h' = mapped h"
proof -
  from l have "is_list h x (xs @ q # [])" using is_list_rotate [of h q "[]" x xs] by simp
  from list_replace_ok [OF this y(1)] y(2) obtain h' where
    h': "list_replace q y h = Some h'" "is_list h' x (xs @ y # [])" "mapped h' = mapped h" by auto
  from h'(2) have "is_list h' y ([] @ x # xs)" using is_list_rotate [of h' x xs y "[]"] by simp
  with h' show ?thesis by auto
qed

lemma i_list_splice_eval:
  assumes "nexts h l = Some f" "prevs h l = Some b"
    "mapped h f" "mapped h b" "mapped h p" "mapped h n"
  shows "\<exists>h'. i_list_splice l p n h = Some h' \<and> nexts h' = (nexts h)(p \<mapsto> f, b \<mapsto> n) \<and>
              prevs h' = (prevs h)(f \<mapsto> p, n \<mapsto> b) \<and> mapped h' = mapped h \<and>
              only_changes {p, f, b, n} h h'"
  using assms by (simp add: i_list_splice_def heap_eval only_changes_def)

lemma i_list_splice_between:
  assumes q: "is_list h q (xs @ zs)" and l: "is_list h l ys" "ys \<noteq> []"
    and dj: "set (l # ys) \<inter> set (q # xs @ zs) = {}"
  shows "\<exists>h'. i_list_splice l (last (q # xs)) (hd (zs @ [q])) h = Some h' \<and>
              is_list h' q (xs @ ys @ zs) \<and> mapped h' = mapped h"
proof -
  let ?p = "last (q # xs)" and ?n = "hd (zs @ [q])"
  have p: "?p \<in> set (q # xs)" by (rule last_in_set) simp
  have n: "?n \<in> set (zs @ [q])" by (rule hd_in_set) simp
  from l obtain f fs where f: "ys = f # fs" by (cases ys) auto
  from l obtain bs b where b: "ys = bs @ [b]" by (cases ys rule: rev_cases) auto
  from is_list_next [OF l(1)] f have nl: "nexts h l = Some f" by simp
  from is_list_prev [OF l(1)] b have pl: "prevs h l = Some b" by simp
  from p n q have m1: "mapped h ?p" "mapped h ?n" by (auto intro: is_list_mapped simp del: last.simps)
  from f have "f \<in> set ys" by simp
  moreover from b have "b \<in> set ys" by simp
  ultimately have m2: "mapped h f" "mapped h b" by (auto intro: is_list_mapped [OF l(1)])
  from i_list_splice_eval [OF nl pl m2 m1] obtain h' where
    h': "i_list_splice l ?p ?n h = Some h'" "nexts h' = (nexts h)(?p \<mapsto> f, b \<mapsto> ?n)"
      "prevs h' = (prevs h)(f \<mapsto> ?p, ?n \<mapsto> b)" "mapped h' = mapped h"
    by blast
  have "linked (nexts h') (prevs h') q (xs @ ys @ zs) q"
  proof (cases "bs = []")
    case True
    with f b q l dj show ?thesis
      by (cases xs rule: rev_cases; cases zs) (auto simp: is_list_def h'(2,3) linked_append)
  next
    case False
    then obtain ms where "ys = f # ms @ [b]" using f b by (cases bs) auto
    with q l dj show ?thesis
      by (cases xs rule: rev_cases; cases zs) (auto simp: is_list_def h'(2,3) linked_append)
  qed
  moreover from q l dj have "distinct (q # xs @ ys @ zs)" by (auto simp: is_list_def)
  ultimately have "is_list h' q (xs @ ys @ zs)" by (simp add: is_list_def)
  with h'(1,4) show ?thesis by blast
qed

text \<open>The four public joins, on a non-empty and on an empty source list.\<close>

lemma list_splice_ok:
  assumes "is_list h q xs" "is_list h l ys" "set (l # ys) \<inter> set (q # xs) = {}"
  shows "\<exists>h'. list_splice l q h = Some h' \<and> is_list h' q (ys @ xs) \<and> mapped h' = mapped h"
    and "\<exists>h'. list_splice_tail l q h = Some h' \<and> is_list h' q (xs @ ys) \<and> mapped h' = mapped h"
  using i_list_splice_between [of h q "[]" xs l ys] i_list_splice_between [of h q xs "[]" l ys] assms
  by (auto simp: list_splice_def list_splice_tail_def heap_eval list_empty_ok is_list_next
        is_list_prev)

lemma list_splice_init_ok:
  assumes "is_list h q xs" "is_list h l ys" "set (l # ys) \<inter> set (q # xs) = {}"
  shows "\<exists>h'. list_splice_init l q h = Some h' \<and> is_list h' q (ys @ xs) \<and> is_list h' l [] \<and>
              mapped h' = mapped h"
    and "\<exists>h'. list_splice_tail_init l q h = Some h' \<and> is_list h' q (xs @ ys) \<and> is_list h' l [] \<and>
              mapped h' = mapped h"
proof -
  have reinit: "\<exists>h''. INIT_LIST_HEAD l h' = Some h'' \<and> is_list h'' q zs \<and> is_list h'' l [] \<and>
      mapped h'' = mapped h"
    if h': "is_list h' q zs" "mapped h' = mapped h" "l \<notin> set (q # zs)" for h' zs
  proof -
    from assms(2) h'(2) have "mapped h' l" by (auto intro: is_list_mapped)
    from INIT_LIST_HEAD_ok [OF this] obtain h'' where
      h'': "INIT_LIST_HEAD l h' = Some h''" "is_list h'' l []" "mapped h'' = mapped h'"
        "only_changes {l} h' h''" by blast
    from h'(3) have "is_list h'' q zs" by (intro is_list_only_changes [OF h'(1) h''(4)]) auto
    with h'' h'(2) show ?thesis by auto
  qed
  show "\<exists>h'. list_splice_init l q h = Some h' \<and> is_list h' q (ys @ xs) \<and> is_list h' l [] \<and>
              mapped h' = mapped h"
  proof (cases "ys = []")
    case True
    then show ?thesis using assms by (simp add: list_splice_init_def list_empty_ok)
  next
    case False
    from i_list_splice_between [of h q "[]" xs l ys] False assms obtain h1 where
      h1: "i_list_splice l q (hd (xs @ [q])) h = Some h1" "is_list h1 q (ys @ xs)"
        "mapped h1 = mapped h" by auto
    from assms have "l \<notin> set (q # ys @ xs)" by (auto simp: is_list_def)
    from reinit [OF h1(2,3) this] h1(1) False assms(1,2) show ?thesis
      by (auto simp: list_splice_init_def list_empty_ok heap_eval is_list_next)
  qed
  show "\<exists>h'. list_splice_tail_init l q h = Some h' \<and> is_list h' q (xs @ ys) \<and> is_list h' l [] \<and>
              mapped h' = mapped h"
  proof (cases "ys = []")
    case True
    then show ?thesis using assms by (simp add: list_splice_tail_init_def list_empty_ok)
  next
    case False
    from i_list_splice_between [of h q xs "[]" l ys] False assms obtain h1 where
      h1: "i_list_splice l (last (q # xs)) q h = Some h1" "is_list h1 q (xs @ ys)"
        "mapped h1 = mapped h" by auto
    from assms have "l \<notin> set (q # xs @ ys)" by (auto simp: is_list_def)
    from reinit [OF h1(2,3) this] h1(1) False assms(1,2) show ?thesis
      by (auto simp: list_splice_tail_init_def list_empty_ok heap_eval is_list_prev)
  qed
qed

subsection \<open>Iteration\<close>

text \<open>
  A loop whose body keeps the ring visits exactly the entries, in order, and terminates: it is a
  fold over the abstract sequence.
\<close>

lemma for_ptr_fold:
  assumes keep: "\<And>p s. p \<in> set ys \<Longrightarrow> I s \<Longrightarrow> \<exists>s'. body p s = Some s' \<and> I s'"
    and get: "\<And>p s. get p (lh s) = A (lh s) p"
    and ring: "\<And>s. I s \<Longrightarrow> linked (A (lh s)) (B (lh s)) q (xs @ ys) q"
    and q: "q \<notin> set ys" and s: "I s"
  shows "\<exists>s'. for_ptr get lh body q (hd (ys @ [q])) s = Some s' \<and>
              fold_opt body ys s = Some s' \<and> I s'"
  using keep ring q s
proof (induction ys arbitrary: xs s)
  case Nil
  then show ?case by (subst for_ptr.simps) simp
next
  case (Cons y ys)
  from Cons.prems(1) [of y s] Cons.prems(4) obtain s1 where s1: "body y s = Some s1" "I s1" by auto
  from Cons.prems(2) [OF s1(2)] have "linked (A (lh s1)) (B (lh s1)) y ys q"
    by (simp add: linked_append)
  from linked_first [OF this] have n: "get y (lh s1) = Some (hd (ys @ [q]))"
    by (simp add: get)
  from Cons.IH [of "xs @ [y]" s1] Cons.prems s1 obtain s2 where
    "for_ptr get lh body q (hd (ys @ [q])) s1 = Some s2" "fold_opt body ys s1 = Some s2" "I s2"
    by auto
  with s1(1) n Cons.prems(3) show ?case by (subst for_ptr.simps) auto
qed

lemma list_for_each_fold:
  assumes keep: "\<And>p s. p \<in> set xs \<Longrightarrow> I s \<Longrightarrow> \<exists>s'. body p s = Some s' \<and> I s'"
    and ring: "\<And>s. I s \<Longrightarrow> is_list (lh s) q xs" and s: "I s"
  shows "\<exists>s'. list_for_each lh body q s = Some s' \<and> fold_opt body xs s = Some s' \<and> I s'"
    and "\<exists>s'. list_for_each_prev lh body q s = Some s' \<and> fold_opt body (rev xs) s = Some s' \<and> I s'"
proof -
  have q: "q \<notin> set xs" using ring [OF s] by (simp add: is_list_def)
  have lk: "linked (nexts (lh s)) (prevs (lh s)) q xs q" if "I s" for s
    using ring [OF that] by (simp add: is_list_def)
  have "\<exists>s'. for_ptr get_next lh body q (hd (xs @ [q])) s = Some s' \<and>
             fold_opt body xs s = Some s' \<and> I s'"
    by (rule for_ptr_fold [where xs = "[]" and A = nexts and B = prevs and I = I])
      (simp_all add: keep get_next_nexts lk q s)
  with is_list_next [OF ring [OF s]]
  show "\<exists>s'. list_for_each lh body q s = Some s' \<and> fold_opt body xs s = Some s' \<and> I s'"
    by (auto simp: list_for_each_def heap_eval)
  have "\<exists>s'. for_ptr get_prev lh body q (hd (rev xs @ [q])) s = Some s' \<and>
             fold_opt body (rev xs) s = Some s' \<and> I s'"
    by (rule for_ptr_fold [where xs = "[]" and A = prevs and B = nexts and I = I])
      (simp_all add: keep get_prev_prevs linked_rev lk q s)
  moreover have "hd (rev xs @ [q]) = last (q # xs)" by (cases xs rule: rev_cases) auto
  ultimately
  show "\<exists>s'. list_for_each_prev lh body q s = Some s' \<and> fold_opt body (rev xs) s = Some s' \<and> I s'"
    using is_list_prev [OF ring [OF s]]
    by (auto simp: list_for_each_prev_def heap_eval simp del: last.simps)
qed

text \<open>
  The safe variant reads the successor before the body runs, so the body may take the current
  entry off the ring: it is enough that the entries still to be visited stay on it.
\<close>

lemma for_ptr_safe_fold:
  assumes step: "\<And>x ys s. J (x # ys) s \<Longrightarrow> \<exists>s'. body x s = Some s' \<and> J ys s'"
    and ring: "\<And>ys s. J ys s \<Longrightarrow> \<exists>zs. is_list (lh s) q (zs @ ys)" and s: "J ys s"
  shows "\<exists>n. get_next (hd (ys @ [q])) (lh s) = Some n \<and>
             (\<exists>s'. for_ptr_safe get_next lh body q (hd (ys @ [q])) n s = Some s' \<and>
                   fold_opt body ys s = Some s' \<and> J [] s')"
  using s
proof (induction ys arbitrary: s)
  case Nil
  from ring [OF Nil] obtain zs where "is_list (lh s) q zs" by auto
  with Nil show ?case by (auto simp: heap_eval for_ptr_safe.simps dest: is_list_next)
next
  case (Cons y ys)
  from ring [OF Cons.prems] obtain zs where r: "is_list (lh s) q (zs @ y # ys)" by auto
  then have "linked (nexts (lh s)) (prevs (lh s)) y ys q" "y \<noteq> q"
    by (auto simp: is_list_def linked_append)
  from linked_first [OF this(1)] have n: "get_next y (lh s) = Some (hd (ys @ [q]))"
    by (simp add: heap_eval)
  from step [OF Cons.prems] obtain s1 where s1: "body y s = Some s1" "J ys s1" by blast
  from Cons.IH [OF s1(2)] obtain n' s2 where
    "get_next (hd (ys @ [q])) (lh s1) = Some n'"
    "for_ptr_safe get_next lh body q (hd (ys @ [q])) n' s1 = Some s2"
    "fold_opt body ys s1 = Some s2" "J [] s2"
    by blast
  with s1(1) n \<open>y \<noteq> q\<close> show ?case by (auto simp: for_ptr_safe.simps [of _ _ _ _ y])
qed

lemma list_for_each_safe_fold:
  assumes step: "\<And>x ys s. J (x # ys) s \<Longrightarrow> \<exists>s'. body x s = Some s' \<and> J ys s'"
    and ring: "\<And>ys s. J ys s \<Longrightarrow> \<exists>zs. is_list (lh s) q (zs @ ys)"
    and s: "J xs s" "is_list (lh s) q xs"
  shows "\<exists>s'. list_for_each_safe lh body q s = Some s' \<and> fold_opt body xs s = Some s' \<and> J [] s'"
  using for_ptr_safe_fold [of J body lh q xs s, OF step ring s(1)] is_list_next [OF s(2)]
  by (auto simp: list_for_each_safe_def heap_eval)

text \<open>
  The entry forms run the same loops on the addresses of the containing objects.
\<close>

lemma list_entry_add [simp]: "list_entry p off + off = p" "list_entry (p + off) off = p"
  by (simp_all add: list_entry_def container_of_def)

text \<open>
  One step from an entry is the matching step from its embedded list head; with that, each entry
  loop and the pointer loop return the same results.
\<close>

definition entry_step ::
  "(addr \<Rightarrow> lheap \<Rightarrow> addr option) \<Rightarrow> addr \<Rightarrow> addr \<Rightarrow> lheap \<Rightarrow> addr option" where
  "entry_step get pos off h = get (pos + off) h \<bind> (\<lambda>n. Some (list_entry n off))"

lemma entry_step_eqs: "list_next_entry = entry_step get_next" "list_prev_entry = entry_step get_prev"
  by (simp_all add: fun_eq_iff list_next_entry_def list_prev_entry_def entry_step_def)

lemma for_entry_to_ptr:
  assumes "for_entry (entry_step get) off lh body q pos s = Some r"
  shows "for_ptr get lh (\<lambda>p. body (list_entry p off)) q (pos + off) s = Some r"
proof -
  define P where "P = (\<lambda>step off lh (body :: addr \<Rightarrow> 'a \<Rightarrow> 'a option) q pos s r.
    step = entry_step get \<longrightarrow> for_ptr get lh (\<lambda>p. body (list_entry p off)) q (pos + off) s = Some r)"
  have "P (entry_step get) off lh body q pos s r"
  proof (rule for_entry.raw_induct [of P, OF _ assms], unfold P_def, rule impI, goal_cases)
    case (1 loop step off lh body q pos s r)
    show ?case
    proof (cases "pos + off = q")
      case True
      with 1(2) show ?thesis by (subst for_ptr.simps) simp
    next
      case False
      with 1(2,3) obtain s' n where b: "body pos s = Some s'" "get (pos + off) (lh s') = Some n"
        "loop (entry_step get) off lh body q (list_entry n off) s' = Some r"
        by (auto simp: entry_step_def bind_eq_Some_conv)
      from 1(1) [OF b(3)] have "for_ptr get lh (\<lambda>p. body (list_entry p off)) q n s' = Some r" by simp
      with False b show ?thesis by (subst for_ptr.simps) simp
    qed
  qed
  then show ?thesis by (simp add: P_def)
qed

lemma for_ptr_to_entry:
  assumes "for_ptr get lh (\<lambda>p. body (list_entry p off)) q p s = Some r"
  shows "for_entry (entry_step get) off lh body q (list_entry p off) s = Some r"
proof -
  define P where "P = (\<lambda>get lh b q p s r. b = (\<lambda>p. body (list_entry p off)) \<longrightarrow>
    for_entry (entry_step get) off lh body q (list_entry p off) s = Some r)"
  have "P get lh (\<lambda>p. body (list_entry p off)) q p s r"
  proof (rule for_ptr.raw_induct [of P, OF _ assms], unfold P_def, rule impI, goal_cases)
    case (1 loop get lh b q p s r)
    show ?case
    proof (cases "p = q")
      case True
      with 1(2) show ?thesis by (subst for_entry.simps) simp
    next
      case False
      with 1(2) obtain s' n where b: "b p s = Some s'" "get p (lh s') = Some n"
        "loop get lh b q n s' = Some r"
        by (auto simp: bind_eq_Some_conv)
      from 1(1) [OF b(3)] 1(3)
      have "for_entry (entry_step get) off lh body q (list_entry n off) s' = Some r" by simp
      with False b 1(3) show ?thesis by (subst for_entry.simps) (simp add: entry_step_def)
    qed
  qed
  then show ?thesis by (simp add: P_def)
qed

lemma for_entry_for_ptr:
  "for_entry (entry_step get) off lh body q (list_entry p off) s =
   for_ptr get lh (\<lambda>p. body (list_entry p off)) q p s"
  using for_entry_to_ptr [of get off lh body q "list_entry p off" s]
    for_ptr_to_entry [of get lh body off q p s]
  by (cases "for_ptr get lh (\<lambda>p. body (list_entry p off)) q p s";
      cases "for_entry (entry_step get) off lh body q (list_entry p off) s") auto

lemma list_for_each_entry_eq:
  "list_for_each_entry off lh body q s = list_for_each lh (\<lambda>p. body (list_entry p off)) q s"
  "list_for_each_entry_reverse off lh body q s =
   list_for_each_prev lh (\<lambda>p. body (list_entry p off)) q s"
  by (simp_all add: list_for_each_entry_def list_for_each_entry_reverse_def list_for_each_def
      list_for_each_prev_def list_first_entry_def entry_step_eqs for_entry_for_ptr)

lemma for_ptr_safe_to_entry:
  assumes "for_ptr_safe get lh (\<lambda>p. body (list_entry p off)) q p n s = Some r"
  shows "for_entry_safe (entry_step get) off lh body q (list_entry p off) (list_entry n off) s = Some r"
proof -
  define P where "P = (\<lambda>get lh b q p n s r. b = (\<lambda>p. body (list_entry p off)) \<longrightarrow>
    for_entry_safe (entry_step get) off lh body q (list_entry p off) (list_entry n off) s = Some r)"
  have "P get lh (\<lambda>p. body (list_entry p off)) q p n s r"
  proof (rule for_ptr_safe.raw_induct [of P, OF _ assms], unfold P_def, rule impI, goal_cases)
    case (1 loop get lh b q p n s r)
    show ?case
    proof (cases "p = q")
      case True
      with 1(2) show ?thesis by (subst for_entry_safe.simps) simp
    next
      case False
      with 1(2) obtain s' n' where b: "b p s = Some s'" "get n (lh s') = Some n'"
        "loop get lh b q n n' s' = Some r"
        by (auto simp: bind_eq_Some_conv)
      from 1(1) [OF b(3)] 1(3)
      have "for_entry_safe (entry_step get) off lh body q (list_entry n off) (list_entry n' off) s' =
        Some r" by simp
      with False b 1(3) show ?thesis by (subst for_entry_safe.simps) (simp add: entry_step_def)
    qed
  qed
  then show ?thesis by (simp add: P_def)
qed

lemma list_for_each_entry_safe_imp:
  assumes "list_for_each_safe lh (\<lambda>p. body (list_entry p off)) q s = Some r"
  shows "list_for_each_entry_safe off lh body q s = Some r"
proof -
  from assms obtain p n where "get_next q (lh s) = Some p" "get_next p (lh s) = Some n"
    "for_ptr_safe get_next lh (\<lambda>p. body (list_entry p off)) q p n s = Some r"
    by (auto simp: list_for_each_safe_def bind_eq_Some_conv)
  then show ?thesis
    by (simp add: list_for_each_entry_safe_def list_first_entry_def entry_step_eqs
        for_ptr_safe_to_entry) (simp add: entry_step_def for_ptr_safe_to_entry)
qed

subsection \<open>The interface of an intrusive list\<close>

text \<open>
  What the users of the header rely on, as a contract: \<open>repr h q xs\<close> holds when memory
  \<open>h\<close> keeps the sequence \<open>xs\<close> at head \<open>q\<close>, \<open>node h x\<close> when \<open>x\<close> can be
  linked. The lemmas of the locale are the stack and queue disciplines that the comments of
  \<open>list_add\<close> and \<open>list_add_tail\<close> promise.
\<close>

locale intrusive_list =
  fixes repr :: "'h \<Rightarrow> 'p \<Rightarrow> 'p list \<Rightarrow> bool"
    and node :: "'h \<Rightarrow> 'p \<Rightarrow> bool"
    and init :: "'p \<Rightarrow> 'h \<Rightarrow> 'h option"
    and push :: "'p \<Rightarrow> 'p \<Rightarrow> 'h \<Rightarrow> 'h option"
    and push_back :: "'p \<Rightarrow> 'p \<Rightarrow> 'h \<Rightarrow> 'h option"
    and unlink :: "'p \<Rightarrow> 'h \<Rightarrow> 'h option"
    and is_empty :: "'p \<Rightarrow> 'h \<Rightarrow> bool option"
  assumes init: "node h q \<Longrightarrow> \<exists>h'. init q h = Some h' \<and> repr h' q [] \<and> node h' = node h"
    and push: "repr h q xs \<Longrightarrow> node h x \<Longrightarrow> x \<notin> set (q # xs) \<Longrightarrow>
      \<exists>h'. push x q h = Some h' \<and> repr h' q (x # xs) \<and> node h' = node h"
    and push_back: "repr h q xs \<Longrightarrow> node h x \<Longrightarrow> x \<notin> set (q # xs) \<Longrightarrow>
      \<exists>h'. push_back x q h = Some h' \<and> repr h' q (xs @ [x]) \<and> node h' = node h"
    and unlink: "repr h q (xs @ x # ys) \<Longrightarrow>
      \<exists>h'. unlink x h = Some h' \<and> repr h' q (xs @ ys) \<and> node h' = node h"
    and is_empty: "repr h q xs \<Longrightarrow> is_empty q h = Some (xs = [])"
begin

lemma push_back_all:
  assumes "repr h q xs" "distinct zs" "set zs \<inter> set (q # xs) = {}" "\<forall>z \<in> set zs. node h z"
  shows "\<exists>h'. fold_opt (\<lambda>z. push_back z q) zs h = Some h' \<and> repr h' q (xs @ zs) \<and> node h' = node h"
  using assms
proof (induction zs arbitrary: h xs)
  case Nil
  then show ?case by simp
next
  case (Cons z zs)
  from push_back [of h q xs z] Cons.prems obtain h1 where
    h1: "push_back z q h = Some h1" "repr h1 q (xs @ [z])" "node h1 = node h" by auto
  from Cons.IH [OF h1(2)] Cons.prems h1(1,3) show ?case by auto
qed

lemma push_all:
  assumes "repr h q xs" "distinct zs" "set zs \<inter> set (q # xs) = {}" "\<forall>z \<in> set zs. node h z"
  shows "\<exists>h'. fold_opt (\<lambda>z. push z q) zs h = Some h' \<and> repr h' q (rev zs @ xs) \<and> node h' = node h"
  using assms
proof (induction zs arbitrary: h xs)
  case Nil
  then show ?case by simp
next
  case (Cons z zs)
  from push [of h q xs z] Cons.prems obtain h1 where
    h1: "push z q h = Some h1" "repr h1 q (z # xs)" "node h1 = node h" by auto
  from Cons.IH [OF h1(2)] Cons.prems h1(1,3) show ?case by auto
qed

lemma unlink_all:
  assumes "repr h q (xs @ ys)"
  shows "\<exists>h'. fold_opt unlink xs h = Some h' \<and> repr h' q ys \<and> node h' = node h"
  using assms
proof (induction xs arbitrary: h)
  case Nil
  then show ?case by simp
next
  case (Cons x xs)
  from unlink [of h q "[]" x "xs @ ys"] Cons.prems obtain h1 where
    h1: "unlink x h = Some h1" "repr h1 q (xs @ ys)" "node h1 = node h" by auto
  from Cons.IH [OF h1(2)] h1(1,3) show ?case by auto
qed

text \<open>Filling a fresh list from the back and draining it in the same order empties it.\<close>

lemma queue_cycle:
  assumes "node h q" "distinct (q # zs)" "\<forall>z \<in> set zs. node h z"
  shows "\<exists>h1 h2 h3. init q h = Some h1 \<and> fold_opt (\<lambda>z. push_back z q) zs h1 = Some h2 \<and>
           repr h2 q zs \<and> fold_opt unlink zs h2 = Some h3 \<and> is_empty q h3 = Some True"
proof -
  from init [OF assms(1)] obtain h1 where
    h1: "init q h = Some h1" "repr h1 q []" "node h1 = node h" by blast
  from push_back_all [OF h1(2), of zs] assms(2,3) h1(3) obtain h2 where
    h2: "fold_opt (\<lambda>z. push_back z q) zs h1 = Some h2" "repr h2 q zs" by auto
  from unlink_all [of h2 q zs "[]"] h2(2) obtain h3 where
    "fold_opt unlink zs h2 = Some h3" "repr h3 q []" by auto
  with is_empty [of h3 q "[]"] h1(1) h2 show ?thesis by auto
qed

end

text \<open>The header provides the contract, with \<open>list_del\<close> and with \<open>list_del_init\<close>.\<close>

interpretation gl: intrusive_list is_list mapped INIT_LIST_HEAD list_add list_add_tail list_del list_empty
proof unfold_locales
  show "\<exists>h'. INIT_LIST_HEAD q h = Some h' \<and> is_list h' q [] \<and> mapped h' = mapped h"
    if "mapped h q" for h q using INIT_LIST_HEAD_ok [OF that] by blast
  show "\<exists>h'. list_add x q h = Some h' \<and> is_list h' q (x # xs) \<and> mapped h' = mapped h"
    if "is_list h q xs" "mapped h x" "x \<notin> set (q # xs)" for h q xs x
    using list_add_ok [OF that] by blast
  show "\<exists>h'. list_add_tail x q h = Some h' \<and> is_list h' q (xs @ [x]) \<and> mapped h' = mapped h"
    if "is_list h q xs" "mapped h x" "x \<notin> set (q # xs)" for h q xs x
    using list_add_tail_ok [OF that] by blast
  show "\<exists>h'. list_del x h = Some h' \<and> is_list h' q (xs @ ys) \<and> mapped h' = mapped h"
    if "is_list h q (xs @ x # ys)" for h q xs x ys using list_del_ok [OF that] by blast
  show "list_empty q h = Some (xs = [])" if "is_list h q xs" for h q xs
    using list_empty_ok [OF that] .
qed

interpretation gli: intrusive_list is_list mapped INIT_LIST_HEAD list_add list_add_tail list_del_init
  list_empty_careful
proof unfold_locales
  show "\<exists>h'. list_del_init x h = Some h' \<and> is_list h' q (xs @ ys) \<and> mapped h' = mapped h"
    if "is_list h q (xs @ x # ys)" for h q xs x ys using list_del_init_ok [OF that] by blast
  show "list_empty_careful q h = Some (xs = [])" if "is_list h q xs" for h q xs
    using list_empty_careful_ok [OF that] .
qed (fact gl.init gl.push gl.push_back)+

subsection \<open>Refinement of sequences of operations\<close>

text \<open>
  The abstract list: one step per public operation on the sequence of entries, undefined where
  the header's caller would break the contract (inserting an entry that is already on the ring,
  removing one that is not). \<open>code_op\<close> runs the corresponding function on memory.
\<close>

datatype list_op =
    LAdd addr
  | LAddTail addr
  | LDel addr
  | LDelInit addr
  | LMove addr
  | LMoveTail addr
  | LReplace addr addr
  | LReplaceInit addr addr

fun spec_op :: "(addr \<Rightarrow> bool) \<Rightarrow> addr \<Rightarrow> list_op \<Rightarrow> addr list \<Rightarrow> addr list option" where
  "spec_op node q (LAdd x) xs = (if node x \<and> x \<notin> set (q # xs) then Some (x # xs) else None)"
| "spec_op node q (LAddTail x) xs = (if node x \<and> x \<notin> set (q # xs) then Some (xs @ [x]) else None)"
| "spec_op node q (LDel x) xs = (if x \<in> set xs then Some (remove1 x xs) else None)"
| "spec_op node q (LDelInit x) xs = (if x \<in> set xs then Some (remove1 x xs) else None)"
| "spec_op node q (LMove x) xs = (if x \<in> set xs then Some (x # remove1 x xs) else None)"
| "spec_op node q (LMoveTail x) xs = (if x \<in> set xs then Some (remove1 x xs @ [x]) else None)"
| "spec_op node q (LReplace x y) xs =
     (if x \<in> set xs \<and> node y \<and> y \<notin> set (q # xs) then Some (map (id(x := y)) xs) else None)"
| "spec_op node q (LReplaceInit x y) xs =
     (if x \<in> set xs \<and> node y \<and> y \<notin> set (q # xs) then Some (map (id(x := y)) xs) else None)"

fun code_op :: "addr \<Rightarrow> list_op \<Rightarrow> lheap \<Rightarrow> lheap option" where
  "code_op q (LAdd x) h = list_add x q h"
| "code_op q (LAddTail x) h = list_add_tail x q h"
| "code_op q (LDel x) h = list_del x h"
| "code_op q (LDelInit x) h = list_del_init x h"
| "code_op q (LMove x) h = list_move x q h"
| "code_op q (LMoveTail x) h = list_move_tail x q h"
| "code_op q (LReplace x y) h = list_replace x y h"
| "code_op q (LReplaceInit x y) h = list_replace_init x y h"

lemma is_list_split:
  assumes "is_list h q xs" "x \<in> set xs"
  obtains as bs where "xs = as @ x # bs" "remove1 x xs = as @ bs" "map (id(x := y)) xs = as @ y # bs"
proof -
  from split_list_first [OF assms(2)] obtain as bs where s: "xs = as @ x # bs" "x \<notin> set as" by blast
  with assms(1) have "x \<notin> set bs" by (auto simp: is_list_def)
  with s have "map (id(x := y)) as = as" "map (id(x := y)) bs = bs"
    by (auto intro!: map_idI)
  with s that show ?thesis by (auto simp: remove1_append)
qed

lemma code_op_refines:
  assumes l: "is_list h q xs" and sp: "spec_op (mapped h) q op xs = Some ys"
  shows "\<exists>h'. code_op q op h = Some h' \<and> is_list h' q ys \<and> mapped h' = mapped h"
proof (cases op)
  case (LAdd x)
  then show ?thesis using sp gl.push [OF l] by (auto split: if_splits)
next
  case (LAddTail x)
  then show ?thesis using sp gl.push_back [OF l] by (auto split: if_splits)
next
  case (LDel x)
  with sp have x: "x \<in> set xs" "ys = remove1 x xs" by (auto split: if_splits)
  from is_list_split [OF l x(1), of x] obtain as bs where "xs = as @ x # bs" "remove1 x xs = as @ bs"
    by metis
  with gl.unlink [of h q as x bs] l x(2) LDel show ?thesis by auto
next
  case (LDelInit x)
  with sp have x: "x \<in> set xs" "ys = remove1 x xs" by (auto split: if_splits)
  from is_list_split [OF l x(1), of x] obtain as bs where "xs = as @ x # bs" "remove1 x xs = as @ bs"
    by metis
  with gli.unlink [of h q as x bs] l x(2) LDelInit show ?thesis by auto
next
  case (LMove x)
  with sp have x: "x \<in> set xs" "ys = x # remove1 x xs" by (auto split: if_splits)
  from is_list_split [OF l x(1), of x] obtain as bs where "xs = as @ x # bs" "remove1 x xs = as @ bs"
    by metis
  with list_move_ok [of h q as x bs] l x(2) LMove show ?thesis by auto
next
  case (LMoveTail x)
  with sp have x: "x \<in> set xs" "ys = remove1 x xs @ [x]" by (auto split: if_splits)
  from is_list_split [OF l x(1), of x] obtain as bs where "xs = as @ x # bs" "remove1 x xs = as @ bs"
    by metis
  with list_move_ok [of h q as x bs] l x(2) LMoveTail show ?thesis by auto
next
  case (LReplace x y)
  with sp have y: "x \<in> set xs" "mapped h y" "y \<notin> set (q # xs)" "ys = map (id(x := y)) xs"
    by (auto split: if_splits)
  with is_list_split [OF l y(1), of y] obtain as bs where "xs = as @ x # bs" "ys = as @ y # bs" by metis
  with list_replace_ok [of h q as x bs y] l y LReplace show ?thesis by auto
next
  case (LReplaceInit x y)
  with sp have y: "x \<in> set xs" "mapped h y" "y \<notin> set (q # xs)" "ys = map (id(x := y)) xs"
    by (auto split: if_splits)
  with is_list_split [OF l y(1), of y] obtain as bs where "xs = as @ x # bs" "ys = as @ y # bs" by metis
  with list_replace_init_ok [of h q as x bs y] l y LReplaceInit show ?thesis by auto
qed

text \<open>Small concrete memories for the witnesses: head, two entries and spare cells.\<close>

definition ring3 :: lheap where
  "ring3 = [0x1000 \<mapsto> \<lparr>lnext = 0x2000, lprev = 0x3000\<rparr>,
            0x2000 \<mapsto> \<lparr>lnext = 0x3000, lprev = 0x1000\<rparr>,
            0x3000 \<mapsto> \<lparr>lnext = 0x1000, lprev = 0x2000\<rparr>,
            0x4000 \<mapsto> LIST_HEAD_INIT 0x4000,
            0x5000 \<mapsto> \<lparr>lnext = 0x6000, lprev = 0x6000\<rparr>,
            0x6000 \<mapsto> \<lparr>lnext = 0x5000, lprev = 0x5000\<rparr>]"

lemma ring3_facts:
  "is_list ring3 0x1000 [0x2000, 0x3000]" "is_list ring3 0x5000 [0x6000]"
  "mapped ring3 0x4000" "mapped ring3 0x1000" "mapped ring3 0x2000"
  by (simp_all add: is_list_def nexts_def prevs_def ring3_def mapped_def LIST_HEAD_INIT_def)

subsection \<open>Properties\<close>

text \<open>
  C5: every sequence of list operations that respects the header's contract runs without a bad
  memory access and leaves in memory exactly the sequence the abstract list computes.
\<close>

theorem list_ops_refine:
  assumes "is_list h q xs" and "fold_opt (spec_op (mapped h) q) ops xs = Some ys"
  shows "\<exists>h'. fold_opt (code_op q) ops h = Some h' \<and> is_list h' q ys \<and> mapped h' = mapped h"
  using assms
proof (induction ops arbitrary: h xs)
  case Nil
  then show ?case by simp
next
  case (Cons op ops)
  from Cons.prems(2) obtain zs where
    zs: "spec_op (mapped h) q op xs = Some zs" "fold_opt (spec_op (mapped h) q) ops zs = Some ys"
    by (auto simp: bind_eq_Some_conv)
  from code_op_refines [OF Cons.prems(1) zs(1)] obtain h1 where
    h1: "code_op q op h = Some h1" "is_list h1 q zs" "mapped h1 = mapped h" by blast
  from Cons.IH [OF h1(2)] zs(2) h1(1,3) show ?case by auto
qed

theorem list_ops_refine_witness:
  "\<exists>h'. fold_opt (code_op 0x1000) [LAdd 0x4000, LMoveTail 0x2000, LDel 0x4000] ring3 = Some h' \<and>
        is_list h' 0x1000 [0x3000, 0x2000] \<and> mapped h' = mapped ring3"
  by (rule list_ops_refine [OF ring3_facts(1)]) (simp add: ring3_facts)

text \<open>
  C16: the iteration macros terminate on a ring and visit every entry exactly once, forwards in
  list order, backwards in reverse order, and the entry form visits the containing objects.
\<close>

definition visit :: "addr \<Rightarrow> addr list \<times> lheap \<Rightarrow> (addr list \<times> lheap) option" where
  "visit p s = Some (fst s @ [p], snd s)"

lemma fold_visit: "fold_opt visit ps (vs, h) = Some (vs @ ps, h)"
  by (induction ps arbitrary: vs) (simp_all add: visit_def)

lemma fold_visit_entry:
  "fold_opt (\<lambda>p. visit (f p)) ps (vs, h) = Some (vs @ map f ps, h)"
  by (induction ps arbitrary: vs) (simp_all add: visit_def)

theorem list_for_each_visits:
  assumes "is_list h q xs"
  shows "list_for_each snd visit q ([], h) = Some (xs, h) \<and>
         list_for_each_prev snd visit q ([], h) = Some (rev xs, h) \<and>
         list_for_each_entry off snd visit q ([], h) = Some (map (\<lambda>p. list_entry p off) xs, h) \<and>
         list_for_each_entry_reverse off snd visit q ([], h) =
           Some (map (\<lambda>p. list_entry p off) (rev xs), h)"
proof -
  let ?I = "\<lambda>s. snd s = h" and ?e = "\<lambda>p. visit (list_entry p off)"
  have keep: "\<exists>s'. visit p s = Some s' \<and> ?I s'" if "?I s" for p s
    using that by (simp add: visit_def)
  have ring: "is_list (snd s) q xs" if "?I s" for s :: "addr list \<times> lheap"
    using that assms by simp
  note f = list_for_each_fold [where I = ?I and lh = snd and xs = xs and q = q and s = "([], h)"]
  from f [of visit] keep ring f [of ?e] show ?thesis
    by (simp add: fold_visit fold_visit_entry list_for_each_entry_eq)
qed

theorem list_for_each_visits_witness:
  "list_for_each snd visit 0x1000 ([], ring3) = Some ([0x2000, 0x3000], ring3) \<and>
   list_for_each_entry 0x10 snd visit 0x1000 ([], ring3) = Some ([0x1FF0, 0x2FF0], ring3)"
  using list_for_each_visits [OF ring3_facts(1), of "0x10"]
  by (simp add: list_entry_def container_of_def)

text \<open>
  C17: the safe iteration may delete the entry it stands on: deleting every entry visited walks
  the whole ring, never touches a bad address, and leaves the head empty, for the pointer form
  and for the entry form.
\<close>

theorem list_for_each_safe_deletes:
  assumes "is_list h q xs"
  shows "\<exists>h'. list_for_each_safe id list_del q h = Some h' \<and>
              list_for_each_entry_safe off id (\<lambda>e. list_del (e + off)) q h = Some h' \<and>
              is_list h' q []"
proof -
  let ?J = "\<lambda>ys h. is_list h q ys"
  have "\<exists>h'. list_for_each_safe id list_del q h = Some h' \<and> fold_opt list_del xs h = Some h' \<and> ?J [] h'"
  proof (rule list_for_each_safe_fold [where J = ?J])
    show "\<exists>h'. list_del x h = Some h' \<and> is_list h' q ys" if "is_list h q (x # ys)" for x ys h
      using gl.unlink [of h q "[]" x ys] that by auto
    show "\<exists>zs. is_list (id h) q (zs @ ys)" if "is_list h q ys" for ys h
      using that by (intro exI [of _ "[]"]) simp
  qed (simp_all add: assms)
  then obtain h' where h': "list_for_each_safe id list_del q h = Some h'" "is_list h' q []" by blast
  have "list_for_each_entry_safe off id (\<lambda>e. list_del (e + off)) q h = Some h'"
    by (rule list_for_each_entry_safe_imp) (simp add: h'(1))
  with h' show ?thesis by blast
qed

theorem list_for_each_safe_deletes_witness:
  "\<exists>h'. list_for_each_safe id list_del 0x1000 ring3 = Some h' \<and>
        list_for_each_entry_safe 0x10 id (\<lambda>e. list_del (e + 0x10)) 0x1000 ring3 = Some h' \<and>
        is_list h' 0x1000 []"
  by (rule list_for_each_safe_deletes [OF ring3_facts(1)])

text \<open>
  C18: splicing joins two disjoint lists, at the front or at the back of the target, whatever
  their lengths; the \<open>_init\<close> forms leave the source list empty and usable.
\<close>

theorem list_splice_joins:
  assumes "is_list h q xs" and "is_list h l ys" and "set (l # ys) \<inter> set (q # xs) = {}"
  shows "(\<exists>h'. list_splice l q h = Some h' \<and> is_list h' q (ys @ xs)) \<and>
         (\<exists>h'. list_splice_tail l q h = Some h' \<and> is_list h' q (xs @ ys)) \<and>
         (\<exists>h'. list_splice_init l q h = Some h' \<and> is_list h' q (ys @ xs) \<and> is_list h' l []) \<and>
         (\<exists>h'. list_splice_tail_init l q h = Some h' \<and> is_list h' q (xs @ ys) \<and> is_list h' l [])"
  using list_splice_ok [OF assms] list_splice_init_ok [OF assms] by blast

theorem list_splice_joins_witness:
  "(\<exists>h'. list_splice 0x5000 0x1000 ring3 = Some h' \<and> is_list h' 0x1000 [0x6000, 0x2000, 0x3000]) \<and>
   (\<exists>h'. list_splice_tail_init 0x5000 0x1000 ring3 = Some h' \<and>
         is_list h' 0x1000 [0x2000, 0x3000, 0x6000] \<and> is_list h' 0x5000 [])"
  using list_splice_joins [OF ring3_facts(1,2)] by simp

text \<open>
  As a queue, the list hands entries out in the order they were added with
  \<open>list_add_tail\<close> and is empty again afterwards.
\<close>

theorem list_queue_cycle:
  assumes "mapped h q" and "distinct (q # zs)" and "\<forall>z \<in> set zs. mapped h z"
  shows "\<exists>h1 h2 h3. INIT_LIST_HEAD q h = Some h1 \<and>
           fold_opt (\<lambda>z. list_add_tail z q) zs h1 = Some h2 \<and> is_list h2 q zs \<and>
           fold_opt list_del zs h2 = Some h3 \<and> list_empty q h3 = Some True"
  using assms by (rule gl.queue_cycle)

theorem list_queue_cycle_witness:
  "\<exists>h1 h2 h3. INIT_LIST_HEAD 0x4000 ring3 = Some h1 \<and>
     fold_opt (\<lambda>z. list_add_tail z 0x4000) [0x2000, 0x1000] h1 = Some h2 \<and>
     is_list h2 0x4000 [0x2000, 0x1000] \<and>
     fold_opt list_del [0x2000, 0x1000] h2 = Some h3 \<and> list_empty 0x4000 h3 = Some True"
  by (rule list_queue_cycle) (simp_all add: ring3_facts)

end
