(* ===== verification/GT_Posix.thy ===== *)
theory GT_Posix
  imports GT_Prelude
begin

text \<open>
  The operating system as the program sees it: what the code uses of the C library and of the
  Linux system calls. The kernel is a record: the descriptor table (index = descriptor, the
  lowest free index is allocated first), \<open>errno\<close>, the signal dispositions and the signal mask,
  and the log calls made so far.

  Whether a call fails for an outside reason (lack of resources, interruption, a peer's reset) is
  decided by the fault plan \<open>k_fault\<close>: the \<open>n\<close>-th call fails with \<open>errno = e\<close> and no
  other effect when \<open>k_fault n = Some e\<close>. In the same way \<open>k_alloc\<close>, \<open>k_peer\<close> and
  \<open>k_stack\<close> are the allocator's proposals, the peers' addresses and the indeterminate contents
  of uninitialised stack variables. The plan is an arbitrary function, so a theorem over
  all kernels covers every pattern of failures. Calls that succeed behave as documented.
\<close>

subsection \<open>Constants\<close>

definition EPOLLIN :: u32 where "EPOLLIN = 0x001"
definition EPOLLOUT :: u32 where "EPOLLOUT = 0x004"
definition EPOLLERR :: u32 where "EPOLLERR = 0x008"
definition EPOLLHUP :: u32 where "EPOLLHUP = 0x010"

definition O_NONBLOCK :: u32 where "O_NONBLOCK = 0x800"
definition FD_CLOEXEC :: u32 where "FD_CLOEXEC = 1"

definition ENOENT :: int where "ENOENT = 2"
definition EBADF :: int where "EBADF = 9"
definition EAGAIN :: int where "EAGAIN = 11"
definition ENOMEM :: int where "ENOMEM = 12"
definition EEXIST :: int where "EEXIST = 17"
definition EINVAL :: int where "EINVAL = 22"
definition EPIPE :: int where "EPIPE = 32"
definition EPERM :: int where "EPERM = 1"
definition ECONNRESET :: int where "ECONNRESET = 104"
definition EFAULT :: int where "EFAULT = 14"
definition ENOTCONN :: int where "ENOTCONN = 107"

abbreviation EWOULDBLOCK :: int where "EWOULDBLOCK \<equiv> EAGAIN"

lemmas epoll_flag_defs = EPOLLIN_def EPOLLOUT_def EPOLLERR_def EPOLLHUP_def
lemmas errno_defs = ENOENT_def EBADF_def EAGAIN_def ENOMEM_def EEXIST_def EINVAL_def EPIPE_def
  EPERM_def ECONNRESET_def EFAULT_def ENOTCONN_def

subsection \<open>Open files\<close>

record epoll_event =
  ev_events :: u32
  ev_ptr :: addr

datatype epoll_op = EPOLL_CTL_ADD | EPOLL_CTL_DEL | EPOLL_CTL_MOD

datatype fkind =
    FK_file
  | FK_sock
  | FK_listen
  | FK_pair fd
  | FK_epoll

record ofile =
  f_kind :: fkind
  f_flags :: u32
  f_fdflags :: u32
  f_rx :: "u8 list"
  f_eof :: bool
  f_pending :: nat
  f_addr :: "(u32 \<times> u16) option"
  f_interest :: "fd \<rightharpoonup> epoll_event"

definition new_file :: "fkind \<Rightarrow> ofile" where
  "new_file kd = \<lparr>f_kind = kd, f_flags = 0, f_fdflags = 0, f_rx = [], f_eof = False,
                  f_pending = 0, f_addr = None, f_interest = Map.empty\<rparr>"

subsection \<open>Log calls\<close>

datatype gt_mod_type = GT_MOD_CORE | GT_MOD_MEM | GT_MOD_NET | GT_MOD_TEST | GT_MOD_MAX

datatype gt_log_level =
    GT_LOG_LEVEL_INFO
  | GT_LOG_LEVEL_WARN
  | GT_LOG_LEVEL_ERROR
  | GT_LOG_LEVEL_DEBUG
  | GT_LOG_LEVEL_MAX

datatype log_arg = AInt int | AStr string | AErrstr int

record log_entry =
  l_mod :: gt_mod_type
  l_std :: bool
  l_level :: gt_log_level
  l_format :: string
  l_args :: "log_arg list"

subsection \<open>The kernel\<close>

datatype sig_handler = SIG_DFL | SIG_HANDLER

record kernel =
  k_fds :: "ofile option list"
  k_errno :: int
  k_calls :: nat
  k_fault :: "nat \<Rightarrow> int option"
  k_alloc :: "nat \<Rightarrow> addr"
  k_peer :: "nat \<Rightarrow> u32 \<times> u16"
  k_stack :: "nat \<Rightarrow> u32"
  k_handlers :: "int \<Rightarrow> sig_handler"
  k_sigmask :: "int list"
  k_log :: "log_entry list"

definition file_at :: "kernel \<Rightarrow> fd \<Rightarrow> ofile option" where
  "file_at k fd = (if 0 \<le> fd \<and> nat fd < length (k_fds k) then k_fds k ! nat fd else None)"

definition put_file :: "fd \<Rightarrow> ofile \<Rightarrow> kernel \<Rightarrow> kernel" where
  "put_file fd f k = k\<lparr>k_fds := (k_fds k)[nat fd := Some f]\<rparr>"

definition first_free :: "ofile option list \<Rightarrow> nat" where
  "first_free fs = length (takeWhile (\<lambda>x. x \<noteq> None) fs)"

definition alloc_fd :: "ofile \<Rightarrow> kernel \<Rightarrow> int \<times> kernel" where
  "alloc_fd f k = (let i = first_free (k_fds k) in
     (int i, k\<lparr>k_fds := (if i < length (k_fds k) then (k_fds k)[i := Some f] else k_fds k @ [Some f])\<rparr>))"

definition sys_fail :: "int \<Rightarrow> kernel \<Rightarrow> int \<times> kernel" where
  "sys_fail e k = (-1, k\<lparr>k_errno := e\<rparr>)"

definition next_call :: "kernel \<Rightarrow> kernel" where
  "next_call k = k\<lparr>k_calls := Suc (k_calls k)\<rparr>"

definition fault_now :: "kernel \<Rightarrow> int option" where
  "fault_now k = k_fault k (k_calls k)"

definition syscall :: "(kernel \<Rightarrow> int \<times> kernel) \<Rightarrow> kernel \<Rightarrow> int \<times> kernel" where
  "syscall act k = (case fault_now k of
       Some e \<Rightarrow> sys_fail e (next_call k)
     | None \<Rightarrow> act (next_call k))"

subsection \<open>Descriptors\<close>

definition drop_interest :: "fd \<Rightarrow> ofile \<Rightarrow> ofile" where
  "drop_interest fd f = f\<lparr>f_interest := (f_interest f)(fd := None)\<rparr>"

definition hang_up :: "fd \<Rightarrow> ofile \<Rightarrow> ofile" where
  "hang_up fd f = (if f_kind f = FK_pair fd then f\<lparr>f_eof := True\<rparr> else f)"

definition sys_close :: "fd \<Rightarrow> kernel \<Rightarrow> int \<times> kernel" where
  "sys_close fd k = (case file_at k fd of
       None \<Rightarrow> sys_fail EBADF (next_call k)
     | Some f \<Rightarrow> (0, (next_call k)\<lparr>k_fds :=
           map (map_option (hang_up fd \<circ> drop_interest fd)) ((k_fds k)[nat fd := None])\<rparr>))"

definition sys_read :: "fd \<Rightarrow> nat \<Rightarrow> kernel \<Rightarrow> (int \<times> u8 list \<times> kernel) option" where
  "sys_read fd n k =
     (let k' = next_call k in
      case fault_now k of
        Some e \<Rightarrow> Some (-1, [], k'\<lparr>k_errno := e\<rparr>)
      | None \<Rightarrow>
        (case file_at k fd of
           None \<Rightarrow> Some (-1, [], k'\<lparr>k_errno := EBADF\<rparr>)
         | Some f \<Rightarrow>
             if f_kind f = FK_listen then Some (-1, [], k'\<lparr>k_errno := ENOTCONN\<rparr>)
             else if f_kind f = FK_epoll then Some (-1, [], k'\<lparr>k_errno := EINVAL\<rparr>)
             else if f_rx f \<noteq> [] then
               Some (int (min n (length (f_rx f))), take n (f_rx f),
                     put_file fd (f\<lparr>f_rx := drop n (f_rx f)\<rparr>) k')
             else if f_eof f then Some (0, [], k')
             else if f_flags f AND O_NONBLOCK \<noteq> 0 then Some (-1, [], k'\<lparr>k_errno := EAGAIN\<rparr>)
             else None))"

definition sys_write :: "fd \<Rightarrow> u8 list \<Rightarrow> kernel \<Rightarrow> int \<times> kernel" where
  "sys_write fd bs = syscall (\<lambda>k. case file_at k fd of
       None \<Rightarrow> sys_fail EBADF k
     | Some f \<Rightarrow>
        (case f_kind f of
           FK_pair peer \<Rightarrow>
             (case file_at k peer of
                None \<Rightarrow> sys_fail EPIPE k
              | Some g \<Rightarrow> (int (length bs), put_file peer (g\<lparr>f_rx := f_rx g @ bs\<rparr>) k))
         | FK_epoll \<Rightarrow> sys_fail EINVAL k
         | _ \<Rightarrow> (int (length bs), k)))"

definition sys_open :: "kernel \<Rightarrow> int \<times> kernel" where
  "sys_open = syscall (alloc_fd (new_file FK_file))"

definition sys_fcntl_getfl :: "fd \<Rightarrow> kernel \<Rightarrow> (int \<times> u32) \<times> kernel" where
  "sys_fcntl_getfl fd k = (case fault_now k of
       Some e \<Rightarrow> ((-1, -1), (next_call k)\<lparr>k_errno := e\<rparr>)
     | None \<Rightarrow>
        (case file_at k fd of
           None \<Rightarrow> ((-1, -1), (next_call k)\<lparr>k_errno := EBADF\<rparr>)
         | Some f \<Rightarrow> ((0, f_flags f), next_call k)))"

definition sys_fcntl_setfl :: "fd \<Rightarrow> u32 \<Rightarrow> kernel \<Rightarrow> int \<times> kernel" where
  "sys_fcntl_setfl fd fl = syscall (\<lambda>k. case file_at k fd of
       None \<Rightarrow> sys_fail EBADF k
     | Some f \<Rightarrow> (0, put_file fd (f\<lparr>f_flags := fl\<rparr>) k))"

definition sys_fcntl_getfd :: "fd \<Rightarrow> kernel \<Rightarrow> (int \<times> u32) \<times> kernel" where
  "sys_fcntl_getfd fd k = (case fault_now k of
       Some e \<Rightarrow> ((-1, -1), (next_call k)\<lparr>k_errno := e\<rparr>)
     | None \<Rightarrow>
        (case file_at k fd of
           None \<Rightarrow> ((-1, -1), (next_call k)\<lparr>k_errno := EBADF\<rparr>)
         | Some f \<Rightarrow> ((0, f_fdflags f), next_call k)))"

definition sys_fcntl_setfd :: "fd \<Rightarrow> u32 \<Rightarrow> kernel \<Rightarrow> int \<times> kernel" where
  "sys_fcntl_setfd fd fl = syscall (\<lambda>k. case file_at k fd of
       None \<Rightarrow> sys_fail EBADF k
     | Some f \<Rightarrow> (0, put_file fd (f\<lparr>f_fdflags := fl\<rparr>) k))"

subsection \<open>Sockets\<close>

definition sys_socketpair :: "kernel \<Rightarrow> int \<times> (fd \<times> fd) option \<times> kernel" where
  "sys_socketpair k = (case fault_now k of
       Some e \<Rightarrow> (-1, None, (next_call k)\<lparr>k_errno := e\<rparr>)
     | None \<Rightarrow>
        (let (a, k1) = alloc_fd (new_file FK_sock) (next_call k);
             (b, k2) = alloc_fd (new_file (FK_pair a)) k1
         in (0, Some (a, b), put_file a (new_file (FK_pair b)) k2)))"

definition sys_socket :: "kernel \<Rightarrow> int \<times> kernel" where
  "sys_socket = syscall (alloc_fd (new_file FK_sock))"

definition with_open :: "fd \<Rightarrow> (ofile \<Rightarrow> kernel \<Rightarrow> int \<times> kernel) \<Rightarrow> kernel \<Rightarrow> int \<times> kernel" where
  "with_open fd act k = (case file_at k fd of None \<Rightarrow> sys_fail EBADF k | Some f \<Rightarrow> act f k)"

definition sys_setsockopt :: "fd \<Rightarrow> kernel \<Rightarrow> int \<times> kernel" where
  "sys_setsockopt fd = syscall (with_open fd (\<lambda>f k. (0, k)))"

definition sys_bind :: "fd \<Rightarrow> u32 \<Rightarrow> u16 \<Rightarrow> kernel \<Rightarrow> int \<times> kernel" where
  "sys_bind fd ip port = syscall (with_open fd (\<lambda>f k. (0, put_file fd (f\<lparr>f_addr := Some (ip, port)\<rparr>) k)))"

definition sys_listen :: "fd \<Rightarrow> int \<Rightarrow> kernel \<Rightarrow> int \<times> kernel" where
  "sys_listen fd backlog =
     syscall (with_open fd (\<lambda>f k. (0, put_file fd (f\<lparr>f_kind := FK_listen\<rparr>) k)))"

text \<open>
  The plan \<open>k_peer\<close> gives the address and port, in network byte order, of the peer whose
  connection the \<open>n\<close>-th call accepts.
\<close>

definition sys_accept :: "fd \<Rightarrow> kernel \<Rightarrow> (int \<times> kernel) option" where
  "sys_accept fd k = (case fault_now k of
       Some e \<Rightarrow> Some (sys_fail e (next_call k))
     | None \<Rightarrow>
        (case file_at k fd of
           None \<Rightarrow> Some (sys_fail EBADF (next_call k))
         | Some f \<Rightarrow>
             if f_kind f \<noteq> FK_listen then Some (sys_fail EINVAL (next_call k))
             else (case f_pending f of
                Suc n \<Rightarrow> Some (alloc_fd (new_file FK_sock)
                           (put_file fd (f\<lparr>f_pending := n\<rparr>) (next_call k)))
              | 0 \<Rightarrow> if f_flags f AND O_NONBLOCK \<noteq> 0 then Some (sys_fail EAGAIN (next_call k))
                     else None)))"

subsection \<open>epoll\<close>

definition sys_epoll_create :: "int \<Rightarrow> kernel \<Rightarrow> int \<times> kernel" where
  "sys_epoll_create sz = syscall (\<lambda>k.
     if sz \<le> 0 then sys_fail EINVAL k else alloc_fd (new_file FK_epoll) k)"

definition sys_epoll_ctl :: "fd \<Rightarrow> epoll_op \<Rightarrow> fd \<Rightarrow> epoll_event \<Rightarrow> kernel \<Rightarrow> int \<times> kernel" where
  "sys_epoll_ctl epfd op fd ev = syscall (\<lambda>k.
     case (file_at k epfd, file_at k fd) of
       (Some ep, Some f) \<Rightarrow>
         if f_kind ep \<noteq> FK_epoll \<or> fd = epfd then sys_fail EINVAL k
         else if f_kind f = FK_file then sys_fail EPERM k
         else (case (op, f_interest ep fd) of
             (EPOLL_CTL_ADD, None) \<Rightarrow> (0, put_file epfd (ep\<lparr>f_interest := (f_interest ep)(fd \<mapsto> ev)\<rparr>) k)
           | (EPOLL_CTL_ADD, Some _) \<Rightarrow> sys_fail EEXIST k
           | (EPOLL_CTL_MOD, Some _) \<Rightarrow> (0, put_file epfd (ep\<lparr>f_interest := (f_interest ep)(fd \<mapsto> ev)\<rparr>) k)
           | (EPOLL_CTL_DEL, Some _) \<Rightarrow> (0, put_file epfd (ep\<lparr>f_interest := (f_interest ep)(fd := None)\<rparr>) k)
           | _ \<Rightarrow> sys_fail ENOENT k)
     | _ \<Rightarrow> sys_fail EBADF k)"

text \<open>
  \<open>epoll_wait\<close> reports at most \<open>maxe\<close> of the registered descriptors, each once, with the
  conditions that hold of it among those asked for (an error or hang-up is always reported). The
  order of the report, and which conditions hold, is the environment's choice \<open>rdy\<close>, but a
  descriptor is reported readable only when a read or accept would not block.
\<close>

type_synonym readiness = "fd list \<times> (fd \<Rightarrow> u32)"

definition readable :: "ofile \<Rightarrow> bool" where
  "readable f \<longleftrightarrow> (if f_kind f = FK_listen then 0 < f_pending f else f_rx f \<noteq> [] \<or> f_eof f)"

definition readable_at :: "kernel \<Rightarrow> fd \<Rightarrow> bool" where
  "readable_at k fd = (case file_at k fd of None \<Rightarrow> False | Some f \<Rightarrow> readable f)"

definition epoll_ready :: "kernel \<Rightarrow> ofile \<Rightarrow> (fd \<Rightarrow> u32) \<Rightarrow> fd \<Rightarrow> epoll_event option" where
  "epoll_ready k ep fl fd = (case f_interest ep fd of
       None \<Rightarrow> None
     | Some ev \<Rightarrow> (let e = fl fd AND (ev_events ev OR EPOLLERR OR EPOLLHUP) AND
                          (if readable_at k fd then NOT 0 else NOT EPOLLIN) in
                  if e = 0 then None else Some (ev\<lparr>ev_events := e\<rparr>)))"

definition sys_epoll_wait ::
  "readiness \<Rightarrow> fd \<Rightarrow> addr \<Rightarrow> int \<Rightarrow> kernel \<Rightarrow> int \<times> epoll_event list \<times> kernel" where
  "sys_epoll_wait rdy epfd ee maxe k =
     (let k' = next_call k in
      case fault_now k of
        Some e \<Rightarrow> (-1, [], k'\<lparr>k_errno := e\<rparr>)
      | None \<Rightarrow>
        (case file_at k epfd of
           None \<Rightarrow> (-1, [], k'\<lparr>k_errno := EBADF\<rparr>)
         | Some ep \<Rightarrow>
             if f_kind ep \<noteq> FK_epoll \<or> maxe \<le> 0 then (-1, [], k'\<lparr>k_errno := EINVAL\<rparr>)
             else let evs = take (nat maxe) (List.map_filter (epoll_ready k ep (snd rdy)) (remdups (fst rdy))) in
               if evs \<noteq> [] \<and> ee = NULL then (-1, [], k'\<lparr>k_errno := EFAULT\<rparr>)
               else (int (length evs), evs, k')))"

definition sys_dup2 :: "fd \<Rightarrow> fd \<Rightarrow> kernel \<Rightarrow> int \<times> kernel" where
  "sys_dup2 old new = syscall (\<lambda>k. case file_at k old of
       None \<Rightarrow> sys_fail EBADF k
     | Some f \<Rightarrow>
         if new < 0 then sys_fail EBADF k
         else if new = old then (new, k)
         else (let k1 = snd (sys_close new k);
                   fs = k_fds k1 @ replicate (Suc (nat new) - length (k_fds k1)) None
               in (new, k\<lparr>k_fds := fs[nat new := Some (f\<lparr>f_fdflags := 0\<rparr>)]\<rparr>)))"

subsection \<open>Signals\<close>

definition SIGKILL :: int where "SIGKILL = 9"
definition SIGSTOP :: int where "SIGSTOP = 19"

definition sys_sigaction :: "int \<Rightarrow> sig_handler \<Rightarrow> kernel \<Rightarrow> int \<times> kernel" where
  "sys_sigaction sig hdl = syscall (\<lambda>k.
     if sig < 1 \<or> 64 < sig \<or> sig = SIGKILL \<or> sig = SIGSTOP then sys_fail EINVAL k
     else (0, k\<lparr>k_handlers := (k_handlers k)(sig := hdl)\<rparr>))"

definition sys_sigblock :: "int list \<Rightarrow> kernel \<Rightarrow> int \<times> kernel" where
  "sys_sigblock sigs = syscall (\<lambda>k.
     (0, k\<lparr>k_sigmask := k_sigmask k @
            filter (\<lambda>s. s \<noteq> SIGKILL \<and> s \<noteq> SIGSTOP \<and> s \<notin> set (k_sigmask k)) sigs\<rparr>))"

subsection \<open>Logging\<close>

definition log_call ::
  "gt_mod_type \<Rightarrow> bool \<Rightarrow> gt_log_level \<Rightarrow> string \<Rightarrow> log_arg list \<Rightarrow> kernel \<Rightarrow> kernel" where
  "log_call md std lvl fmt args k =
     (let k' = (next_call k)\<lparr>k_log := k_log k @ [\<lparr>l_mod = md, l_std = std, l_level = lvl,
                                                 l_format = fmt, l_args = args\<rparr>]\<rparr>
      in case fault_now k of Some e \<Rightarrow> k'\<lparr>k_errno := e\<rparr> | None \<Rightarrow> k')"

subsection \<open>The descriptor table\<close>

lemma file_at_fields [simp]:
  "file_at (k\<lparr>k_errno := e\<rparr>) = file_at k"
  "file_at (k\<lparr>k_calls := n\<rparr>) = file_at k"
  "file_at (k\<lparr>k_log := l\<rparr>) = file_at k"
  "file_at (k\<lparr>k_handlers := hs\<rparr>) = file_at k"
  "file_at (k\<lparr>k_sigmask := m\<rparr>) = file_at k"
  "file_at (next_call k) = file_at k"
  by (simp_all add: file_at_def next_call_def fun_eq_iff)

lemma next_call_fields [simp]:
  "k_errno (next_call k) = k_errno k" "k_calls (next_call k) = Suc (k_calls k)"
  "k_fault (next_call k) = k_fault k" "k_alloc (next_call k) = k_alloc k"
  "k_handlers (next_call k) = k_handlers k" "k_sigmask (next_call k) = k_sigmask k"
  "k_log (next_call k) = k_log k" "k_fds (next_call k) = k_fds k"
  by (simp_all add: next_call_def)

lemma sys_fail_simps [simp]:
  "fst (sys_fail e k) = -1" "file_at (snd (sys_fail e k)) = file_at k"
  "k_errno (snd (sys_fail e k)) = e"
  by (simp_all add: sys_fail_def)

lemma file_at_put_file [simp]:
  "file_at k fd = Some g \<Longrightarrow> file_at (put_file fd f k) a = (if a = fd then Some f else file_at k a)"
  by (auto simp: file_at_def put_file_def nth_list_update split: if_splits)

lemma file_at_put_fun:
  "file_at k fd = Some f \<Longrightarrow> file_at (put_file fd g k) = (file_at k)(fd \<mapsto> g)"
  by (auto simp: file_at_def put_file_def fun_eq_iff split: if_splits)

lemma put_file_fields [simp]:
  "k_errno (put_file fd f k) = k_errno k" "k_calls (put_file fd f k) = k_calls k"
  "k_fault (put_file fd f k) = k_fault k" "k_alloc (put_file fd f k) = k_alloc k"
  "k_log (put_file fd f k) = k_log k"
  by (simp_all add: put_file_def)

lemma first_free_None:
  "first_free fs < length fs \<Longrightarrow> fs ! first_free fs = None"
  unfolding first_free_def using nth_length_takeWhile [of "\<lambda>x. x \<noteq> None" fs] by blast

lemma first_free_le: "first_free fs \<le> length fs"
  by (simp add: first_free_def length_takeWhile_le)

text \<open>Allocation takes a descriptor that was closed and changes no other.\<close>

lemma alloc_fd_spec:
  assumes "alloc_fd f k = (a, k')"
  shows "0 \<le> a" "file_at k a = None" "file_at k' = (file_at k)(a \<mapsto> f)"
    "k_errno k' = k_errno k" "k_fault k' = k_fault k" "k_alloc k' = k_alloc k"
    "k_calls k' = k_calls k" "k_log k' = k_log k"
proof -
  from assms have a: "a = int (first_free (k_fds k))" and
    k': "k' = k\<lparr>k_fds := (if first_free (k_fds k) < length (k_fds k)
           then (k_fds k)[first_free (k_fds k) := Some f] else k_fds k @ [Some f])\<rparr>"
    by (simp_all add: alloc_fd_def Let_def)
  then show "0 \<le> a" "k_errno k' = k_errno k" "k_fault k' = k_fault k" "k_alloc k' = k_alloc k"
    "k_calls k' = k_calls k" "k_log k' = k_log k"
    by simp_all
  show "file_at k a = None" using a by (auto simp: file_at_def first_free_None)
  show "file_at k' = (file_at k)(a \<mapsto> f)"
    using a k' first_free_le [of "k_fds k"]
    by (auto simp: file_at_def nth_list_update nth_append fun_eq_iff)
qed

text \<open>The lowest closed descriptor is the one allocated.\<close>

lemma alloc_fd_lowest:
  assumes "alloc_fd f k = (a, k')" "0 \<le> b" "b < a"
  shows "file_at k b \<noteq> None"
proof -
  let ?fs = "k_fds k"
  from assms have b: "nat b < first_free ?fs" by (auto simp: alloc_fd_def Let_def)
  then have "takeWhile (\<lambda>x. x \<noteq> None) ?fs ! nat b \<in> set (takeWhile (\<lambda>x. x \<noteq> None) ?fs)"
    unfolding first_free_def by (rule nth_mem)
  then have "?fs ! nat b \<noteq> None"
    using b unfolding first_free_def by (auto dest: set_takeWhileD simp: takeWhile_nth)
  with b first_free_le [of ?fs] assms(2) show ?thesis by (auto simp: file_at_def)
qed

lemma file_at_sys_close:
  assumes "file_at k fd = Some f"
  shows "fst (sys_close fd k) = 0"
    and "file_at (snd (sys_close fd k)) a =
         (if a = fd then None else map_option (hang_up fd \<circ> drop_interest fd) (file_at k a))"
  using assms by (auto simp: sys_close_def file_at_def nth_list_update split: if_splits)

lemma sys_close_bad [simp]:
  "file_at k fd = None \<Longrightarrow> sys_close fd k = sys_fail EBADF (next_call k)"
  by (simp add: sys_close_def)

lemma close_file_simps [simp]:
  "f_interest (drop_interest fd f) = (f_interest f)(fd := None)"
  "f_kind (drop_interest fd f) = f_kind f" "f_kind (hang_up fd f) = f_kind f"
  "f_interest (hang_up fd f) = f_interest f" "f_rx (hang_up fd f) = f_rx f"
  "f_rx (drop_interest fd f) = f_rx f" "f_flags (hang_up fd f) = f_flags f"
  "f_flags (drop_interest fd f) = f_flags f"
  by (simp_all add: drop_interest_def hang_up_def)

text \<open>No call changes the fault plan or the allocation plan.\<close>

lemma plans_syscall [frame_simps]:
  assumes "\<And>k. k_fault (snd (act k)) = k_fault k \<and> k_alloc (snd (act k)) = k_alloc k"
  shows "k_fault (snd (syscall act k)) = k_fault k" "k_alloc (snd (syscall act k)) = k_alloc k"
  using assms by (auto simp: syscall_def sys_fail_def split: option.splits)

lemma plans_sys_fail [frame_simps]:
  "k_fault (snd (sys_fail e k)) = k_fault k" "k_alloc (snd (sys_fail e k)) = k_alloc k"
  by (simp_all add: sys_fail_def)

lemma plans_alloc_fd [frame_simps]:
  "k_fault (snd (alloc_fd f k)) = k_fault k" "k_alloc (snd (alloc_fd f k)) = k_alloc k"
  by (simp_all add: alloc_fd_def Let_def)

lemma plans_close [frame_simps]:
  "k_fault (snd (sys_close fd k)) = k_fault k" "k_alloc (snd (sys_close fd k)) = k_alloc k"
  by (auto simp: sys_close_def frame_simps split: option.splits)

lemma plans_epoll_ctl [frame_simps]:
  "k_fault (snd (sys_epoll_ctl ep op fd ev k)) = k_fault k"
  "k_alloc (snd (sys_epoll_ctl ep op fd ev k)) = k_alloc k"
  unfolding sys_epoll_ctl_def
  by (rule plans_syscall, auto simp: frame_simps split: option.splits epoll_op.splits)+

lemma plans_log [frame_simps]:
  "k_fault (log_call md std lvl fmt args k) = k_fault k"
  "k_alloc (log_call md std lvl fmt args k) = k_alloc k"
  "file_at (log_call md std lvl fmt args k) = file_at k"
  by (auto simp: log_call_def Let_def split: option.splits)

subsection \<open>Calls without outside failures\<close>

definition no_faults :: "kernel \<Rightarrow> bool" where
  "no_faults k \<longleftrightarrow> (\<forall>n. k_fault k n = None)"

lemma no_faults_now [simp]: "no_faults k \<Longrightarrow> fault_now k = None"
  by (simp add: no_faults_def fault_now_def)

lemma no_faults_next [simp]: "no_faults (next_call k) = no_faults k"
  by (simp add: no_faults_def)

lemma syscall_ok: "fault_now k = None \<Longrightarrow> syscall act k = act (next_call k)"
  by (simp add: syscall_def)

lemma syscall_fault: "fault_now k = Some e \<Longrightarrow> syscall act k = sys_fail e (next_call k)"
  by (simp add: syscall_def)

end
