(* ===== verification/GT_State.thy ===== *)
theory GT_State
  imports GT_List GT_Posix
begin

text \<open>
  The program's memory and globals, and the memory module (\<open>user/core/gt_memory.c\<close>). Objects
  live in typed partial maps from addresses: the events and pollers of \<open>gt_poller.h\<close>, and in
  \<open>lists\<close> the list heads embedded in them, at the member's address. Allocated blocks are
  recorded in \<open>blocks\<close>; freeing one removes the objects in it, so a later access is undefined.
  Function pointers are codes (\<open>gt_fn\<close>, \<open>phase_fn\<close>); \<open>None\<close> is the null pointer.
\<close>

subsection \<open>Structures\<close>

datatype gt_fn = FN_signal_ops_read | FN_network_ops_read | FN_datanet_ops_read

record gt_ops =
  op_read :: "gt_fn option"
  op_write :: "gt_fn option"
  op_dispatch :: "gt_fn option"

record gt_event =
  ge_efd :: fd
  ge_ops :: gt_ops
  ge_e :: epoll_event
  ge_gpoller :: addr

record gt_poller =
  gp_epfd :: fd
  gp_ee :: addr
  gp_maxe :: int
  gp_timeout :: int

text \<open>Layout on x86-64: the size of an event, and the offsets of the embedded list heads.\<close>

definition sizeof_gt_event :: int where "sizeof_gt_event = 72"
definition sizeof_epoll_event :: int where "sizeof_epoll_event = 12"
definition ge_list_off :: addr where "ge_list_off = 48"
definition gp_elist_off :: addr where "gp_elist_off = 24"

definition ge_list :: "addr \<Rightarrow> addr" where "ge_list ge = ge + ge_list_off"
definition gp_elist :: "addr \<Rightarrow> addr" where "gp_elist gp = gp + gp_elist_off"

datatype gt_phase = GT_PHASE_0 | GT_PHASE_1 | GT_PHASE_2 | GT_PHASE_3 | GT_PHASE_MAX

datatype gt_cmod =
    GT_CMOD_CORE
  | GT_CMOD_MEM
  | GT_CMOD_SIGNAL
  | GT_CMOD_POLLER
  | GT_CMOD_NETWORK
  | GT_CMOD_PTHREAD
  | GT_CMOD_MAX

datatype phase_fn =
    FN_core_phase0_func
  | FN_signal_phase1_func
  | FN_network_phase1_func
  | FN_network_phase2_func

record gt_phase_info =
  pi_gphase :: gt_phase
  pi_phase :: string
  pi_fn :: "phase_fn option list"

text \<open>
  \<open>struct gt_pthread\<close> of \<open>gt_worker.h\<close>. A thread is started with a pointer to its row of one
  of the two static tables; \<open>threads\<close> lists the threads created so far by that pointer, each
  with the point its routine has reached.
\<close>

datatype routine_fn = FN_business_routine | FN_network_routine | FN_datanet_routine

record gt_pthread =
  pt_id :: u64
  pt_name :: string
  pt_routine :: routine_fn
  pt_pid :: int
  pt_data :: addr

datatype pthread_ref = BusinessRow nat | DatanetRow nat

datatype thread_pc =
    PC_start
  | PC_lock
  | PC_locked
  | PC_waiting
  | PC_woken
  | PC_owner
  | PC_init
  | PC_loop
  | PC_exited

record gt_state =
  kern :: kernel
  lists :: lheap
  gevents :: "addr \<rightharpoonup> gt_event"
  gpollers :: "addr \<rightharpoonup> gt_poller"
  blocks :: "addr \<rightharpoonup> int"
  g_signal_pipefd :: "fd \<times> fd"
  g_gt_phase :: "gt_phase_info list"
  g_gt_server_ip :: u32
  g_gt_server_port :: u16
  g_gt_log_fd :: fd
  g_gt_business_pthread :: "gt_pthread list"
  g_gt_datanet_pthread :: "gt_pthread list"
  threads :: "(pthread_ref \<times> thread_pc) list"

subsection \<open>System calls and log macros on the program state\<close>

definition lift_k :: "(kernel \<Rightarrow> 'r \<times> kernel) \<Rightarrow> gt_state \<Rightarrow> 'r \<times> gt_state" where
  "lift_k f s = (let (r, k) = f (kern s) in (r, s\<lparr>kern := k\<rparr>))"

definition gt_errno :: "gt_state \<Rightarrow> int" where
  "gt_errno s = k_errno (kern s)"

definition GT_INFO_LOG :: "gt_mod_type \<Rightarrow> string \<Rightarrow> log_arg list \<Rightarrow> gt_state \<Rightarrow> gt_state" where
  "GT_INFO_LOG md fmt args s = s\<lparr>kern := log_call md False GT_LOG_LEVEL_INFO fmt args (kern s)\<rparr>"

definition GT_WARN_LOG :: "gt_mod_type \<Rightarrow> string \<Rightarrow> log_arg list \<Rightarrow> gt_state \<Rightarrow> gt_state" where
  "GT_WARN_LOG md fmt args s = s\<lparr>kern := log_call md False GT_LOG_LEVEL_WARN fmt args (kern s)\<rparr>"

definition GT_ERROR_LOG :: "gt_mod_type \<Rightarrow> string \<Rightarrow> log_arg list \<Rightarrow> gt_state \<Rightarrow> gt_state" where
  "GT_ERROR_LOG md fmt args s = s\<lparr>kern := log_call md False GT_LOG_LEVEL_ERROR fmt args (kern s)\<rparr>"

definition GT_STD_ERROR_LOG :: "gt_mod_type \<Rightarrow> string \<Rightarrow> log_arg list \<Rightarrow> gt_state \<Rightarrow> gt_state" where
  "GT_STD_ERROR_LOG md fmt args s = s\<lparr>kern := log_call md True GT_LOG_LEVEL_ERROR fmt args (kern s)\<rparr>"

subsection \<open>Memory module\<close>

datatype gt_mem_type = GT_MEM_TYPE_HEAP | GT_MEM_TYPE_FML | GT_MEM_TYPE_BLK | GT_MEM_TYPE_INVALID

text \<open>
  The allocator may answer with any address that holds no live object. The plan \<open>k_alloc\<close>
  proposes one; a proposal that is null or in use stands for a failed allocation, so the plans
  cover exactly the behaviours of a correct allocator.
\<close>

definition fresh_block :: "addr \<Rightarrow> gt_state \<Rightarrow> bool" where
  "fresh_block a s \<longleftrightarrow> a \<noteq> NULL \<and> blocks s a = None \<and> gevents s a = None \<and> gpollers s a = None \<and>
                      lists s (ge_list a) = None"

definition gt_malloc_mem :: "gt_mod_type \<Rightarrow> gt_mem_type \<Rightarrow> int \<Rightarrow> gt_state \<Rightarrow> addr \<times> gt_state" where
  "gt_malloc_mem md mtype sz s =
     (let k = kern s; a = k_alloc k (k_calls k); s' = s\<lparr>kern := next_call k\<rparr> in
      if fault_now k = None \<and> 0 \<le> sz \<and> fresh_block a s
      then (a, s'\<lparr>blocks := (blocks s)(a \<mapsto> sz)\<rparr>)
      else (NULL, s'\<lparr>kern := (next_call k)\<lparr>k_errno := ENOMEM\<rparr>\<rparr>))"

definition gt_free_mem :: "addr \<Rightarrow> gt_state \<Rightarrow> gt_state option" where
  "gt_free_mem mem s =
     (if mem = NULL then Some s
      else (case blocks s mem of
              None \<Rightarrow> None
            | Some n \<Rightarrow> Some (s\<lparr>blocks := (blocks s)(mem := None),
                              gevents := (gevents s)(mem := None),
                              lists := (lists s)(ge_list mem := None)\<rparr>)))"

subsection \<open>Static objects\<close>

definition g_gt_core_poller :: addr where "g_gt_core_poller = 0x604000"
definition g_gt_network_poller :: addr where "g_gt_network_poller = 0x604040"
definition GT_DATANET_PTHREAD_NUM :: nat where "GT_DATANET_PTHREAD_NUM = 4"
definition GT_BUSINESS_PTHREAD_NUM :: nat where "GT_BUSINESS_PTHREAD_NUM = 5"

definition g_gt_datanet_poller :: "nat \<Rightarrow> addr" where
  "g_gt_datanet_poller i = 0x604080 + of_nat (40 * i)"

text \<open>The six statically allocated pollers, zero-initialised like every static object.\<close>

definition static_pollers :: "addr list" where
  "static_pollers = g_gt_core_poller # g_gt_network_poller #
                    map g_gt_datanet_poller [0..<GT_DATANET_PTHREAD_NUM]"

definition boot_kernel :: "(nat \<Rightarrow> int option) \<Rightarrow> (nat \<Rightarrow> addr) \<Rightarrow> kernel" where
  "boot_kernel fault alloc = \<lparr>k_fds = replicate 3 (Some (new_file FK_file)), k_errno = 0, k_calls = 0,
     k_fault = fault, k_alloc = alloc, k_peer = (\<lambda>_. (0, 0)), k_stack = (\<lambda>_. 0), k_handlers = (\<lambda>_. SIG_DFL), k_sigmask = [], k_log = []\<rparr>"

definition phase_row :: "gt_phase \<Rightarrow> string \<Rightarrow> gt_phase_info" where
  "phase_row ph nm = \<lparr>pi_gphase = ph, pi_phase = nm, pi_fn = replicate 6 None\<rparr>"

text \<open>The two thread tables of \<open>gt_worker.c\<close> as initialised.\<close>

definition business_pthread_init :: "gt_pthread list" where
  "business_pthread_init =
    [\<lparr>pt_id = 0, pt_name = ''gt_business_0'', pt_routine = FN_business_routine, pt_pid = 0, pt_data = NULL\<rparr>,
     \<lparr>pt_id = 0, pt_name = ''gt_business_1'', pt_routine = FN_business_routine, pt_pid = 0, pt_data = NULL\<rparr>,
     \<lparr>pt_id = 0, pt_name = ''gt_business_2'', pt_routine = FN_business_routine, pt_pid = 0, pt_data = NULL\<rparr>,
     \<lparr>pt_id = 0, pt_name = ''gt_business_3'', pt_routine = FN_business_routine, pt_pid = 0, pt_data = NULL\<rparr>,
     \<lparr>pt_id = 0, pt_name = ''gt_network_m'', pt_routine = FN_network_routine, pt_pid = 0,
      pt_data = g_gt_network_poller\<rparr>]"

definition datanet_pthread_init :: "gt_pthread list" where
  "datanet_pthread_init =
    [\<lparr>pt_id = 0, pt_name = ''gt_datanet_0'', pt_routine = FN_datanet_routine, pt_pid = 0, pt_data = g_gt_datanet_poller 0\<rparr>,
     \<lparr>pt_id = 0, pt_name = ''gt_datanet_1'', pt_routine = FN_datanet_routine, pt_pid = 0, pt_data = g_gt_datanet_poller 1\<rparr>,
     \<lparr>pt_id = 0, pt_name = ''gt_datanet_2'', pt_routine = FN_datanet_routine, pt_pid = 0, pt_data = g_gt_datanet_poller 2\<rparr>,
     \<lparr>pt_id = 0, pt_name = ''gt_datanet_3'', pt_routine = FN_datanet_routine, pt_pid = 0, pt_data = g_gt_datanet_poller 3\<rparr>]"

definition boot_state :: "kernel \<Rightarrow> gt_state" where
  "boot_state k = \<lparr>kern = k,
     lists = (\<lambda>a. if a \<in> gp_elist ` set static_pollers then Some \<lparr>lnext = NULL, lprev = NULL\<rparr> else None),
     gevents = Map.empty,
     gpollers = (\<lambda>a. if a \<in> set static_pollers
                     then Some \<lparr>gp_epfd = 0, gp_ee = NULL, gp_maxe = 0, gp_timeout = 0\<rparr> else None),
     blocks = Map.empty, g_signal_pipefd = (0, 0),
     g_gt_phase = [phase_row GT_PHASE_0 ''GT_PHASE_0'', phase_row GT_PHASE_1 ''GT_PHASE_1'',
                   phase_row GT_PHASE_2 ''GT_PHASE_2'', phase_row GT_PHASE_3 ''GT_PHASE_3''],
     g_gt_server_ip = 0, g_gt_server_port = 0, g_gt_log_fd = 1,
     g_gt_business_pthread = business_pthread_init, g_gt_datanet_pthread = datanet_pthread_init,
     threads = []\<rparr>"

subsection \<open>Frame facts\<close>

text \<open>The globals that the poller operations leave alone.\<close>

definition statics where
  "statics s = (g_signal_pipefd s, g_gt_phase s, g_gt_server_ip s, g_gt_server_port s, g_gt_log_fd s,
                g_gt_business_pthread s, g_gt_datanet_pthread s, threads s)"

lemma statics_frame [simp]:
  "statics (s\<lparr>kern := k\<rparr>) = statics s" "statics (s\<lparr>lists := h\<rparr>) = statics s"
  "statics (s\<lparr>gevents := e\<rparr>) = statics s" "statics (s\<lparr>gpollers := p\<rparr>) = statics s"
  "statics (s\<lparr>blocks := b\<rparr>) = statics s"
  "statics (GT_INFO_LOG md fmt a s) = statics s" "statics (GT_ERROR_LOG md fmt a s) = statics s"
  "statics (GT_WARN_LOG md fmt a s) = statics s" "statics (GT_STD_ERROR_LOG md fmt a s) = statics s"
  "statics (snd (lift_k f s)) = statics s"
  by (simp_all add: statics_def GT_INFO_LOG_def GT_ERROR_LOG_def GT_WARN_LOG_def GT_STD_ERROR_LOG_def
      lift_k_def split: prod.splits)

lemma statics_eqD:
  assumes "statics s' = statics s"
  shows "g_signal_pipefd s' = g_signal_pipefd s" "g_gt_phase s' = g_gt_phase s"
    "g_gt_server_ip s' = g_gt_server_ip s" "g_gt_server_port s' = g_gt_server_port s"
    "g_gt_log_fd s' = g_gt_log_fd s" "g_gt_business_pthread s' = g_gt_business_pthread s"
    "g_gt_datanet_pthread s' = g_gt_datanet_pthread s" "threads s' = threads s"
  using assms by (simp_all add: statics_def)

lemma statics_malloc [simp]:
  "statics (snd (gt_malloc_mem md mt sz s)) = statics s"
  by (simp add: gt_malloc_mem_def Let_def)

lemma statics_free: "gt_free_mem a s = Some s' \<Longrightarrow> statics s' = statics s"
  by (auto simp: gt_free_mem_def split: if_splits option.splits)

lemma lift_k_simps [simp]:
  "fst (lift_k f s) = fst (f (kern s))" "kern (snd (lift_k f s)) = snd (f (kern s))"
  "lists (snd (lift_k f s)) = lists s" "gevents (snd (lift_k f s)) = gevents s"
  "gpollers (snd (lift_k f s)) = gpollers s" "blocks (snd (lift_k f s)) = blocks s"
  by (simp_all add: lift_k_def split: prod.splits)

lemma lift_k_eq: "lift_k f s = (fst (f (kern s)), s\<lparr>kern := snd (f (kern s))\<rparr>)"
  by (simp add: lift_k_def split: prod.splits)

lemma log_frame [simp]:
  "lists (GT_INFO_LOG md fmt a s) = lists s" "lists (GT_ERROR_LOG md fmt a s) = lists s"
  "lists (GT_WARN_LOG md fmt a s) = lists s"
  "gevents (GT_INFO_LOG md fmt a s) = gevents s" "gevents (GT_ERROR_LOG md fmt a s) = gevents s"
  "gevents (GT_WARN_LOG md fmt a s) = gevents s"
  "gpollers (GT_INFO_LOG md fmt a s) = gpollers s" "gpollers (GT_ERROR_LOG md fmt a s) = gpollers s"
  "gpollers (GT_WARN_LOG md fmt a s) = gpollers s"
  "blocks (GT_INFO_LOG md fmt a s) = blocks s" "blocks (GT_ERROR_LOG md fmt a s) = blocks s"
  "blocks (GT_WARN_LOG md fmt a s) = blocks s"
  "file_at (kern (GT_INFO_LOG md fmt a s)) = file_at (kern s)"
  "file_at (kern (GT_ERROR_LOG md fmt a s)) = file_at (kern s)"
  "file_at (kern (GT_WARN_LOG md fmt a s)) = file_at (kern s)"
  "k_fault (kern (GT_INFO_LOG md fmt a s)) = k_fault (kern s)"
  "k_fault (kern (GT_ERROR_LOG md fmt a s)) = k_fault (kern s)"
  "k_fault (kern (GT_WARN_LOG md fmt a s)) = k_fault (kern s)"
  "k_alloc (kern (GT_INFO_LOG md fmt a s)) = k_alloc (kern s)"
  "k_alloc (kern (GT_ERROR_LOG md fmt a s)) = k_alloc (kern s)"
  "k_alloc (kern (GT_WARN_LOG md fmt a s)) = k_alloc (kern s)"
  "g_signal_pipefd (GT_INFO_LOG md fmt a s) = g_signal_pipefd s"
  "g_signal_pipefd (GT_ERROR_LOG md fmt a s) = g_signal_pipefd s"
  "g_gt_phase (GT_INFO_LOG md fmt a s) = g_gt_phase s"
  "g_gt_phase (GT_ERROR_LOG md fmt a s) = g_gt_phase s"
  by (simp_all add: GT_INFO_LOG_def GT_ERROR_LOG_def GT_WARN_LOG_def frame_simps)

lemma ge_list_inject [simp]: "ge_list a = ge_list b \<longleftrightarrow> a = b"
  by (simp add: ge_list_def)

lemma gp_elist_inject [simp]: "gp_elist a = gp_elist b \<longleftrightarrow> a = b"
  by (simp add: gp_elist_def)

end
