(* ===== verification/GT_Poller.thy ===== *)
theory GT_Poller
  imports GT_State
begin

text \<open>
  The poller engine (\<open>user/core/gt_poller.c\<close>): events are allocated, linked with a poller,
  registered with the kernel's epoll set, dispatched by \<open>gt_poller_epoll_wait\<close>, and destroyed.
\<close>

subsection \<open>Operations\<close>

definition put_event :: "addr \<Rightarrow> gt_event \<Rightarrow> gt_state \<Rightarrow> gt_state" where
  "put_event ge gev s = s\<lparr>gevents := (gevents s)(ge \<mapsto> gev)\<rparr>"

definition gt_poller_event_start :: "u32 \<Rightarrow> addr \<Rightarrow> gt_state \<Rightarrow> (int \<times> gt_state) option" where
  "gt_poller_event_start eflag gevent s = do {
     gev \<leftarrow> gevents s gevent;
     let op = (if ev_events (ge_e gev) \<noteq> 0 then EPOLL_CTL_MOD else EPOLL_CTL_ADD);
     if ev_events (ge_e gev) AND eflag \<noteq> 0 then Some (GT_OK, s)
     else do {
       let ev = \<lparr>ev_events = ev_events (ge_e gev) OR eflag, ev_ptr = gevent\<rparr>;
       let s = put_event gevent (gev\<lparr>ge_e := ev\<rparr>) s;
       gp \<leftarrow> gpollers s (ge_gpoller gev);
       let (ret, s) = lift_k (sys_epoll_ctl (gp_epfd gp) op (ge_efd gev) ev) s;
       if ret \<noteq> GT_OK then
         Some (ret, GT_ERROR_LOG GT_MOD_CORE ''Failed to epoll_ctl to epfd[%d]! errno:%d, %s''
                      [AInt (gp_epfd gp), AInt (gt_errno s), AErrstr (gt_errno s)] s)
       else Some (GT_OK, s) } }"

definition gt_poller_event_stop :: "u32 \<Rightarrow> addr \<Rightarrow> gt_state \<Rightarrow> (int \<times> gt_state) option" where
  "gt_poller_event_stop eflag gevent s = do {
     gev \<leftarrow> gevents s gevent;
     let op = (if ev_events (ge_e gev) \<noteq> 0 then EPOLL_CTL_MOD else EPOLL_CTL_DEL);
     if ev_events (ge_e gev) AND eflag = 0 then Some (GT_OK, s)
     else do {
       let ev = (ge_e gev)\<lparr>ev_events := ev_events (ge_e gev) AND NOT eflag\<rparr>;
       let s = put_event gevent (gev\<lparr>ge_e := ev\<rparr>) s;
       gp \<leftarrow> gpollers s (ge_gpoller gev);
       let (ret, s) = lift_k (sys_epoll_ctl (gp_epfd gp) op (ge_efd gev) ev) s;
       if ret \<noteq> GT_OK then
         Some (ret, GT_ERROR_LOG GT_MOD_CORE ''Failed to epoll_ctl to epfd[%d]! errno:%d, %s''
                      [AInt (gp_epfd gp), AInt (gt_errno s), AErrstr (gt_errno s)] s)
       else Some (GT_OK, s) } }"

text \<open>\<open>memset\<close> makes the new block an event with every field zero.\<close>

definition zero_event :: gt_event where
  "zero_event = \<lparr>ge_efd = 0, ge_ops = \<lparr>op_read = None, op_write = None, op_dispatch = None\<rparr>,
                 ge_e = \<lparr>ev_events = 0, ev_ptr = NULL\<rparr>, ge_gpoller = NULL\<rparr>"

definition memset_event :: "addr \<Rightarrow> gt_state \<Rightarrow> gt_state" where
  "memset_event ge s = s\<lparr>gevents := (gevents s)(ge \<mapsto> zero_event),
                         lists := (lists s)(ge_list ge \<mapsto> \<lparr>lnext = NULL, lprev = NULL\<rparr>)\<rparr>"

definition gt_poller_gevent_create :: "fd \<Rightarrow> addr \<Rightarrow> gt_state \<Rightarrow> (addr \<times> gt_state) option" where
  "gt_poller_gevent_create efd gpoller s = do {
     let (ge, s) = gt_malloc_mem GT_MOD_CORE GT_MEM_TYPE_FML sizeof_gt_event s;
     if ge = NULL then
       Some (NULL, GT_ERROR_LOG GT_MOD_CORE ''Failed to alloc mem to gt_event'' [] s)
     else do {
       let s = memset_event ge s;
       gev \<leftarrow> gevents s ge;
       let s = put_event ge (gev\<lparr>ge_efd := efd\<rparr>) s;
       h \<leftarrow> INIT_LIST_HEAD (ge_list ge) (lists s);
       h \<leftarrow> list_add (gp_elist gpoller) (ge_list ge) h;
       let s = s\<lparr>lists := h\<rparr>;
       gev \<leftarrow> gevents s ge;
       let s = put_event ge (gev\<lparr>ge_gpoller := gpoller\<rparr>) s;
       Some (ge, s) } }"

definition gt_poller_gevent_destroy :: "addr \<Rightarrow> gt_state \<Rightarrow> gt_state option" where
  "gt_poller_gevent_destroy ge s = do {
     gev \<leftarrow> gevents s ge;
     (_, s) \<leftarrow> gt_poller_event_stop (ev_events (ge_e gev)) ge s;
     h \<leftarrow> list_del (ge_list ge) (lists s);
     let s = s\<lparr>lists := h\<rparr>;
     gev \<leftarrow> gevents s ge;
     let (_, s) = lift_k (sys_close (ge_efd gev)) s;
     gt_free_mem ge s }"

definition gt_poller_init :: "int \<Rightarrow> int \<Rightarrow> addr \<Rightarrow> gt_state \<Rightarrow> (int \<times> gt_state) option" where
  "gt_poller_init maxe timeout gpoller s = do {
     gp \<leftarrow> gpollers s gpoller;
     let gp = gp\<lparr>gp_maxe := maxe, gp_timeout := timeout\<rparr>;
     let (epfd, s) = lift_k (sys_epoll_create (maxe + 1)) s;
     let gp = gp\<lparr>gp_epfd := epfd\<rparr>;
     let s = s\<lparr>gpollers := (gpollers s)(gpoller \<mapsto> gp)\<rparr>;
     if epfd < 0 then
       Some (GT_ERROR, GT_ERROR_LOG GT_MOD_CORE ''Failed to epoll_ctl to epfd[%d]! errno:%d, %s''
                         [AInt epfd, AInt (gt_errno s), AErrstr (gt_errno s)] s)
     else do {
       let (ee, s) = gt_malloc_mem GT_MOD_CORE GT_MEM_TYPE_HEAP (maxe * sizeof_epoll_event) s;
       let gp = gp\<lparr>gp_ee := ee\<rparr>;
       let s = s\<lparr>gpollers := (gpollers s)(gpoller \<mapsto> gp)\<rparr>;
       if ee = NULL then
         Some (GT_ERROR, GT_ERROR_LOG GT_MOD_CORE ''Failed to alloc mem for gpoller.'' [] s)
       else do {
         h \<leftarrow> INIT_LIST_HEAD (gp_elist gpoller) (lists s);
         Some (GT_OK, s\<lparr>lists := h\<rparr>) } } }"

definition gt_poller_clean :: "addr \<Rightarrow> gt_state \<Rightarrow> gt_state option" where
  "gt_poller_clean gpoller s = do {
     e \<leftarrow> list_empty (gp_elist gpoller) (lists s);
     let s = (if \<not> e then GT_WARN_LOG GT_MOD_CORE ''Warning: List not empty!'' [] s else s);
     gp \<leftarrow> gpollers s gpoller;
     let (_, s) = lift_k (sys_close (gp_epfd gp)) s;
     gt_free_mem (gp_ee gp) s }"

text \<open>
  The loop body of \<open>gt_poller_epoll_wait\<close> for one reported event, and the whole call. A call
  through \<open>ops.read\<close> or \<open>ops.write\<close> is resolved by \<open>call\<close>; a null pointer cannot
  be called. The kernel stores the report in the block \<open>ee\<close>, which must be live and large enough.
\<close>

definition epoll_dispatch_one ::
  "(gt_fn \<Rightarrow> addr \<Rightarrow> gt_state \<Rightarrow> (int \<times> gt_state) option) \<Rightarrow> epoll_event \<Rightarrow> gt_state \<Rightarrow> gt_state option" where
  "epoll_dispatch_one call ev s = (
     let ge = ev_ptr ev in
     if ev_events ev AND EPOLLIN \<noteq> 0 then do {
       gev \<leftarrow> gevents s ge;
       fn \<leftarrow> op_read (ge_ops gev);
       (ret, s) \<leftarrow> call fn ge s;
       if ret < 0 then do {
         gev \<leftarrow> gevents s ge;
         Some (GT_ERROR_LOG GT_MOD_CORE ''Failed to read for efd:%d'' [AInt (ge_efd gev)] s) }
       else Some s }
     else if ev_events ev AND EPOLLOUT \<noteq> 0 then do {
       gev \<leftarrow> gevents s ge;
       fn \<leftarrow> op_write (ge_ops gev);
       (ret, s) \<leftarrow> call fn ge s;
       Some s }
     else Some s)"

definition gt_poller_epoll_wait ::
  "(gt_fn \<Rightarrow> addr \<Rightarrow> gt_state \<Rightarrow> (int \<times> gt_state) option) \<Rightarrow> readiness \<Rightarrow> addr \<Rightarrow>
   gt_state \<Rightarrow> gt_state option" where
  "gt_poller_epoll_wait call rdy gpoller s = do {
     gp \<leftarrow> gpollers s gpoller;
     let (events_num, ee, k) = sys_epoll_wait rdy (gp_epfd gp) (gp_ee gp) (gp_maxe gp) (kern s);
     let s = s\<lparr>kern := k\<rparr>;
     if 0 < events_num then do {
       sz \<leftarrow> blocks s (gp_ee gp);
       if events_num * sizeof_epoll_event \<le> sz then fold_opt (epoll_dispatch_one call) ee s else None }
     else Some s }"

subsection \<open>Frame\<close>

lemma statics_put_event [simp]: "statics (put_event ge gev s) = statics s"
  by (simp add: put_event_def)

lemma statics_memset [simp]: "statics (memset_event ge s) = statics s"
  by (simp add: memset_event_def)

lemma statics_event_start: "gt_poller_event_start eflag ge s = Some (r, s') \<Longrightarrow> statics s' = statics s"
  by (auto simp: gt_poller_event_start_def bind_eq_Some_conv Let_def lift_k_eq split: if_splits)

lemma statics_event_stop: "gt_poller_event_stop eflag ge s = Some (r, s') \<Longrightarrow> statics s' = statics s"
  by (auto simp: gt_poller_event_stop_def bind_eq_Some_conv Let_def lift_k_eq split: if_splits)

lemma statics_gevent_create:
  assumes "gt_poller_gevent_create efd gp s = Some (r, s')"
  shows "statics s' = statics s"
proof -
  obtain ge s0 where m: "gt_malloc_mem GT_MOD_CORE GT_MEM_TYPE_FML sizeof_gt_event s = (ge, s0)" by fastforce
  from statics_malloc [of GT_MOD_CORE GT_MEM_TYPE_FML sizeof_gt_event s] m have "statics s0 = statics s" by simp
  with assms m show ?thesis
    by (auto simp: gt_poller_gevent_create_def bind_eq_Some_conv Let_def split: if_splits)
qed

lemma statics_gevent_destroy: "gt_poller_gevent_destroy ge s = Some s' \<Longrightarrow> statics s' = statics s"
  by (auto simp: gt_poller_gevent_destroy_def bind_eq_Some_conv Let_def lift_k_eq
      dest!: statics_free statics_event_stop)

lemma statics_poller_init:
  assumes "gt_poller_init maxe tmo gp s = Some (r, s')"
  shows "statics s' = statics s"
  using assms statics_malloc
  by (auto simp: gt_poller_init_def bind_eq_Some_conv Let_def lift_k_eq gt_malloc_mem_def split: if_splits prod.splits)

lemmas statics_ops = statics_event_start statics_event_stop statics_gevent_create statics_gevent_destroy
  statics_poller_init

subsection \<open>Link invariant\<close>

text \<open>
  How the list heads of events and pollers point at each other. \<open>gt_poller_gevent_create\<close> calls
  \<open>list_add\<close> with the poller's head as the new entry and the event as the head, so each event's
  links always point at the head of its poller, and the head points at itself, at the event
  created last, or is still zero.
\<close>

definition event_links :: "gt_state \<Rightarrow> bool" where
  "event_links s \<longleftrightarrow> (\<forall>ge gev. gevents s ge = Some gev \<longrightarrow>
     ge \<noteq> NULL \<and> blocks s ge \<noteq> None \<and> gpollers s (ge_gpoller gev) \<noteq> None \<and>
     lists s (ge_list ge) = Some \<lparr>lnext = gp_elist (ge_gpoller gev), lprev = gp_elist (ge_gpoller gev)\<rparr>)"

definition poller_links :: "gt_state \<Rightarrow> bool" where
  "poller_links s \<longleftrightarrow> (\<forall>gp. gpollers s gp \<noteq> None \<longrightarrow>
     (\<exists>a. lists s (gp_elist gp) = Some \<lparr>lnext = a, lprev = a\<rparr> \<and>
        (a = NULL \<or> a = gp_elist gp \<or>
         (\<exists>ge gev. gevents s ge = Some gev \<and> ge_gpoller gev = gp \<and> a = ge_list ge))))"

definition apart :: "gt_state \<Rightarrow> bool" where
  "apart s \<longleftrightarrow> (\<forall>ge gp. gevents s ge \<noteq> None \<longrightarrow> gpollers s gp \<noteq> None \<longrightarrow> ge_list ge \<noteq> gp_elist gp)"

definition poller_inv :: "gt_state \<Rightarrow> bool" where
  "poller_inv s \<longleftrightarrow> event_links s \<and> poller_links s \<and> apart s"

lemmas poller_inv_defs = poller_inv_def event_links_def poller_links_def apart_def

lemma poller_inv_frame:
  assumes "poller_inv s" "lists s' = lists s" "gevents s' = gevents s" "gpollers s' = gpollers s"
    "blocks s' = blocks s"
  shows "poller_inv s'"
  using assms by (simp add: poller_inv_defs)

lemma poller_inv_kern [simp]: "poller_inv (s\<lparr>kern := k\<rparr>) = poller_inv s"
  by (simp add: poller_inv_defs)

lemma poller_inv_log [simp]:
  "poller_inv (GT_INFO_LOG md fmt a s) = poller_inv s"
  "poller_inv (GT_ERROR_LOG md fmt a s) = poller_inv s"
  "poller_inv (GT_WARN_LOG md fmt a s) = poller_inv s"
  by (simp_all add: poller_inv_defs)

text \<open>Changing an event without moving it to another poller keeps the links.\<close>

lemma poller_inv_put_event:
  assumes "poller_inv s" "gevents s ge = Some gev" "ge_gpoller gev' = ge_gpoller gev"
  shows "poller_inv (put_event ge gev' s)"
proof -
  have "event_links (put_event ge gev' s)" "apart (put_event ge gev' s)"
    using assms by (auto simp: poller_inv_defs put_event_def)
  moreover have "poller_links (put_event ge gev' s)"
    using assms unfolding poller_inv_def poller_links_def put_event_def
    by simp (metis option.inject)
  ultimately show ?thesis by (simp add: poller_inv_def)
qed

subsection \<open>Creation and destruction of events\<close>

lemma is_list_single:
  assumes "is_list h q [x]"
  shows "h q = Some \<lparr>lnext = x, lprev = x\<rparr>" and "h x = Some \<lparr>lnext = q, lprev = q\<rparr>"
  using assms by (auto simp: is_list_def nexts_def prevs_def intro!: list_head.equality)

definition created_event :: "fd \<Rightarrow> addr \<Rightarrow> gt_event" where
  "created_event efd gp = zero_event\<lparr>ge_efd := efd, ge_gpoller := gp\<rparr>"

lemma created_event_simps [simp]:
  "ge_efd (created_event efd gp) = efd" "ge_gpoller (created_event efd gp) = gp"
  "ge_e (created_event efd gp) = \<lparr>ev_events = 0, ev_ptr = NULL\<rparr>"
  "op_write (ge_ops (created_event efd gp)) = None"
  by (simp_all add: created_event_def zero_event_def)

text \<open>Linking the fresh event: two writes that make a ring of the event and the head.\<close>

lemma link_new_event:
  assumes "mapped h (gp_elist gp)" "h (ge_list ge) = None"
  shows "\<exists>h1 h2. INIT_LIST_HEAD (ge_list ge) (h(ge_list ge \<mapsto> z)) = Some h1 \<and>
           list_add (gp_elist gp) (ge_list ge) h1 = Some h2 \<and>
           is_list h2 (gp_elist gp) [ge_list ge] \<and>
           only_changes {ge_list ge, gp_elist gp} h h2"
proof -
  let ?h = "h(ge_list ge \<mapsto> z)"
  have "mapped ?h (ge_list ge)" by (simp add: mapped_def)
  from INIT_LIST_HEAD_ok [OF this] obtain h1 where
    h1: "INIT_LIST_HEAD (ge_list ge) ?h = Some h1" "is_list h1 (ge_list ge) []"
      "mapped h1 = mapped ?h" "only_changes {ge_list ge} ?h h1" by blast
  from assms have "mapped h1 (gp_elist gp)" "gp_elist gp \<noteq> ge_list ge"
    by (auto simp: h1(3) mapped_def)
  from list_add_ok [OF h1(2) this(1)] this(2) obtain h2 where
    h2: "list_add (gp_elist gp) (ge_list ge) h1 = Some h2" "is_list h2 (ge_list ge) [gp_elist gp]"
      "only_changes {gp_elist gp, ge_list ge} h1 h2" by auto
  from h2(2) have "is_list h2 (gp_elist gp) [ge_list ge]"
    using is_list_rotate [of h2 "ge_list ge" "[]" "gp_elist gp" "[]"] by simp
  moreover have "only_changes {ge_list ge, gp_elist gp} h h2"
    using h1(4) h2(3) by (auto simp: only_changes_def)
  ultimately show ?thesis using h1(1) h2(1) by blast
qed

lemma gevent_create_eval:
  assumes inv: "poller_inv s" and gp: "gpollers s gp \<noteq> None"
  shows "\<exists>r s'. gt_poller_gevent_create efd gp s = Some (r, s') \<and>
    gpollers s' = gpollers s \<and> file_at (kern s') = file_at (kern s) \<and>
    k_fault (kern s') = k_fault (kern s) \<and> k_alloc (kern s') = k_alloc (kern s) \<and>
    (if r = NULL
     then gevents s' = gevents s \<and> lists s' = lists s \<and> blocks s' = blocks s
     else gevents s r = None \<and> gevents s' = (gevents s)(r \<mapsto> created_event efd gp) \<and>
          lists s (ge_list r) = None \<and>
          blocks s' = (blocks s)(r \<mapsto> sizeof_gt_event) \<and> is_list (lists s') (gp_elist gp) [ge_list r] \<and>
          only_changes {ge_list r, gp_elist gp} (lists s) (lists s'))"
proof -
  let ?m = "gt_malloc_mem GT_MOD_CORE GT_MEM_TYPE_FML sizeof_gt_event s"
  obtain ge s0 where m: "?m = (ge, s0)" by (cases ?m)
  show ?thesis
  proof (cases "ge = NULL")
    case True
    with m have "gevents s0 = gevents s" "lists s0 = lists s" "blocks s0 = blocks s"
      "gpollers s0 = gpollers s" "file_at (kern s0) = file_at (kern s)"
      "k_fault (kern s0) = k_fault (kern s)" "k_alloc (kern s0) = k_alloc (kern s)"
      by (auto simp: gt_malloc_mem_def Let_def fresh_block_def split: if_splits)
    with m True show ?thesis by (simp add: gt_poller_gevent_create_def)
  next
    case False
    with m have s0: "s0 = s\<lparr>kern := next_call (kern s), blocks := (blocks s)(ge \<mapsto> sizeof_gt_event)\<rparr>"
      and fr: "gevents s ge = None" "lists s (ge_list ge) = None"
      by (auto simp: gt_malloc_mem_def Let_def fresh_block_def split: if_splits)
    from inv gp have "mapped (lists s) (gp_elist gp)"
      by (auto simp: poller_inv_def poller_links_def mapped_def)
    from link_new_event [OF this fr(2)] obtain h1 h2 where
      h: "INIT_LIST_HEAD (ge_list ge) ((lists s)(ge_list ge \<mapsto> \<lparr>lnext = NULL, lprev = NULL\<rparr>)) = Some h1"
        "list_add (gp_elist gp) (ge_list ge) h1 = Some h2" "is_list h2 (gp_elist gp) [ge_list ge]"
        "only_changes {ge_list ge, gp_elist gp} (lists s) h2" by blast
    with m s0 fr False show ?thesis
      by (simp add: gt_poller_gevent_create_def memset_event_def put_event_def created_event_def)
  qed
qed

lemma created_keeps_inv:
  assumes inv: "poller_inv s" and gp: "gpollers s gp \<noteq> None" and r: "r \<noteq> NULL"
    and fr: "gevents s r = None" "lists s (ge_list r) = None"
    and ev: "gevents s' = (gevents s)(r \<mapsto> gev)" "ge_gpoller gev = gp"
    and bl: "blocks s' = (blocks s)(r \<mapsto> n)" and gps: "gpollers s' = gpollers s"
    and ring: "is_list (lists s') (gp_elist gp) [ge_list r]"
    and oc: "only_changes {ge_list r, gp_elist gp} (lists s) (lists s')"
  shows "poller_inv s'"
proof -
  have far: "ge_list r \<noteq> gp_elist p" if "gpollers s p \<noteq> None" for p
    using inv fr(2) that by (auto simp: poller_inv_def poller_links_def)
  have same: "lists s' (ge_list g) = lists s (ge_list g)" if "gevents s g \<noteq> None" for g
  proof -
    from that fr have "g \<noteq> r" by auto
    moreover from inv gp that have "ge_list g \<noteq> gp_elist gp" by (auto simp: poller_inv_def apart_def)
    ultimately show ?thesis using oc by (simp add: only_changes_def)
  qed
  have same_p: "lists s' (gp_elist p) = lists s (gp_elist p)" if "gpollers s p \<noteq> None" "p \<noteq> gp" for p
    using oc that far [OF that(1)] by (auto simp: only_changes_def)
  have "event_links s'"
    using inv ev bl gps gp r is_list_single(2) [OF ring] same
    by (auto simp: poller_inv_def event_links_def)
  moreover have "apart s'" using inv ev gps far by (auto simp: poller_inv_def apart_def)
  moreover have "poller_links s'"
    unfolding poller_links_def
  proof (intro allI impI)
    fix p
    assume p: "gpollers s' p \<noteq> None"
    show "\<exists>a. lists s' (gp_elist p) = Some \<lparr>lnext = a, lprev = a\<rparr> \<and>
        (a = NULL \<or> a = gp_elist p \<or> (\<exists>ge gev. gevents s' ge = Some gev \<and> ge_gpoller gev = p \<and> a = ge_list ge))"
    proof (cases "p = gp")
      case True
      with ev is_list_single(1) [OF ring] show ?thesis by auto
    next
      case False
      with p gps inv obtain a where a: "lists s (gp_elist p) = Some \<lparr>lnext = a, lprev = a\<rparr>"
        "a = NULL \<or> a = gp_elist p \<or> (\<exists>ge gev. gevents s ge = Some gev \<and> ge_gpoller gev = p \<and> a = ge_list ge)"
        by (auto simp: poller_inv_def poller_links_def)
      with ev(1) fr(1) same_p [of p] False p gps show ?thesis
        by (metis fun_upd_other option.distinct(1))
    qed
  qed
  ultimately show ?thesis by (simp add: poller_inv_def)
qed

lemma gevent_create_ok:
  assumes inv: "poller_inv s" and gp: "gpollers s gp \<noteq> None"
  shows "\<exists>r s'. gt_poller_gevent_create efd gp s = Some (r, s') \<and> poller_inv s' \<and>
    gpollers s' = gpollers s \<and> file_at (kern s') = file_at (kern s) \<and>
    k_fault (kern s') = k_fault (kern s) \<and> k_alloc (kern s') = k_alloc (kern s) \<and>
    (if r = NULL then gevents s' = gevents s
     else gevents s r = None \<and> gevents s' = (gevents s)(r \<mapsto> created_event efd gp) \<and>
          is_list (lists s') (gp_elist gp) [ge_list r])"
proof -
  from gevent_create_eval [OF assms] obtain r s' where
    e: "gt_poller_gevent_create efd gp s = Some (r, s')" "gpollers s' = gpollers s"
      "file_at (kern s') = file_at (kern s)" "k_fault (kern s') = k_fault (kern s)"
      "k_alloc (kern s') = k_alloc (kern s)"
    and c: "if r = NULL
     then gevents s' = gevents s \<and> lists s' = lists s \<and> blocks s' = blocks s
     else gevents s r = None \<and> gevents s' = (gevents s)(r \<mapsto> created_event efd gp) \<and>
          lists s (ge_list r) = None \<and>
          blocks s' = (blocks s)(r \<mapsto> sizeof_gt_event) \<and> is_list (lists s') (gp_elist gp) [ge_list r] \<and>
          only_changes {ge_list r, gp_elist gp} (lists s) (lists s')"
    by blast
  have "poller_inv s'"
  proof (cases "r = NULL")
    case True
    with c e(2) show ?thesis by (auto intro: poller_inv_frame [OF inv])
  next
    case False
    with c show ?thesis
      by (auto intro!: created_keeps_inv [OF inv gp False _ _ _ _ _ e(2), where gev = "created_event efd gp"])
  qed
  with e c show ?thesis by auto
qed

subsection \<open>Registration with the kernel\<close>

text \<open>What \<open>epoll_ctl\<close> leaves alone: every file but the epoll instance, and there all but the set.\<close>

definition same_but_interest :: "ofile option \<Rightarrow> ofile option \<Rightarrow> bool" where
  "same_but_interest f g \<longleftrightarrow> (case (f, g) of
       (None, None) \<Rightarrow> True
     | (Some x, Some y) \<Rightarrow> \<exists>m. x = y\<lparr>f_interest := m\<rparr>
     | _ \<Rightarrow> False)"

lemma same_but_interest_refl [simp]: "same_but_interest f f"
proof (cases f)
  case (Some x)
  have "\<exists>m. x = x\<lparr>f_interest := m\<rparr>" by (rule exI [of _ "f_interest x"]) simp
  with Some show ?thesis by (simp add: same_but_interest_def)
qed (simp add: same_but_interest_def)

lemma same_but_interest_upd [simp]:
  "same_but_interest (Some (f\<lparr>f_interest := m\<rparr>)) (Some f)"
  by (auto simp: same_but_interest_def)

lemma same_but_interest_None: "same_but_interest f g \<Longrightarrow> (f = None) = (g = None)"
  by (cases f; cases g) (auto simp: same_but_interest_def)

lemma same_but_interest_Some:
  "same_but_interest f (Some g) \<Longrightarrow> \<exists>m. f = Some (g\<lparr>f_interest := m\<rparr>)"
  by (cases f) (auto simp: same_but_interest_def)

lemma epoll_ctl_frame:
  "a \<noteq> ep \<Longrightarrow> file_at (snd (sys_epoll_ctl ep op fd ev k)) a = file_at k a"
  "same_but_interest (file_at (snd (sys_epoll_ctl ep op fd ev k)) a) (file_at k a)"
  by (auto simp: sys_epoll_ctl_def syscall_def split: option.splits epoll_op.splits)

text \<open>A successful call that is not a removal registers the event.\<close>

lemma epoll_ctl_act_success:
  assumes "fst (sys_epoll_ctl ep op fd ev k) = 0" and "op \<noteq> EPOLL_CTL_DEL"
  obtains f where "file_at k ep = Some f" "f_kind f = FK_epoll" "file_at k fd \<noteq> None" "fd \<noteq> ep"
    "f_interest f fd = None \<longleftrightarrow> op = EPOLL_CTL_ADD"
    "sys_epoll_ctl ep op fd ev k =
       (0, put_file ep (f\<lparr>f_interest := (f_interest f)(fd \<mapsto> ev)\<rparr>) (next_call k))"
proof (cases "fault_now k")
  case (Some e)
  with assms show ?thesis by (simp add: sys_epoll_ctl_def syscall_def)
next
  case None
  show ?thesis
  proof (cases "file_at k ep")
    case (Some f)
    note ep = this
    with None assms show ?thesis
    proof (cases "file_at k fd")
      case (Some g)
      with None ep assms that show ?thesis
        by (cases op; cases "f_interest f fd") (auto simp: sys_epoll_ctl_def syscall_def split: if_splits)
    qed (simp add: sys_epoll_ctl_def syscall_def)
  qed (use None assms in \<open>simp add: sys_epoll_ctl_def syscall_def\<close>)
qed

lemma apartD:
  "poller_inv s \<Longrightarrow> gevents s g = Some v \<Longrightarrow> gpollers s p = Some w \<Longrightarrow> ge_list g \<noteq> gp_elist p"
  by (auto simp: poller_inv_def apart_def)

lemma event_start_eval:
  assumes "gevents s ge = Some gev" "gpollers s (ge_gpoller gev) = Some gp"
    "ev_events (ge_e gev) AND eflag = 0"
    and op: "op = (if ev_events (ge_e gev) \<noteq> 0 then EPOLL_CTL_MOD else EPOLL_CTL_ADD)"
    and ev: "ev = \<lparr>ev_events = ev_events (ge_e gev) OR eflag, ev_ptr = ge\<rparr>"
    and k: "sys_epoll_ctl (gp_epfd gp) op (ge_efd gev) ev (kern s) = (ret, k)"
    and s': "s' = (put_event ge (gev\<lparr>ge_e := ev\<rparr>) s)\<lparr>kern := k\<rparr>"
  shows "gt_poller_event_start eflag ge s =
    Some (if ret \<noteq> GT_OK
          then (ret, GT_ERROR_LOG GT_MOD_CORE ''Failed to epoll_ctl to epfd[%d]! errno:%d, %s''
                      [AInt (gp_epfd gp), AInt (k_errno k), AErrstr (k_errno k)] s')
          else (GT_OK, s'))"
  using assms by (simp add: gt_poller_event_start_def put_event_def lift_k_def Let_def gt_errno_def)

lemma event_stop_eval:
  assumes "gevents s ge = Some gev" "gpollers s (ge_gpoller gev) = Some gp"
    "ev_events (ge_e gev) AND eflag \<noteq> 0"
    and ev: "ev = (ge_e gev)\<lparr>ev_events := ev_events (ge_e gev) AND NOT eflag\<rparr>"
    and k: "sys_epoll_ctl (gp_epfd gp) EPOLL_CTL_MOD (ge_efd gev) ev (kern s) = (ret, k)"
    and s': "s' = (put_event ge (gev\<lparr>ge_e := ev\<rparr>) s)\<lparr>kern := k\<rparr>"
  shows "gt_poller_event_stop eflag ge s =
    Some (if ret \<noteq> GT_OK
          then (ret, GT_ERROR_LOG GT_MOD_CORE ''Failed to epoll_ctl to epfd[%d]! errno:%d, %s''
                      [AInt (gp_epfd gp), AInt (k_errno k), AErrstr (k_errno k)] s')
          else (GT_OK, s'))"
proof -
  from assms(3) have "ev_events (ge_e gev) \<noteq> 0" by auto
  with assms show ?thesis
    by (simp add: gt_poller_event_stop_def put_event_def lift_k_def Let_def gt_errno_def)
qed

text \<open>What a registration call keeps, whatever its result.\<close>

lemma registered_keeps:
  assumes inv: "poller_inv s" and ge: "gevents s ge = Some gev"
    and k: "sys_epoll_ctl ep op fd ev' (kern s) = (ret, k)"
    and s': "s' = (put_event ge (gev\<lparr>ge_e := ev\<rparr>) s)\<lparr>kern := k\<rparr>"
  shows "poller_inv s'" "k_fault (kern s') = k_fault (kern s)" "k_alloc (kern s') = k_alloc (kern s)"
    "same_but_interest (file_at (kern s') a) (file_at (kern s) a)"
    "gevents s' = (gevents s)(ge \<mapsto> gev\<lparr>ge_e := ev\<rparr>)" "gpollers s' = gpollers s"
    "lists s' = lists s" "blocks s' = blocks s"
proof -
  from k have k': "k = snd (sys_epoll_ctl ep op fd ev' (kern s))" by simp
  show "poller_inv s'" using poller_inv_put_event [OF inv ge] s' by simp
  show "k_fault (kern s') = k_fault (kern s)" "k_alloc (kern s') = k_alloc (kern s)"
    "same_but_interest (file_at (kern s') a) (file_at (kern s) a)"
    by (simp_all add: s' k' frame_simps epoll_ctl_frame)
qed (simp_all add: s' put_event_def)

lemma event_start_ok:
  assumes inv: "poller_inv s" and ge: "gevents s ge = Some gev"
  shows "\<exists>r ev s'. gt_poller_event_start eflag ge s = Some (r, s') \<and> poller_inv s' \<and>
    gevents s' = (gevents s)(ge \<mapsto> gev\<lparr>ge_e := ev\<rparr>) \<and> gpollers s' = gpollers s \<and> lists s' = lists s \<and>
    blocks s' = blocks s \<and> k_fault (kern s') = k_fault (kern s) \<and> k_alloc (kern s') = k_alloc (kern s) \<and>
    (\<forall>a. same_but_interest (file_at (kern s') a) (file_at (kern s) a))"
proof -
  from inv ge obtain gp where gp: "gpollers s (ge_gpoller gev) = Some gp"
    by (auto simp: poller_inv_def event_links_def)
  show ?thesis
  proof (cases "ev_events (ge_e gev) AND eflag = 0")
    case True
    let ?ev = "\<lparr>ev_events = ev_events (ge_e gev) OR eflag, ev_ptr = ge\<rparr>"
    obtain ret k where
      k: "sys_epoll_ctl (gp_epfd gp) (if ev_events (ge_e gev) \<noteq> 0 then EPOLL_CTL_MOD else EPOLL_CTL_ADD) (ge_efd gev) ?ev (kern s) = (ret, k)" by fastforce
    from event_start_eval [OF ge gp True refl refl k refl] registered_keeps [OF inv ge k refl]
    show ?thesis by (cases "ret = GT_OK") auto
  next
    case False
    with inv ge show ?thesis
      by (intro exI [of _ GT_OK] exI [of _ "ge_e gev"] exI [of _ s])
        (auto simp: gt_poller_event_start_def fun_upd_idem)
  qed
qed

lemma event_stop_ok:
  assumes inv: "poller_inv s" and ge: "gevents s ge = Some gev"
  shows "\<exists>r ev s'. gt_poller_event_stop eflag ge s = Some (r, s') \<and> poller_inv s' \<and>
    gevents s' = (gevents s)(ge \<mapsto> gev\<lparr>ge_e := ev\<rparr>) \<and> gpollers s' = gpollers s \<and> lists s' = lists s \<and>
    blocks s' = blocks s \<and> k_fault (kern s') = k_fault (kern s) \<and> k_alloc (kern s') = k_alloc (kern s) \<and>
    (\<forall>a. same_but_interest (file_at (kern s') a) (file_at (kern s) a))"
proof -
  from inv ge obtain gp where gp: "gpollers s (ge_gpoller gev) = Some gp"
    by (auto simp: poller_inv_def event_links_def)
  show ?thesis
  proof (cases "ev_events (ge_e gev) AND eflag = 0")
    case False
    let ?ev = "(ge_e gev)\<lparr>ev_events := ev_events (ge_e gev) AND NOT eflag\<rparr>"
    obtain ret k where
      k: "sys_epoll_ctl (gp_epfd gp) EPOLL_CTL_MOD (ge_efd gev) ?ev (kern s) = (ret, k)" by fastforce
    from event_stop_eval [OF ge gp False refl k refl] registered_keeps [OF inv ge k refl]
    show ?thesis by (cases "ret = GT_OK") auto
  next
    case True
    with inv ge show ?thesis
      by (intro exI [of _ GT_OK] exI [of _ "ge_e gev"] exI [of _ s])
        (auto simp: gt_poller_event_stop_def fun_upd_idem)
  qed
qed

subsection \<open>Destruction\<close>

text \<open>
  Unlinking an entry whose two links point at the same cell resets that cell to the empty ring,
  whatever the cell pointed at before.
\<close>

lemma list_del_two_cell:
  assumes "h x = Some \<lparr>lnext = q, lprev = q\<rparr>" "mapped h q" "q \<noteq> x"
  shows "\<exists>h'. list_del x h = Some h' \<and> h' q = Some \<lparr>lnext = q, lprev = q\<rparr> \<and> only_changes {x, q} h h'"
proof -
  have x: "mapped h x" "nexts h x = Some q" "prevs h x = Some q"
    using assms(1) by (simp_all add: mapped_def nexts_def prevs_def)
  from i_list_del_eval [OF assms(2,2)] obtain h1 where
    h1: "i_list_del q q h = Some h1" "nexts h1 = (nexts h)(q \<mapsto> q)" "prevs h1 = (prevs h)(q \<mapsto> q)"
      "mapped h1 = mapped h" "only_changes {q, q} h h1" by blast
  let ?h = "cell_prev x LIST_POISON2 (cell_next x LIST_POISON1 h1)"
  have "list_del x h = Some ?h" using x h1(1,4) by (simp add: list_del_def heap_eval)
  moreover from h1 assms(2,3) have "?h q = Some \<lparr>lnext = q, lprev = q\<rparr>"
    by (auto simp: heap_eval nexts_def prevs_def mapped_def fun_eq_iff intro!: list_head.equality
        dest!: spec [of _ q])
  moreover have "only_changes {x, q} h ?h"
    using h1(5) by (auto simp: only_changes_def heap_eval)
  ultimately show ?thesis by blast
qed

lemma destroyed_keeps_inv:
  assumes inv: "poller_inv s" and ge: "gevents s ge = Some gev"
    and ev: "gevents s' = (gevents s)(ge := None)" and bl: "blocks s' = (blocks s)(ge := None)"
    and gps: "gpollers s' = gpollers s"
    and q: "lists s' (gp_elist (ge_gpoller gev)) =
            Some \<lparr>lnext = gp_elist (ge_gpoller gev), lprev = gp_elist (ge_gpoller gev)\<rparr>"
    and oc: "only_changes {ge_list ge, gp_elist (ge_gpoller gev)} (lists s) (lists s')"
  shows "poller_inv s'"
proof -
  let ?gp = "ge_gpoller gev"
  from inv ge have gp: "gpollers s ?gp \<noteq> None" by (auto simp: poller_inv_def event_links_def)
  have same: "lists s' (ge_list g) = lists s (ge_list g)" if "gevents s g \<noteq> None" "g \<noteq> ge" for g
    using inv gp oc that by (auto simp: poller_inv_def apart_def only_changes_def)
  have same_p: "lists s' (gp_elist p) = lists s (gp_elist p)" if "gpollers s p \<noteq> None" "p \<noteq> ?gp" for p
  proof -
    from that obtain w where "gpollers s p = Some w" by auto
    from apartD [OF inv ge this] that(2) oc show ?thesis by (auto simp: only_changes_def)
  qed
  have "event_links s'" using inv ev bl gps same by (auto simp: poller_inv_def event_links_def)
  moreover have "apart s'" using inv ev gps by (auto simp: poller_inv_def apart_def)
  moreover have "poller_links s'"
    unfolding poller_links_def
  proof (intro allI impI)
    fix p
    assume p: "gpollers s' p \<noteq> None"
    show "\<exists>a. lists s' (gp_elist p) = Some \<lparr>lnext = a, lprev = a\<rparr> \<and>
        (a = NULL \<or> a = gp_elist p \<or> (\<exists>ge gev. gevents s' ge = Some gev \<and> ge_gpoller gev = p \<and> a = ge_list ge))"
    proof (cases "p = ?gp")
      case True
      with q show ?thesis by auto
    next
      case False
      with p gps inv obtain a where a: "lists s (gp_elist p) = Some \<lparr>lnext = a, lprev = a\<rparr>"
        "a = NULL \<or> a = gp_elist p \<or> (\<exists>ge gev. gevents s ge = Some gev \<and> ge_gpoller gev = p \<and> a = ge_list ge)"
        by (auto simp: poller_inv_def poller_links_def)
      with ev ge same_p [of p] False p gps show ?thesis
        by (metis fun_upd_other option.inject)
    qed
  qed
  ultimately show ?thesis by (simp add: poller_inv_def)
qed

lemma gevent_destroy_ok:
  assumes inv: "poller_inv s" and ge: "gevents s ge = Some gev"
  shows "\<exists>s'. gt_poller_gevent_destroy ge s = Some s' \<and> poller_inv s' \<and>
    gevents s' = (gevents s)(ge := None) \<and> gpollers s' = gpollers s \<and>
    is_list (lists s') (gp_elist (ge_gpoller gev)) [] \<and> file_at (kern s') (ge_efd gev) = None \<and>
    k_fault (kern s') = k_fault (kern s) \<and> k_alloc (kern s') = k_alloc (kern s)"
proof -
  let ?gp = "ge_gpoller gev"
  from event_stop_ok [OF inv ge, of "ev_events (ge_e gev)"] obtain r ev s1 where
    s1: "gt_poller_event_stop (ev_events (ge_e gev)) ge s = Some (r, s1)" "poller_inv s1"
      "gevents s1 = (gevents s)(ge \<mapsto> gev\<lparr>ge_e := ev\<rparr>)" "gpollers s1 = gpollers s"
      "lists s1 = lists s" "blocks s1 = blocks s" "k_fault (kern s1) = k_fault (kern s)"
      "k_alloc (kern s1) = k_alloc (kern s)" by blast
  from inv ge have ln: "lists s (ge_list ge) = Some \<lparr>lnext = gp_elist ?gp, lprev = gp_elist ?gp\<rparr>"
    and gp: "gpollers s ?gp \<noteq> None" and bl: "blocks s ge \<noteq> None" "ge \<noteq> NULL"
    by (auto simp: poller_inv_def event_links_def)
  from inv gp ge have q: "mapped (lists s) (gp_elist ?gp)" "gp_elist ?gp \<noteq> ge_list ge"
    by (auto simp: poller_inv_def poller_links_def apart_def mapped_def) metis
  from list_del_two_cell [OF ln q] obtain h where
    h: "list_del (ge_list ge) (lists s) = Some h"
      "h (gp_elist ?gp) = Some \<lparr>lnext = gp_elist ?gp, lprev = gp_elist ?gp\<rparr>"
      "only_changes {ge_list ge, gp_elist ?gp} (lists s) h" by blast
  let ?k = "snd (sys_close (ge_efd gev) (kern s1))"
  let ?s = "s1\<lparr>lists := h(ge_list ge := None), kern := ?k, blocks := (blocks s)(ge := None),
               gevents := (gevents s)(ge := None)\<rparr>"
  from s1 h(1) bl have "gt_poller_gevent_destroy ge s = Some ?s"
    by (auto simp: gt_poller_gevent_destroy_def ge lift_k_eq gt_free_mem_def)
  moreover have "poller_inv ?s"
    using h(2,3) q(2) s1(4)
    by (intro destroyed_keeps_inv [OF inv ge]) (auto simp: only_changes_def)
  moreover have "is_list (lists ?s) (gp_elist ?gp) []"
    using h(2) q(2) by (simp add: is_list_Nil nexts_def prevs_def)
  moreover have "file_at ?k (ge_efd gev) = None"
    by (cases "file_at (kern s1) (ge_efd gev)") (simp_all add: file_at_sys_close)
  ultimately show ?thesis using s1 by (auto simp: frame_simps)
qed

subsection \<open>Initialising a poller\<close>

lemma elist_mapped: "poller_inv s \<Longrightarrow> gpollers s gp = Some p \<Longrightarrow> mapped (lists s) (gp_elist gp)"
  unfolding poller_inv_def poller_links_def mapped_def by (metis option.distinct(1))

lemma poller_inv_poller_fields:
  assumes "poller_inv s" "gpollers s gp = Some p"
  shows "poller_inv (s\<lparr>gpollers := (gpollers s)(gp \<mapsto> p')\<rparr>)"
  using assms by (auto simp: poller_inv_defs)

lemma poller_inv_blocks:
  "poller_inv s \<Longrightarrow> blocks s a = None \<Longrightarrow> poller_inv (s\<lparr>blocks := (blocks s)(a \<mapsto> n)\<rparr>)"
  by (auto simp: poller_inv_defs)

lemma poller_inv_reset_head:
  assumes inv: "poller_inv s" and gp: "gpollers s gp = Some p"
    and h: "is_list h (gp_elist gp) []" "only_changes {gp_elist gp} (lists s) h"
  shows "poller_inv (s\<lparr>lists := h\<rparr>)"
proof -
  have q: "h (gp_elist gp) = Some \<lparr>lnext = gp_elist gp, lprev = gp_elist gp\<rparr>"
    using h(1) by (auto simp: is_list_Nil nexts_def prevs_def intro!: list_head.equality)
  have "lists s (ge_list g) = h (ge_list g)" if "gevents s g = Some v" for g v
    using h(2) apartD [OF inv that gp] by (simp add: only_changes_def)
  then have "event_links (s\<lparr>lists := h\<rparr>)" using inv by (auto simp: poller_inv_def event_links_def)
  moreover have "poller_links (s\<lparr>lists := h\<rparr>)"
    unfolding poller_links_def
  proof (intro allI impI)
    fix p
    assume p: "gpollers (s\<lparr>lists := h\<rparr>) p \<noteq> None"
    show "\<exists>a. lists (s\<lparr>lists := h\<rparr>) (gp_elist p) = Some \<lparr>lnext = a, lprev = a\<rparr> \<and>
       (a = NULL \<or> a = gp_elist p \<or>
        (\<exists>ge gev. gevents (s\<lparr>lists := h\<rparr>) ge = Some gev \<and> ge_gpoller gev = p \<and> a = ge_list ge))"
      using inv p q h(2) by (cases "p = gp") (auto simp: poller_inv_def poller_links_def only_changes_def)
  qed
  moreover have "apart (s\<lparr>lists := h\<rparr>)" using inv by (simp add: poller_inv_def apart_def)
  ultimately show ?thesis by (simp add: poller_inv_def)
qed

lemma malloc_cases:
  assumes "gt_malloc_mem md mt sz s = (a, s')"
  obtains (null) "a = NULL" "s' = s\<lparr>kern := (next_call (kern s))\<lparr>k_errno := ENOMEM\<rparr>\<rparr>"
  | (fresh) "fault_now (kern s) = None" "fresh_block a s"
      "s' = s\<lparr>kern := next_call (kern s), blocks := (blocks s)(a \<mapsto> sz)\<rparr>"
  using assms by (auto simp: gt_malloc_mem_def Let_def split: if_splits)

definition poller_ready :: "gt_state \<Rightarrow> addr \<Rightarrow> bool" where
  "poller_ready s gp \<longleftrightarrow> (\<exists>p f. gpollers s gp = Some p \<and> file_at (kern s) (gp_epfd p) = Some f \<and>
                               f_kind f = FK_epoll)"

lemma poller_init_ok:
  assumes inv: "poller_inv s" and gp: "gpollers s gp = Some p" and maxe: "0 \<le> maxe"
  shows "\<exists>r s'. gt_poller_init maxe tmo gp s = Some (r, s') \<and> poller_inv s' \<and> gevents s' = gevents s \<and>
    (r = GT_OK \<or> r = GT_ERROR) \<and>
    (r = GT_OK \<longrightarrow> (\<exists>p'. gpollers s' = (gpollers s)(gp \<mapsto> p') \<and> gp_maxe p' = maxe \<and>
        gp_timeout p' = tmo \<and> gp_ee p' \<noteq> NULL \<and>
        blocks s' (gp_ee p') = Some (maxe * sizeof_epoll_event) \<and>
        file_at (kern s) (gp_epfd p') = None \<and>
        file_at (kern s') = (file_at (kern s))(gp_epfd p' \<mapsto> new_file FK_epoll)) \<and>
        is_list (lists s') (gp_elist gp) [])"
proof -
  obtain epfd k1 where k1: "sys_epoll_create (maxe + 1) (kern s) = (epfd, k1)" by fastforce
  let ?p1 = "p\<lparr>gp_maxe := maxe, gp_timeout := tmo, gp_epfd := epfd\<rparr>"
  let ?s1 = "s\<lparr>kern := k1, gpollers := (gpollers s)(gp \<mapsto> ?p1)\<rparr>"
  have inv1: "poller_inv ?s1"
    using poller_inv_poller_fields [of "s\<lparr>kern := k1\<rparr>" gp p] inv gp by simp
  show ?thesis
  proof (cases "epfd < 0")
    case True
    with k1 gp inv1 show ?thesis by (simp add: gt_poller_init_def lift_k_def Let_def)
  next
    case False
    from k1 False maxe have al: "alloc_fd (new_file FK_epoll) (next_call (kern s)) = (epfd, k1)"
      by (auto simp: sys_epoll_create_def syscall_def sys_fail_def split: option.splits if_splits)
    note fd = alloc_fd_spec [OF al]
    obtain ee s2 where m: "gt_malloc_mem GT_MOD_CORE GT_MEM_TYPE_HEAP (maxe * sizeof_epoll_event) ?s1 = (ee, s2)"
      by fastforce
    let ?p2 = "?p1\<lparr>gp_ee := ee\<rparr>"
    let ?s3 = "s2\<lparr>gpollers := (gpollers s2)(gp \<mapsto> ?p2)\<rparr>"
    from m show ?thesis
    proof (cases rule: malloc_cases)
      case null
      have "poller_inv s2" by (rule poller_inv_frame [OF inv1]) (simp_all add: null(2))
      then have "poller_inv ?s3" by (rule poller_inv_poller_fields) (simp add: null(2))
      with k1 False gp m null show ?thesis by (simp add: gt_poller_init_def lift_k_def Let_def)
    next
      case fresh
      have "poller_inv (?s1\<lparr>blocks := (blocks ?s1)(ee \<mapsto> maxe * sizeof_epoll_event)\<rparr>)"
        using fresh(2) by (intro poller_inv_blocks [OF inv1]) (simp add: fresh_block_def)
      then have i2: "poller_inv s2" by (rule poller_inv_frame) (simp_all add: fresh(3))
      then have i3: "poller_inv ?s3" by (rule poller_inv_poller_fields) (simp add: fresh(3))
      then have "mapped (lists ?s3) (gp_elist gp)" by (rule elist_mapped) simp
      from INIT_LIST_HEAD_ok [OF this] obtain h where
        h: "INIT_LIST_HEAD (gp_elist gp) (lists ?s3) = Some h" "is_list h (gp_elist gp) []"
          "only_changes {gp_elist gp} (lists ?s3) h" by blast
      have "poller_inv (?s3\<lparr>lists := h\<rparr>)" by (rule poller_inv_reset_head [OF i3 _ h(2,3)]) simp
      moreover have "gt_poller_init maxe tmo gp s = Some (GT_OK, ?s3\<lparr>lists := h\<rparr>)"
        using k1 False gp m fresh(2) h(1)
        by (simp add: gt_poller_init_def lift_k_def Let_def fresh_block_def)
      ultimately show ?thesis using fresh fd(2,3) h(2)
        by (auto simp: fresh_block_def intro!: exI [of _ ?p2])
    qed
  qed
qed

subsection \<open>Reachable states\<close>

text \<open>
  The steps any thread of the program can take on pollers and events, with the kernel changing at
  will in between, from the zero-initialised statics.
\<close>

inductive poller_step :: "gt_state \<Rightarrow> gt_state \<Rightarrow> bool" where
  create: "gpollers s gp \<noteq> None \<Longrightarrow> gt_poller_gevent_create efd gp s = Some (r, s') \<Longrightarrow> poller_step s s'"
| set_ops: "gevents s ge = Some gev \<Longrightarrow> poller_step s (put_event ge (gev\<lparr>ge_ops := ops\<rparr>) s)"
| start: "gevents s ge \<noteq> None \<Longrightarrow> gt_poller_event_start eflag ge s = Some (r, s') \<Longrightarrow> poller_step s s'"
| stop: "gevents s ge \<noteq> None \<Longrightarrow> gt_poller_event_stop eflag ge s = Some (r, s') \<Longrightarrow> poller_step s s'"
| destroy: "gevents s ge \<noteq> None \<Longrightarrow> gt_poller_gevent_destroy ge s = Some s' \<Longrightarrow> poller_step s s'"
| init: "gpollers s gp \<noteq> None \<Longrightarrow> 0 \<le> maxe \<Longrightarrow> gt_poller_init maxe tmo gp s = Some (r, s') \<Longrightarrow>
    poller_step s s'"
| kernel: "poller_step s (s\<lparr>kern := k\<rparr>)"

inductive poller_reachable :: "gt_state \<Rightarrow> bool" where
  boot: "poller_reachable (boot_state k)"
| step: "poller_reachable s \<Longrightarrow> poller_step s s' \<Longrightarrow> poller_reachable s'"

lemma poller_inv_boot: "poller_inv (boot_state k)"
  by (auto simp: poller_inv_defs boot_state_def)

lemma poller_step_inv: "poller_step s s' \<Longrightarrow> poller_inv s \<Longrightarrow> poller_inv s'"
proof (induction rule: poller_step.induct)
  case (create s gp efd r s')
  with gevent_create_ok [OF create.prems create.hyps(1), of efd] show ?case by auto
next
  case (set_ops s ge gev ops)
  then show ?case by (auto intro: poller_inv_put_event)
next
  case (start s ge eflag r s')
  then show ?case by (auto dest: event_start_ok [of s ge _ eflag])
next
  case (stop s ge eflag r s')
  then show ?case by (auto dest: event_stop_ok [of s ge _ eflag])
next
  case (destroy s ge s')
  then show ?case by (auto dest: gevent_destroy_ok)
next
  case (init s gp maxe tmo r s')
  then obtain p where "gpollers s gp = Some p" by auto
  from poller_init_ok [OF init.prems this init.hyps(2), of tmo] init.hyps(3) show ?case by auto
next
  case (kernel s k)
  then show ?case by simp
qed

lemma poller_reachable_inv: "poller_reachable s \<Longrightarrow> poller_inv s"
  by (induction rule: poller_reachable.induct) (auto intro: poller_inv_boot poller_step_inv)

subsection \<open>Properties\<close>

text \<open>
  C19: in every reachable state the link fields of all live events and pollers point at live list
  heads only, so creating, starting, stopping and destroying events never follows a dangling or
  null link, in any order and with any failures of the system calls, although the arguments of
  \<open>list_add\<close> are exchanged in \<open>gt_poller_gevent_create\<close>.
\<close>

theorem poller_reachable_safe:
  assumes "poller_reachable s"
  shows "poller_inv s \<and>
    (\<forall>gp efd. gpollers s gp \<noteq> None \<longrightarrow> gt_poller_gevent_create efd gp s \<noteq> None) \<and>
    (\<forall>ge. gevents s ge \<noteq> None \<longrightarrow>
       (\<forall>eflag. gt_poller_event_start eflag ge s \<noteq> None \<and> gt_poller_event_stop eflag ge s \<noteq> None) \<and>
       gt_poller_gevent_destroy ge s \<noteq> None)"
proof -
  from assms have inv: "poller_inv s" by (rule poller_reachable_inv)
  show ?thesis
    using inv gevent_create_ok [OF inv] event_start_ok [OF inv] event_stop_ok [OF inv]
      gevent_destroy_ok [OF inv]
    by (fastforce simp del: split_paired_Ex)
qed

text \<open>A concrete allocation plan for the witnesses.\<close>

definition demo_kernel :: kernel where
  "demo_kernel = boot_kernel (\<lambda>_. None) (\<lambda>n. 0x800000 + of_nat (256 * n))"

lemma core_poller_boot: "gpollers (boot_state k) g_gt_core_poller \<noteq> None"
  by (simp add: boot_state_def static_pollers_def)

theorem poller_reachable_safe_witness:
  "gt_poller_gevent_create 7 g_gt_core_poller (boot_state demo_kernel) \<noteq> None"
  using poller_reachable_safe [OF poller_reachable.boot [of demo_kernel]] core_poller_boot by blast

lemma gevent_create_addr:
  assumes "gt_poller_gevent_create efd gp s = Some (r, s')"
  shows "r = fst (gt_malloc_mem GT_MOD_CORE GT_MEM_TYPE_FML sizeof_gt_event s)"
  using assms
  by (auto simp: gt_poller_gevent_create_def bind_eq_Some_conv Let_def split: prod.splits if_splits)

text \<open>
  C20: because of the exchanged arguments a poller's list holds only the event created last: after
  two creations the first event is live but not on the list, and destroying the second one leaves
  a list that is reported empty while the first event is still live.
\<close>

theorem gevent_create_forgets:
  assumes inv: "poller_inv s" and gp: "gpollers s gp \<noteq> None"
    and c1: "gt_poller_gevent_create f1 gp s = Some (r1, s1)" "r1 \<noteq> NULL"
    and c2: "gt_poller_gevent_create f2 gp s1 = Some (r2, s2)" "r2 \<noteq> NULL"
  shows "gevents s2 r1 \<noteq> None \<and> gevents s2 r2 \<noteq> None \<and> r1 \<noteq> r2 \<and>
         is_list (lists s2) (gp_elist gp) [ge_list r2] \<and>
         (\<exists>s3. gt_poller_gevent_destroy r2 s2 = Some s3 \<and> gevents s3 r1 \<noteq> None \<and>
               list_empty (gp_elist gp) (lists s3) = Some True)"
proof -
  from gevent_create_ok [OF inv gp, of f1] c1 have
    s1: "poller_inv s1" "gpollers s1 = gpollers s" "gevents s1 r1 \<noteq> None" by auto
  from gevent_create_ok [OF s1(1), of gp f2] c2 s1(2) gp have
    s2: "poller_inv s2" "gevents s1 r2 = None" "gevents s2 = (gevents s1)(r2 \<mapsto> created_event f2 gp)"
      "is_list (lists s2) (gp_elist gp) [ge_list r2]" by auto
  from s2(2) s1(3) have d: "r1 \<noteq> r2" by auto
  from gevent_destroy_ok [OF s2(1), of r2 "created_event f2 gp"] s2(3) obtain s3 where
    "gt_poller_gevent_destroy r2 s2 = Some s3" "gevents s3 = (gevents s2)(r2 := None)"
    "is_list (lists s3) (gp_elist gp) []" by auto
  with d s1(3) s2(3,4) show ?thesis by (auto simp: list_empty_ok)
qed

lemma gevent_create_kern:
  assumes "gt_poller_gevent_create efd gp s = Some (r, s')" "r \<noteq> NULL"
  shows "kern s' = next_call (kern s)"
  using assms
  by (auto simp: gt_poller_gevent_create_def gt_malloc_mem_def bind_eq_Some_conv Let_def put_event_def
      memset_event_def split: if_splits)

lemma demo_create:
  assumes "poller_inv s" "gpollers s gp \<noteq> None" "fault_now (kern s) = None"
    "fresh_block (k_alloc (kern s) (k_calls (kern s))) s"
  shows "\<exists>s'. gt_poller_gevent_create efd gp s = Some (k_alloc (kern s) (k_calls (kern s)), s')"
proof -
  from gevent_create_ok [OF assms(1,2), of efd] obtain r s' where
    r: "gt_poller_gevent_create efd gp s = Some (r, s')" by blast
  from gevent_create_addr [OF r] assms(3,4) have "r = k_alloc (kern s) (k_calls (kern s))"
    by (simp add: gt_malloc_mem_def Let_def sizeof_gt_event_def)
  with r show ?thesis by blast
qed

theorem gevent_create_forgets_witness:
  "\<exists>s1 s2. gt_poller_gevent_create 7 g_gt_core_poller (boot_state demo_kernel) = Some (0x800000, s1) \<and>
     gt_poller_gevent_create 8 g_gt_core_poller s1 = Some (0x800100, s2) \<and>
     gevents s2 0x800000 \<noteq> None \<and> is_list (lists s2) (gp_elist g_gt_core_poller) [ge_list 0x800100]"
proof -
  let ?s = "boot_state demo_kernel" and ?gp = g_gt_core_poller
  note inv = poller_inv_boot [of demo_kernel] and gp = core_poller_boot [of demo_kernel]
  note sp = static_pollers_def g_gt_core_poller_def g_gt_network_poller_def g_gt_datanet_poller_def
    GT_DATANET_PTHREAD_NUM_def gp_elist_def ge_list_def ge_list_off_def gp_elist_off_def
  have fr: "fresh_block 0x800000 ?s" "blocks ?s 0x800100 = None" "lists ?s (ge_list 0x800100) = None"
    "gpollers ?s 0x800100 = None"
    by (auto simp: fresh_block_def boot_state_def sp upt_rec)
  have al: "k_alloc demo_kernel n = 0x800000 + of_nat (256 * n)" "fault_now demo_kernel = None"
    "k_calls demo_kernel = 0" for n
    by (simp_all add: demo_kernel_def boot_kernel_def fault_now_def)
  have kb: "kern ?s = demo_kernel" by (simp add: boot_state_def)
  from demo_create [OF inv gp, of 7] fr al kb obtain s1 where
    s1: "gt_poller_gevent_create 7 ?gp ?s = Some (0x800000, s1)" by auto
  from gevent_create_eval [OF inv gp, of 7] s1 have
    i1: "poller_inv s1" "gpollers s1 = gpollers ?s" "gevents s1 = (gevents ?s)(0x800000 \<mapsto> created_event 7 ?gp)"
      "blocks s1 = (blocks ?s)(0x800000 \<mapsto> sizeof_gt_event)"
      "only_changes {ge_list 0x800000, gp_elist ?gp} (lists ?s) (lists s1)"
    using gevent_create_ok [OF inv gp, of 7] by auto
  have "lists s1 (ge_list 0x800100) = None"
    using i1(5) fr(3) by (auto simp: only_changes_def sp)
  then have f2: "fresh_block 0x800100 s1"
    using i1 fr by (simp add: fresh_block_def boot_state_def)
  have k1: "kern s1 = next_call demo_kernel" using gevent_create_kern [OF s1] kb by simp
  with demo_create [OF i1(1), of ?gp 8] i1(2) gp f2 al obtain s2 where
    s2: "gt_poller_gevent_create 8 ?gp s1 = Some (0x800100, s2)"
    by (auto simp: fault_now_def demo_kernel_def boot_kernel_def)
  from gevent_create_forgets [OF inv gp s1 _ s2] s1 s2 show ?thesis by auto
qed

text \<open>
  C9: starting an event registers it: when the poller is initialised, the descriptor is open and
  the kernel's set agrees with the event, \<open>gt_poller_event_start\<close> succeeds, and afterwards the
  kernel holds exactly the event's mask and its address; a flag that is already set is left as is.
\<close>

definition kernel_entry :: "gt_state \<Rightarrow> gt_event \<Rightarrow> epoll_event option" where
  "kernel_entry s gev = do {
     p \<leftarrow> gpollers s (ge_gpoller gev);
     f \<leftarrow> file_at (kern s) (gp_epfd p);
     f_interest f (ge_efd gev) }"

definition registrable :: "gt_state \<Rightarrow> gt_event \<Rightarrow> bool" where
  "registrable s gev \<longleftrightarrow> (case gpollers s (ge_gpoller gev) of None \<Rightarrow> False | Some p \<Rightarrow>
     (case (file_at (kern s) (gp_epfd p), file_at (kern s) (ge_efd gev)) of
        (Some f, Some g) \<Rightarrow> f_kind f = FK_epoll \<and> f_kind g \<noteq> FK_file \<and> ge_efd gev \<noteq> gp_epfd p \<and>
                           (f_interest f (ge_efd gev) = None \<longleftrightarrow> ev_events (ge_e gev) = 0)
      | _ \<Rightarrow> False))"

lemma registrableE:
  assumes "registrable s gev"
  obtains p f g where "gpollers s (ge_gpoller gev) = Some p" "file_at (kern s) (gp_epfd p) = Some f"
    "f_kind f = FK_epoll" "file_at (kern s) (ge_efd gev) = Some g" "f_kind g \<noteq> FK_file"
    "ge_efd gev \<noteq> gp_epfd p" "f_interest f (ge_efd gev) = None \<longleftrightarrow> ev_events (ge_e gev) = 0"
  using assms by (auto simp: registrable_def split: option.splits)

lemma log_errno: "fault_now (kern s) = None \<Longrightarrow> gt_errno (GT_ERROR_LOG md fmt a s) = gt_errno s"
  by (simp add: GT_ERROR_LOG_def gt_errno_def log_call_def Let_def)

lemma epoll_ctl_failed:
  "fst (sys_epoll_ctl ep op fd ev k) \<noteq> 0 \<Longrightarrow> file_at (snd (sys_epoll_ctl ep op fd ev k)) = file_at k"
  by (auto simp: sys_epoll_ctl_def syscall_def split: option.splits epoll_op.splits if_splits)

lemma epoll_ctl_ok:
  assumes "fault_now k = None" "file_at k ep = Some f" "f_kind f = FK_epoll" "file_at k fd = Some g"
    "f_kind g \<noteq> FK_file" "fd \<noteq> ep"
    and "op = EPOLL_CTL_ADD \<and> f_interest f fd = None \<or> op = EPOLL_CTL_MOD \<and> f_interest f fd \<noteq> None"
  shows "sys_epoll_ctl ep op fd ev k =
    (0, put_file ep (f\<lparr>f_interest := (f_interest f)(fd \<mapsto> ev)\<rparr>) (next_call k))"
  using assms by (auto simp: sys_epoll_ctl_def syscall_def)


text \<open>A concrete state with one poller, one open socket and one event on it.\<close>

definition demo_state :: gt_state where
  "demo_state = (boot_state (demo_kernel\<lparr>k_fds := replicate 3 (Some (new_file FK_file)) @
       [Some (new_file FK_epoll), Some (new_file FK_sock)]\<rparr>))\<lparr>
     gpollers := [g_gt_core_poller \<mapsto> \<lparr>gp_epfd = 3, gp_ee = 0x900000, gp_maxe = 32, gp_timeout = 50\<rparr>],
     gevents := [0x800000 \<mapsto> created_event 4 g_gt_core_poller]\<rparr>"

lemma demo_state_facts:
  "gevents demo_state 0x800000 = Some (created_event 4 g_gt_core_poller)"
  "no_faults (kern demo_state)" "fault_now (kern demo_state) = None"
  "registrable demo_state (created_event 4 g_gt_core_poller)"
  by (simp_all add: demo_state_def boot_state_def demo_kernel_def boot_kernel_def no_faults_def
      fault_now_def registrable_def file_at_def new_file_def nth_append)


text \<open>
  C21: stopping never takes the descriptor out of the kernel's set: the mask becomes zero but the
  entry stays, so starting the event again asks for an addition, which fails with \<open>EEXIST\<close>.
\<close>

theorem event_restart_fails:
  assumes ge: "gevents s ge = Some gev" and ok: "no_faults (kern s)" "registrable s gev"
    and fl: "ev_events (ge_e gev) = 0" "eflag \<noteq> 0"
  shows "\<exists>s1 s2 s3. gt_poller_event_start eflag ge s = Some (GT_OK, s1) \<and>
           gt_poller_event_stop eflag ge s1 = Some (GT_OK, s2) \<and>
           kernel_entry s2 gev = Some \<lparr>ev_events = 0, ev_ptr = ge\<rparr> \<and>
           gt_poller_event_start eflag ge s2 = Some (-1, s3) \<and> gt_errno s3 = EEXIST"
proof -
  from ok(2) obtain p f g where p: "gpollers s (ge_gpoller gev) = Some p"
    and f: "file_at (kern s) (gp_epfd p) = Some f" "f_kind f = FK_epoll"
      "file_at (kern s) (ge_efd gev) = Some g" "f_kind g \<noteq> FK_file" "ge_efd gev \<noteq> gp_epfd p"
    and c: "f_interest f (ge_efd gev) = None \<longleftrightarrow> ev_events (ge_e gev) = 0"
    by (rule registrableE)
  let ?ep = "gp_epfd p" and ?fd = "ge_efd gev"
  let ?ev1 = "\<lparr>ev_events = eflag, ev_ptr = ge\<rparr>" and ?ev2 = "\<lparr>ev_events = 0, ev_ptr = ge\<rparr>"
  let ?f1 = "f\<lparr>f_interest := (f_interest f)(?fd \<mapsto> ?ev1)\<rparr>"
  let ?k1 = "put_file ?ep ?f1 (next_call (kern s))"
  let ?k2 = "put_file ?ep (?f1\<lparr>f_interest := (f_interest ?f1)(?fd \<mapsto> ?ev2)\<rparr>) (next_call ?k1)"
  let ?s1 = "(put_event ge (gev\<lparr>ge_e := ?ev1\<rparr>) s)\<lparr>kern := ?k1\<rparr>"
  let ?s2 = "(put_event ge (gev\<lparr>ge_e := ?ev2\<rparr>) ?s1)\<lparr>kern := ?k2\<rparr>"
  from ok(1) have nf: "fault_now (kern s) = None" "fault_now ?k1 = None" "fault_now ?k2 = None"
    by (auto simp: no_faults_def fault_now_def)
  have k1: "sys_epoll_ctl ?ep EPOLL_CTL_ADD ?fd ?ev1 (kern s) = (0, ?k1)"
    using c fl by (intro epoll_ctl_ok [OF nf(1) f]) auto
  have k2: "sys_epoll_ctl ?ep EPOLL_CTL_MOD ?fd ?ev2 ?k1 = (0, ?k2)"
    using f by (intro epoll_ctl_ok [OF nf(2)]) auto
  have k3: "sys_epoll_ctl ?ep EPOLL_CTL_ADD ?fd ?ev1 ?k2 = sys_fail EEXIST (next_call ?k2)"
    using f nf(3) by (simp add: sys_epoll_ctl_def syscall_def)
  have 1: "gt_poller_event_start eflag ge s = Some (GT_OK, ?s1)"
    using event_start_eval [OF ge p _ refl refl _ refl, of eflag 0 ?k1] fl k1 by (simp add: GT_OK_def)
  have 2: "gt_poller_event_stop eflag ge ?s1 = Some (GT_OK, ?s2)"
    using event_stop_eval [of ?s1 ge "gev\<lparr>ge_e := ?ev1\<rparr>" p eflag ?ev2 0 ?k2 ?s2] fl k2 p
    by (simp add: GT_OK_def put_event_def)
  let ?k3 = "(next_call ?k2)\<lparr>k_errno := EEXIST\<rparr>"
  let ?s3 = "(put_event ge (gev\<lparr>ge_e := ?ev1\<rparr>) ?s2)\<lparr>kern := ?k3\<rparr>"
  have "fault_now ?k3 = None" using ok(1) by (simp add: no_faults_def fault_now_def)
  then have e3: "gt_errno (GT_ERROR_LOG md fmt a ?s3) = EEXIST" for md fmt a
    by (subst log_errno) (simp_all add: gt_errno_def)
  have "gevents ?s2 ge = Some (gev\<lparr>ge_e := ?ev2\<rparr>)" "gpollers ?s2 (ge_gpoller (gev\<lparr>ge_e := ?ev2\<rparr>)) = Some p"
    using p by (simp_all add: put_event_def)
  from event_start_eval [OF this, of eflag EPOLL_CTL_ADD ?ev1 "-1" ?k3 ?s3] k3 e3
  have 3: "\<exists>s3. gt_poller_event_start eflag ge ?s2 = Some (-1, s3) \<and> gt_errno s3 = EEXIST"
    by (simp add: GT_OK_def sys_fail_def put_event_def)
  have "kernel_entry ?s2 gev = Some ?ev2" using p f by (simp add: kernel_entry_def put_event_def)
  with 1 2 3 show ?thesis by blast
qed

theorem event_restart_fails_witness:
  "\<exists>s1 s2 s3. gt_poller_event_start EPOLLIN 0x800000 demo_state = Some (GT_OK, s1) \<and>
     gt_poller_event_stop EPOLLIN 0x800000 s1 = Some (GT_OK, s2) \<and>
     gt_poller_event_start EPOLLIN 0x800000 s2 = Some (-1, s3) \<and> gt_errno s3 = EEXIST"
  using event_restart_fails [OF demo_state_facts(1,2,4), of EPOLLIN] by (auto simp: EPOLLIN_def)

text \<open>
  A failed start is remembered as a success: the mask is set before the system call, so after
  a failure the kernel's set is unchanged, and the next start with the same flag reports success
  without asking the kernel.
\<close>

theorem event_start_failure_sticks:
  assumes "gevents s ge = Some gev" and "gt_poller_event_start eflag ge s = Some (r, s1)"
    and "r \<noteq> GT_OK" and "eflag \<noteq> 0"
  shows "kernel_entry s1 gev = kernel_entry s gev \<and> gt_poller_event_start eflag ge s1 = Some (GT_OK, s1)"
proof -
  have new: "ev_events (ge_e gev) AND eflag = 0"
    using assms(1-3) by (auto simp: gt_poller_event_start_def split: if_splits)
  then obtain p where p: "gpollers s (ge_gpoller gev) = Some p"
    using assms(1,2) by (cases "gpollers s (ge_gpoller gev)")
      (auto simp: gt_poller_event_start_def put_event_def Let_def)
  let ?op = "if ev_events (ge_e gev) \<noteq> 0 then EPOLL_CTL_MOD else EPOLL_CTL_ADD"
  let ?ev = "\<lparr>ev_events = ev_events (ge_e gev) OR eflag, ev_ptr = ge\<rparr>"
  obtain ret k where k: "sys_epoll_ctl (gp_epfd p) ?op (ge_efd gev) ?ev (kern s) = (ret, k)" by fastforce
  let ?s = "(put_event ge (gev\<lparr>ge_e := ?ev\<rparr>) s)\<lparr>kern := k\<rparr>"
  from event_start_eval [OF assms(1) p new refl refl k refl] assms(2,3)
  obtain md fmt a where s1: "s1 = GT_ERROR_LOG md fmt a ?s" and ret: "ret \<noteq> 0"
    by (auto simp: GT_OK_def split: if_splits)
  from epoll_ctl_failed [of "gp_epfd p" ?op "ge_efd gev" ?ev "kern s"] k ret
  have "file_at k = file_at (kern s)" by simp
  then have "kernel_entry s1 gev = kernel_entry s gev"
    by (simp add: s1 kernel_entry_def put_event_def)
  moreover have "(ev_events (ge_e gev) OR eflag) AND eflag = eflag" by (auto simp: bit_simps bit_eq_iff)
  then have "gt_poller_event_start eflag ge s1 = Some (GT_OK, s1)"
    using assms(4) by (simp add: s1 gt_poller_event_start_def put_event_def)
  ultimately show ?thesis ..
qed

text \<open>The same state with a plan in which the first system call fails for lack of memory.\<close>

definition demo_fault_state :: gt_state where
  "demo_fault_state = demo_state\<lparr>kern := (kern demo_state)\<lparr>k_fault := [0 \<mapsto> ENOMEM]\<rparr>\<rparr>"

theorem event_start_failure_sticks_witness:
  "\<exists>s1. gt_poller_event_start EPOLLIN 0x800000 demo_fault_state = Some (-1, s1) \<and>
        kernel_entry s1 (created_event 4 g_gt_core_poller) = None \<and>
        gt_poller_event_start EPOLLIN 0x800000 s1 = Some (GT_OK, s1)"
proof -
  let ?gev = "created_event 4 g_gt_core_poller"
  have g: "gevents demo_fault_state 0x800000 = Some ?gev"
    by (simp add: demo_fault_state_def demo_state_facts)
  have p: "gpollers demo_fault_state (ge_gpoller ?gev) =
      Some \<lparr>gp_epfd = 3, gp_ee = 0x900000, gp_maxe = 32, gp_timeout = 50\<rparr>"
    by (simp add: demo_fault_state_def demo_state_def)
  have f: "fault_now (kern demo_fault_state) = Some ENOMEM"
    by (simp add: demo_fault_state_def demo_state_def boot_state_def demo_kernel_def boot_kernel_def fault_now_def)
  have n: "kernel_entry demo_fault_state ?gev = None"
    by (simp add: demo_fault_state_def demo_state_def boot_state_def demo_kernel_def boot_kernel_def
        kernel_entry_def file_at_def new_file_def nth_append)
  obtain s1 where s1: "gt_poller_event_start EPOLLIN 0x800000 demo_fault_state = Some (-1, s1)"
    using g p f
    by (auto simp: gt_poller_event_start_def put_event_def lift_k_eq Let_def sys_epoll_ctl_def syscall_def
        GT_OK_def)
  from event_start_failure_sticks [OF g s1] n s1 show ?thesis by (simp add: GT_OK_def EPOLLIN_def)
qed

end
