(* ===== verification/GT_Core.thy ===== *)
theory GT_Core
  imports GT_Poller "HOL-Library.Product_Lexorder"
begin

text \<open>
  The start-up core (\<open>user/core/gt_core.c\<close>): modules register functions in the table
  \<open>g_gt_phase\<close>, one slot per phase and submodule, and \<open>gt_phase_run\<close> calls them phase by
  phase and, within a phase, in the order of the submodules, stopping at the first failure.
\<close>

subsection \<open>Indices of the enumerations\<close>

fun phase_idx :: "gt_phase \<Rightarrow> nat" where
  "phase_idx GT_PHASE_0 = 0"
| "phase_idx GT_PHASE_1 = 1"
| "phase_idx GT_PHASE_2 = 2"
| "phase_idx GT_PHASE_3 = 3"
| "phase_idx GT_PHASE_MAX = 4"

fun cmod_idx :: "gt_cmod \<Rightarrow> nat" where
  "cmod_idx GT_CMOD_CORE = 0"
| "cmod_idx GT_CMOD_MEM = 1"
| "cmod_idx GT_CMOD_SIGNAL = 2"
| "cmod_idx GT_CMOD_POLLER = 3"
| "cmod_idx GT_CMOD_NETWORK = 4"
| "cmod_idx GT_CMOD_PTHREAD = 5"
| "cmod_idx GT_CMOD_MAX = 6"

lemma phase_idx_inject: "phase_idx a = phase_idx b \<longleftrightarrow> a = b"
  by (cases a; cases b) simp_all

lemma cmod_idx_inject: "cmod_idx a = cmod_idx b \<longleftrightarrow> a = b"
  by (cases a; cases b) simp_all

text \<open>The enumerations are ordered as C orders them, by their values.\<close>

instantiation gt_phase :: linorder
begin

definition less_eq_gt_phase :: "gt_phase \<Rightarrow> gt_phase \<Rightarrow> bool" where
  "less_eq_gt_phase a b \<longleftrightarrow> phase_idx a \<le> phase_idx b"

definition less_gt_phase :: "gt_phase \<Rightarrow> gt_phase \<Rightarrow> bool" where
  "less_gt_phase a b \<longleftrightarrow> phase_idx a < phase_idx b"

instance
  by standard (auto simp: less_eq_gt_phase_def less_gt_phase_def phase_idx_inject)

end

instantiation gt_cmod :: linorder
begin

definition less_eq_gt_cmod :: "gt_cmod \<Rightarrow> gt_cmod \<Rightarrow> bool" where
  "less_eq_gt_cmod a b \<longleftrightarrow> cmod_idx a \<le> cmod_idx b"

definition less_gt_cmod :: "gt_cmod \<Rightarrow> gt_cmod \<Rightarrow> bool" where
  "less_gt_cmod a b \<longleftrightarrow> cmod_idx a < cmod_idx b"

instance
  by standard (auto simp: less_eq_gt_cmod_def less_gt_cmod_def cmod_idx_inject)

end

subsection \<open>Operations\<close>

definition nth_opt :: "'a list \<Rightarrow> nat \<Rightarrow> 'a option" where
  "nth_opt xs i = (if i < length xs then Some (xs ! i) else None)"

definition gt_phase_register :: "gt_cmod \<Rightarrow> gt_phase \<Rightarrow> phase_fn option \<Rightarrow> gt_state \<Rightarrow> (int \<times> gt_state) option" where
  "gt_phase_register cmod gphase fn s = do {
     row \<leftarrow> nth_opt (g_gt_phase s) (phase_idx gphase);
     slot \<leftarrow> nth_opt (pi_fn row) (cmod_idx cmod);
     if slot \<noteq> None then
       Some (GT_ERROR, GT_ERROR_LOG GT_MOD_CORE
               ''Warning: Phase_fn of the cmod[%d] at phase[%d] has been registered!''
               [AInt (int (cmod_idx cmod)), AInt (int (phase_idx gphase))] s)
     else
       Some (GT_OK, s\<lparr>g_gt_phase := (g_gt_phase s)[phase_idx gphase :=
                       row\<lparr>pi_fn := (pi_fn row)[cmod_idx cmod := fn]\<rparr>]\<rparr>) }"

definition GT_CORE_MAXEVENT :: int where "GT_CORE_MAXEVENT = 32"
definition GT_EPOLL_WAIT_TIMEOUT :: int where "GT_EPOLL_WAIT_TIMEOUT = 50"
definition GT_CORE_EPWAIT_TIMEOUT :: int where "GT_CORE_EPWAIT_TIMEOUT = GT_EPOLL_WAIT_TIMEOUT"

definition gt_core_phase0_func :: "gt_state \<Rightarrow> (int \<times> gt_state) option" where
  "gt_core_phase0_func s = do {
     (ret, s) \<leftarrow> gt_poller_init GT_CORE_MAXEVENT GT_CORE_EPWAIT_TIMEOUT g_gt_core_poller s;
     if ret \<noteq> GT_OK then Some (ret, s) else Some (GT_OK, s) }"

definition gt_core_init :: "gt_state \<Rightarrow> (int \<times> gt_state) option" where
  "gt_core_init s = do {
     (ret, s) \<leftarrow> gt_phase_register GT_CMOD_CORE GT_PHASE_0 (Some FN_core_phase0_func) s;
     if ret \<noteq> GT_OK then Some (ret, s) else Some (GT_OK, s) }"

text \<open>
  The two nested loops of \<open>gt_phase_run\<close>; a call through a slot is resolved by \<open>call\<close>. The
  slots are read when the loop reaches them. A function leaves both loops with its result when
  that is not \<open>GT_OK\<close>.
\<close>

fun gt_phase_run_cmods ::
  "(phase_fn \<Rightarrow> gt_state \<Rightarrow> (int \<times> gt_state) option) \<Rightarrow> nat \<Rightarrow> nat list \<Rightarrow> gt_state \<Rightarrow>
   (int \<times> gt_state) option" where
  "gt_phase_run_cmods call phase [] s = Some (GT_OK, s)"
| "gt_phase_run_cmods call phase (cmod # cs) s = do {
     row \<leftarrow> nth_opt (g_gt_phase s) phase;
     slot \<leftarrow> nth_opt (pi_fn row) cmod;
     (case slot of
        None \<Rightarrow> gt_phase_run_cmods call phase cs s
      | Some fn \<Rightarrow> do {
          let s = GT_INFO_LOG GT_MOD_CORE ''Sys-init phase[%d] cmod[%d]'' [AInt (int phase), AInt (int cmod)] s;
          (ret, s) \<leftarrow> call fn s;
          if ret \<noteq> GT_OK then do {
            row \<leftarrow> nth_opt (g_gt_phase s) phase;
            Some (ret, GT_ERROR_LOG GT_MOD_CORE ''Failed to run phase_fn on cmod[%d] at %s.''
                         [AInt (int cmod), AStr (pi_phase row)] s) }
          else gt_phase_run_cmods call phase cs s }) }"

fun gt_phase_run_phases ::
  "(phase_fn \<Rightarrow> gt_state \<Rightarrow> (int \<times> gt_state) option) \<Rightarrow> nat list \<Rightarrow> gt_state \<Rightarrow>
   (int \<times> gt_state) option" where
  "gt_phase_run_phases call [] s = Some (GT_OK, s)"
| "gt_phase_run_phases call (phase # ps) s = do {
     (ret, s) \<leftarrow> gt_phase_run_cmods call phase [0..<cmod_idx GT_CMOD_MAX] s;
     if ret \<noteq> GT_OK then Some (ret, s) else gt_phase_run_phases call ps s }"

definition gt_phase_run ::
  "(phase_fn \<Rightarrow> gt_state \<Rightarrow> (int \<times> gt_state) option) \<Rightarrow> gt_state \<Rightarrow> (int \<times> gt_state) option" where
  "gt_phase_run call s = gt_phase_run_phases call [0..<length (g_gt_phase s)] s"

subsection \<open>The table\<close>

text \<open>Shape of the table: one row per phase, one slot per submodule.\<close>

definition phase_table_ok :: "gt_state \<Rightarrow> bool" where
  "phase_table_ok s \<longleftrightarrow> length (g_gt_phase s) = phase_idx GT_PHASE_MAX \<and>
     (\<forall>row \<in> set (g_gt_phase s). length (pi_fn row) = cmod_idx GT_CMOD_MAX)"

definition registered :: "gt_state \<Rightarrow> gt_phase \<Rightarrow> gt_cmod \<Rightarrow> phase_fn option" where
  "registered s ph cm = pi_fn (g_gt_phase s ! phase_idx ph) ! cmod_idx cm"

lemma phase_table_ok_boot: "phase_table_ok (boot_state k)"
  by (auto simp: phase_table_ok_def boot_state_def phase_row_def eval_nat_numeral)

lemma phase_idx_less: "ph \<noteq> GT_PHASE_MAX \<Longrightarrow> phase_idx ph < phase_idx GT_PHASE_MAX"
  by (cases ph) simp_all

lemma cmod_idx_less: "cm \<noteq> GT_CMOD_MAX \<Longrightarrow> cmod_idx cm < cmod_idx GT_CMOD_MAX"
  by (cases cm) simp_all

lemma table_lookup:
  assumes "phase_table_ok s" "p < phase_idx GT_PHASE_MAX" "c < cmod_idx GT_CMOD_MAX"
  shows "nth_opt (g_gt_phase s) p = Some (g_gt_phase s ! p)"
    and "nth_opt (pi_fn (g_gt_phase s ! p)) c = Some (pi_fn (g_gt_phase s ! p) ! c)"
  using assms by (auto simp: phase_table_ok_def nth_opt_def)

lemma phase_table_frame:
  "g_gt_phase s' = g_gt_phase s \<Longrightarrow> phase_table_ok s' = phase_table_ok s"
  by (simp add: phase_table_ok_def)

lemma registered_frame: "g_gt_phase s' = g_gt_phase s \<Longrightarrow> registered s' = registered s"
  by (simp add: registered_def fun_eq_iff)

lemma phase_register_eval:
  assumes ok: "phase_table_ok s" and ph: "ph \<noteq> GT_PHASE_MAX" and cm: "cm \<noteq> GT_CMOD_MAX"
  shows "gt_phase_register cm ph fn s =
    (if registered s ph cm \<noteq> None then
       Some (GT_ERROR, GT_ERROR_LOG GT_MOD_CORE
               ''Warning: Phase_fn of the cmod[%d] at phase[%d] has been registered!''
               [AInt (int (cmod_idx cm)), AInt (int (phase_idx ph))] s)
     else Some (GT_OK, s\<lparr>g_gt_phase := (g_gt_phase s)[phase_idx ph := (g_gt_phase s ! phase_idx ph)
             \<lparr>pi_fn := (pi_fn (g_gt_phase s ! phase_idx ph))[cmod_idx cm := fn]\<rparr>]\<rparr>))"
  using table_lookup [OF ok phase_idx_less [OF ph] cmod_idx_less [OF cm]]
  by (simp add: gt_phase_register_def registered_def)

lemma registered_update:
  assumes ok: "phase_table_ok s" and ph: "ph \<noteq> GT_PHASE_MAX" and cm: "cm \<noteq> GT_CMOD_MAX"
    and s': "s' = s\<lparr>g_gt_phase := (g_gt_phase s)[phase_idx ph := (g_gt_phase s ! phase_idx ph)
             \<lparr>pi_fn := (pi_fn (g_gt_phase s ! phase_idx ph))[cmod_idx cm := fn]\<rparr>]\<rparr>"
  shows "phase_table_ok s'"
    and "ph' \<noteq> GT_PHASE_MAX \<Longrightarrow> cm' \<noteq> GT_CMOD_MAX \<Longrightarrow>
         registered s' ph' cm' = (if ph' = ph \<and> cm' = cm then fn else registered s ph' cm')"
proof -
  have i: "phase_idx ph < length (g_gt_phase s)"
    and l: "\<And>r. r \<in> set (g_gt_phase s) \<Longrightarrow> length (pi_fn r) = cmod_idx GT_CMOD_MAX"
    using ok phase_idx_less [OF ph] by (auto simp: phase_table_ok_def)
  have c: "cmod_idx cm < length (pi_fn (g_gt_phase s ! phase_idx ph))"
    using l [OF nth_mem [OF i]] cmod_idx_less [OF cm] by simp
  show "phase_table_ok s'"
    using ok l [OF nth_mem [OF i]]
    by (auto simp: phase_table_ok_def s' dest!: set_update_subset_insert [THEN subsetD])
  show "registered s' ph' cm' = (if ph' = ph \<and> cm' = cm then fn else registered s ph' cm')"
    if "ph' \<noteq> GT_PHASE_MAX" "cm' \<noteq> GT_CMOD_MAX"
    using i c by (auto simp: registered_def s' nth_list_update phase_idx_inject cmod_idx_inject)
qed

subsection \<open>Order of the start-up calls\<close>

definition phases :: "gt_phase list" where
  "phases = [GT_PHASE_0, GT_PHASE_1, GT_PHASE_2, GT_PHASE_3]"

definition cmods :: "gt_cmod list" where
  "cmods = [GT_CMOD_CORE, GT_CMOD_MEM, GT_CMOD_SIGNAL, GT_CMOD_POLLER, GT_CMOD_NETWORK, GT_CMOD_PTHREAD]"

lemma set_phases: "set phases = {ph. ph \<noteq> GT_PHASE_MAX}"
  by (auto simp: phases_def) (metis gt_phase.exhaust)

lemma set_cmods: "set cmods = {cm. cm \<noteq> GT_CMOD_MAX}"
  by (auto simp: cmods_def) (metis gt_cmod.exhaust)

lemma phase_indices: "[0..<phase_idx GT_PHASE_MAX] = map phase_idx phases"
  by (simp add: phases_def upt_rec)

lemma cmod_indices: "[0..<cmod_idx GT_CMOD_MAX] = map cmod_idx cmods"
  by (simp add: cmods_def upt_rec)

text \<open>The specification: the registered functions in the order of phase, then submodule.\<close>

definition slots :: "gt_state \<Rightarrow> (gt_phase \<times> gt_cmod) list \<Rightarrow> (gt_phase \<times> gt_cmod \<times> phase_fn) list" where
  "slots s = List.map_filter (\<lambda>(ph, cm). map_option (\<lambda>fn. (ph, cm, fn)) (registered s ph cm))"

definition schedule :: "gt_state \<Rightarrow> (gt_phase \<times> gt_cmod \<times> phase_fn) list" where
  "schedule s = slots s (List.product phases cmods)"

fun run_schedule ::
  "(phase_fn \<Rightarrow> gt_state \<Rightarrow> (int \<times> gt_state) option) \<Rightarrow> (gt_phase \<times> gt_cmod \<times> phase_fn) list \<Rightarrow>
   gt_state \<Rightarrow> (int \<times> gt_state) option" where
  "run_schedule call [] s = Some (GT_OK, s)"
| "run_schedule call ((ph, cm, fn) # r) s = do {
     (ret, s) \<leftarrow> call fn (GT_INFO_LOG GT_MOD_CORE ''Sys-init phase[%d] cmod[%d]''
                       [AInt (int (phase_idx ph)), AInt (int (cmod_idx cm))] s);
     if ret \<noteq> GT_OK then
       Some (ret, GT_ERROR_LOG GT_MOD_CORE ''Failed to run phase_fn on cmod[%d] at %s.''
                    [AInt (int (cmod_idx cm)), AStr (pi_phase (g_gt_phase s ! phase_idx ph))] s)
     else run_schedule call r s }"

lemma slots_simps [simp]:
  "slots s [] = []"
  "slots s ((ph, cm) # r) = (case registered s ph cm of None \<Rightarrow> slots s r | Some fn \<Rightarrow> (ph, cm, fn) # slots s r)"
  "slots s (a @ b) = slots s a @ slots s b"
  by (auto simp: slots_def List.map_filter_def split: option.splits)

lemma slots_frame: "g_gt_phase s' = g_gt_phase s \<Longrightarrow> slots s' = slots s"
  using registered_frame [of s' s] by (simp add: slots_def fun_eq_iff)

lemma slots_keys: "map (\<lambda>(p, c, f). (p, c)) (slots s l) = filter (\<lambda>(p, c). registered s p c \<noteq> None) l"
  by (induction l) (auto split: option.splits)

lemma schedule_sorted: "sorted_wrt (<) (map (\<lambda>(p, c, f). (p, c)) (schedule s))"
proof -
  have "sorted_wrt (<) (List.product phases cmods)"
    by (simp add: phases_def cmods_def less_gt_phase_def less_gt_cmod_def less_prod_def)
  then show ?thesis unfolding schedule_def slots_keys by (rule sorted_wrt_filter)
qed

lemma set_schedule:
  "(ph, cm, fn) \<in> set (schedule s) \<longleftrightarrow>
     ph \<noteq> GT_PHASE_MAX \<and> cm \<noteq> GT_CMOD_MAX \<and> registered s ph cm = Some fn"
  by (auto simp: schedule_def slots_def List.map_filter_def set_phases set_cmods image_iff
      intro!: exI [of _ ph] exI [of _ cm])

lemma run_schedule_append:
  "run_schedule call (a @ b) s = do {
     (ret, s) \<leftarrow> run_schedule call a s;
     if ret \<noteq> GT_OK then Some (ret, s) else run_schedule call b s }"
proof (induction a arbitrary: s)
  case (Cons x a)
  obtain ph cm fn where x: "x = (ph, cm, fn)" by (cases x) auto
  let ?s = "GT_INFO_LOG GT_MOD_CORE ''Sys-init phase[%d] cmod[%d]''
              [AInt (int (phase_idx ph)), AInt (int (cmod_idx cm))] s"
  show ?case by (cases "call fn ?s") (auto simp: x Cons.IH)
qed simp

text \<open>The contract of the functions in the table: none of them registers further functions.\<close>

locale phase_calls =
  fixes call :: "phase_fn \<Rightarrow> gt_state \<Rightarrow> (int \<times> gt_state) option"
  assumes keeps_table: "call fn s = Some (r, s') \<Longrightarrow> g_gt_phase s' = g_gt_phase s"
begin

lemma run_schedule_table:
  "run_schedule call l s = Some (r, s') \<Longrightarrow> g_gt_phase s' = g_gt_phase s"
proof (induction l arbitrary: s)
  case (Cons x l)
  obtain ph cm fn where x: "x = (ph, cm, fn)" by (cases x) auto
  let ?s = "GT_INFO_LOG GT_MOD_CORE ''Sys-init phase[%d] cmod[%d]''
              [AInt (int (phase_idx ph)), AInt (int (cmod_idx cm))] s"
  from Cons.prems obtain ret s1 where c: "call fn ?s = Some (ret, s1)"
    by (cases "call fn ?s") (auto simp: x)
  from keeps_table [OF c] Cons.IH [of s1] Cons.prems c show ?case
    by (auto simp: x split: if_splits)
qed simp

lemma run_cmods:
  assumes "phase_table_ok s" "ph \<noteq> GT_PHASE_MAX" "set cs \<subseteq> {cm. cm \<noteq> GT_CMOD_MAX}"
  shows "gt_phase_run_cmods call (phase_idx ph) (map cmod_idx cs) s =
         run_schedule call (slots s (map (Pair ph) cs)) s"
  using assms
proof (induction cs arbitrary: s)
  case (Cons cm cs)
  then have cm: "cm \<noteq> GT_CMOD_MAX" by simp
  note lk = table_lookup [OF _ phase_idx_less [OF Cons.prems(2)] cmod_idx_less [OF cm]]
  show ?case
  proof (cases "registered s ph cm")
    case None
    with Cons lk [OF Cons.prems(1)] show ?thesis by (simp add: registered_def)
  next
    case (Some fn)
    let ?s = "GT_INFO_LOG GT_MOD_CORE ''Sys-init phase[%d] cmod[%d]''
                [AInt (int (phase_idx ph)), AInt (int (cmod_idx cm))] s"
    show ?thesis
    proof (cases "call fn ?s")
      case None
      with Some lk [OF Cons.prems(1)] show ?thesis by (simp add: registered_def)
    next
      case (Some y)
      obtain ret s1 where y: "y = (ret, s1)" by (cases y)
      with Some keeps_table have t: "g_gt_phase s1 = g_gt_phase s" by fastforce
      with Cons.prems(1) phase_table_frame [OF t] have ok: "phase_table_ok s1" by simp
      from \<open>registered s ph cm = Some fn\<close> Some y lk [OF Cons.prems(1)] lk [OF ok]
        Cons.IH [OF ok Cons.prems(2)] Cons.prems(3) slots_frame [OF t]
      show ?thesis by (simp add: registered_def)
    qed
  qed
qed simp

lemma run_phases:
  assumes "phase_table_ok s" "set ps \<subseteq> {ph. ph \<noteq> GT_PHASE_MAX}"
  shows "gt_phase_run_phases call (map phase_idx ps) s =
         run_schedule call (slots s (List.product ps cmods)) s"
  using assms
proof (induction ps arbitrary: s)
  case (Cons ph ps)
  let ?l = "slots s (map (Pair ph) cmods)"
  from Cons.prems have c: "gt_phase_run_cmods call (phase_idx ph) [0..<cmod_idx GT_CMOD_MAX] s =
      run_schedule call ?l s"
    unfolding cmod_indices by (intro run_cmods) (auto simp: set_cmods)
  have "gt_phase_run_phases call (map phase_idx ps) s1 = run_schedule call (slots s (List.product ps cmods)) s1"
    if "run_schedule call ?l s = Some (r, s1)" for r s1
    using Cons.IH [of s1] Cons.prems slots_frame [OF run_schedule_table [OF that]]
      phase_table_frame [OF run_schedule_table [OF that]]
    by simp
  with c show ?case
    by (cases "run_schedule call ?l s") (auto simp: run_schedule_append simp del: cmod_idx.simps)
qed simp

lemma phase_run:
  assumes "phase_table_ok s"
  shows "gt_phase_run call s = run_schedule call (schedule s) s"
proof -
  have "[0..<length (g_gt_phase s)] = map phase_idx phases"
    using assms by (simp add: phase_table_ok_def phase_indices [symmetric])
  with run_phases [OF assms, of phases] show ?thesis
    by (simp add: gt_phase_run_def schedule_def set_phases)
qed

end

text \<open>
  A stronger contract: under an invariant that log calls respect, every function of the table
  comes back and keeps the invariant.
\<close>

locale phase_system = phase_calls +
  fixes inv :: "gt_state \<Rightarrow> bool"
  assumes returns: "inv s \<Longrightarrow> \<exists>r s'. call fn s = Some (r, s') \<and> inv s'"
    and log_inv: "inv s \<Longrightarrow> inv (GT_INFO_LOG md fmt a s) \<and> inv (GT_ERROR_LOG md fmt a s)"
begin

lemma run_schedule_returns:
  "inv s \<Longrightarrow> \<exists>r s'. run_schedule call l s = Some (r, s') \<and> inv s'"
proof (induction l arbitrary: s)
  case (Cons x l)
  obtain ph cm fn where x: "x = (ph, cm, fn)" by (cases x) auto
  let ?s = "GT_INFO_LOG GT_MOD_CORE ''Sys-init phase[%d] cmod[%d]''
              [AInt (int (phase_idx ph)), AInt (int (cmod_idx cm))] s"
  from returns [of ?s fn] log_inv [OF Cons.prems] obtain r s1 where
    "call fn ?s = Some (r, s1)" "inv s1" by blast
  with Cons.IH [of s1] log_inv [of s1] show ?case by (simp add: x)
qed simp

lemma phase_run_returns:
  "phase_table_ok s \<Longrightarrow> inv s \<Longrightarrow> \<exists>r s'. gt_phase_run call s = Some (r, s') \<and> inv s'"
  using run_schedule_returns by (simp add: phase_run)

end

subsection \<open>Properties\<close>

text \<open>
  C22: \<open>gt_phase_register\<close> on a valid phase and submodule fills exactly that slot when it is
  free; when it is taken it returns \<open>GT_ERROR\<close> and leaves the table alone. The sentinels
  \<open>GT_PHASE_MAX\<close> and \<open>GT_CMOD_MAX\<close> are not checked: they index past the arrays.
\<close>

theorem phase_register_cases:
  assumes ok: "phase_table_ok s"
  shows "(ph = GT_PHASE_MAX \<or> cm = GT_CMOD_MAX \<longrightarrow> gt_phase_register cm ph fn s = None) \<and>
    (ph \<noteq> GT_PHASE_MAX \<and> cm \<noteq> GT_CMOD_MAX \<longrightarrow>
      (\<exists>r s'. gt_phase_register cm ph fn s = Some (r, s') \<and> phase_table_ok s' \<and>
         (if registered s ph cm \<noteq> None then r = GT_ERROR \<and> g_gt_phase s' = g_gt_phase s
          else r = GT_OK \<and> (\<forall>ph' cm'. ph' \<noteq> GT_PHASE_MAX \<longrightarrow> cm' \<noteq> GT_CMOD_MAX \<longrightarrow>
                 registered s' ph' cm' = (if ph' = ph \<and> cm' = cm then fn else registered s ph' cm')))))"
proof -
  have "gt_phase_register cm ph fn s = None" if "ph = GT_PHASE_MAX \<or> cm = GT_CMOD_MAX"
  proof (cases "ph = GT_PHASE_MAX")
    case True
    with ok show ?thesis by (simp add: gt_phase_register_def nth_opt_def phase_table_ok_def)
  next
    case False
    with ok that table_lookup(1) [OF ok phase_idx_less [OF False], of 0] phase_idx_less [OF False]
    show ?thesis by (simp add: gt_phase_register_def nth_opt_def phase_table_ok_def)
  qed
  moreover have "\<exists>r s'. gt_phase_register cm ph fn s = Some (r, s') \<and> phase_table_ok s' \<and>
         (if registered s ph cm \<noteq> None then r = GT_ERROR \<and> g_gt_phase s' = g_gt_phase s
          else r = GT_OK \<and> (\<forall>ph' cm'. ph' \<noteq> GT_PHASE_MAX \<longrightarrow> cm' \<noteq> GT_CMOD_MAX \<longrightarrow>
                 registered s' ph' cm' = (if ph' = ph \<and> cm' = cm then fn else registered s ph' cm')))"
    if v: "ph \<noteq> GT_PHASE_MAX" "cm \<noteq> GT_CMOD_MAX"
  proof (cases "registered s ph cm")
    case None
    with phase_register_eval [OF ok v, of fn] registered_update [OF ok v refl, where fn = fn]
    show ?thesis by simp
  next
    case (Some f)
    with phase_register_eval [OF ok v, of fn] show ?thesis
      using ok by (simp add: phase_table_ok_def)
  qed
  ultimately show ?thesis by blast
qed

theorem phase_register_cases_witness:
  "gt_phase_register GT_CMOD_MAX GT_PHASE_1 (Some FN_core_phase0_func) (boot_state demo_kernel) = None \<and>
   (\<exists>r s'. gt_phase_register GT_CMOD_CORE GT_PHASE_0 (Some FN_core_phase0_func) (boot_state demo_kernel) =
            Some (r, s') \<and> phase_table_ok s')"
  using phase_register_cases [OF phase_table_ok_boot [of demo_kernel], of GT_PHASE_1 GT_CMOD_MAX "Some FN_core_phase0_func"]
    phase_register_cases [OF phase_table_ok_boot [of demo_kernel], of GT_PHASE_0 GT_CMOD_CORE "Some FN_core_phase0_func"]
  by blast

end
