(* ===== verification/GT_Worker.thy ===== *)
theory GT_Worker
  imports GT_State
begin

text \<open>
  The thread module (\<open>user/core/gt_worker.c\<close>): the thread-id cache, the creation of the business
  and data-network threads from the static tables, and the broadcast that wakes them. The bodies
  of the thread routines are steps of the machine in \<open>GT_Threads\<close>.
\<close>

subsection \<open>The thread-id cache\<close>

record tid_cache =
  cached_tid :: int
  cached_pid :: int

text \<open>\<open>pid\<close> and \<open>tid\<close> are what \<open>getpid\<close> and the system call \<open>gettid\<close> answer here.\<close>

definition gt_gettid :: "int \<Rightarrow> int \<Rightarrow> tid_cache \<Rightarrow> int \<times> tid_cache" where
  "gt_gettid pid tid c =
     (let c = (if cached_pid c \<noteq> pid \<or> cached_tid c = 0 then c\<lparr>cached_pid := pid, cached_tid := tid\<rparr> else c)
      in (cached_tid c, c))"

text \<open>
  A thread's life: it asks for its id, or the process forks and the copy of the thread goes on in
  a child whose pid differs from those of all its ancestors (no pid is used twice in the lineage).
\<close>

record proc_life =
  pl_cache :: tid_cache
  pl_pid :: int
  pl_tid :: int
  pl_parents :: "int list"

inductive tid_step :: "proc_life \<Rightarrow> proc_life \<Rightarrow> bool" where
  ask: "tid_step p (p\<lparr>pl_cache := snd (gt_gettid (pl_pid p) (pl_tid p) (pl_cache p))\<rparr>)"
| fork: "pid \<notin> set (pl_pid p # pl_parents p) \<Longrightarrow> 0 < pid \<Longrightarrow>
    tid_step p (p\<lparr>pl_pid := pid, pl_tid := pid, pl_parents := pl_pid p # pl_parents p\<rparr>)"

inductive tid_reachable :: "proc_life \<Rightarrow> bool" where
  start: "0 < pid \<Longrightarrow> tid_reachable \<lparr>pl_cache = \<lparr>cached_tid = 0, cached_pid = 0\<rparr>, pl_pid = pid, pl_tid = tid,
                                     pl_parents = []\<rparr>"
| step: "tid_reachable p \<Longrightarrow> tid_step p p' \<Longrightarrow> tid_reachable p'"

definition tid_inv :: "proc_life \<Rightarrow> bool" where
  "tid_inv p \<longleftrightarrow> 0 < pl_pid p \<and>
     (cached_pid (pl_cache p) = 0 \<and> cached_tid (pl_cache p) = 0 \<or>
      cached_pid (pl_cache p) = pl_pid p \<and> cached_tid (pl_cache p) = pl_tid p \<or>
      cached_pid (pl_cache p) \<in> set (pl_parents p)) \<and>
     pl_pid p \<notin> set (pl_parents p)"

lemma tid_inv_gettid: "tid_inv p \<Longrightarrow> fst (gt_gettid (pl_pid p) (pl_tid p) (pl_cache p)) = pl_tid p"
  by (auto simp: tid_inv_def gt_gettid_def Let_def)

lemma tid_reachable_inv: "tid_reachable p \<Longrightarrow> tid_inv p"
proof (induction rule: tid_reachable.induct)
  case (step p p')
  from step.hyps(2) step.IH show ?case
    by (cases rule: tid_step.cases) (auto simp: tid_inv_def gt_gettid_def Let_def)
qed (simp add: tid_inv_def)

subsection \<open>Threads of the system library\<close>

text \<open>The \<open>pthread_\<close> functions return an error number and leave \<open>errno\<close> alone.\<close>

definition pthread_call :: "kernel \<Rightarrow> int \<times> kernel" where
  "pthread_call k = (case fault_now k of
       Some e \<Rightarrow> (if 0 < e then e else EAGAIN, next_call k)
     | None \<Rightarrow> (0, next_call k))"

definition set_pthread_id :: "pthread_ref \<Rightarrow> u64 \<Rightarrow> gt_state \<Rightarrow> gt_state" where
  "set_pthread_id ref v s = (case ref of
       BusinessRow i \<Rightarrow> s\<lparr>g_gt_business_pthread := (g_gt_business_pthread s)[i := (g_gt_business_pthread s ! i)\<lparr>pt_id := v\<rparr>]\<rparr>
     | DatanetRow i \<Rightarrow> s\<lparr>g_gt_datanet_pthread := (g_gt_datanet_pthread s)[i := (g_gt_datanet_pthread s ! i)\<lparr>pt_id := v\<rparr>]\<rparr>)"

text \<open>A new thread gets an id of its own and starts its row's routine on that row.\<close>

definition pthread_create :: "pthread_ref \<Rightarrow> gt_state \<Rightarrow> int \<times> gt_state" where
  "pthread_create ref s =
     (let (ret, s) = lift_k pthread_call s in
      if ret \<noteq> 0 then (ret, s)
      else (0, (set_pthread_id ref (of_nat (Suc (length (threads s)))) s)\<lparr>threads := threads s @ [(ref, PC_start)]\<rparr>))"

definition pthread_cond_broadcast :: "gt_state \<Rightarrow> int \<times> gt_state" where
  "pthread_cond_broadcast s =
     (let (ret, s) = lift_k pthread_call s in
      if ret \<noteq> 0 then (ret, s)
      else (0, s\<lparr>threads := map (\<lambda>(ref, pc). (ref, if pc = PC_waiting then PC_woken else pc)) (threads s)\<rparr>))"

subsection \<open>Operations\<close>

fun create_rows :: "(nat \<Rightarrow> pthread_ref) \<Rightarrow> nat list \<Rightarrow> gt_state \<Rightarrow> int \<times> gt_state" where
  "create_rows row [] s = (GT_OK, s)"
| "create_rows row (i # is) s =
     (let (ret, s) = pthread_create (row i) s in
      if ret \<noteq> GT_OK then
        (GT_ERROR, GT_ERROR_LOG GT_MOD_CORE ''Failed create pthread[%d]. errno:%d, %s''
                     [AInt (int i), AInt (gt_errno s), AErrstr (gt_errno s)] s)
      else create_rows row is s)"

definition gt_create_pthread :: "gt_state \<Rightarrow> int \<times> gt_state" where
  "gt_create_pthread s =
     (let (ret, s) = lift_k pthread_call s in
      if ret \<noteq> GT_OK then (ret, GT_ERROR_LOG GT_MOD_CORE ''Failed to init mutex!'' [] s)
      else let (ret, s) = lift_k pthread_call s in
      if ret \<noteq> GT_OK then (ret, GT_ERROR_LOG GT_MOD_CORE ''Failed to init cond!'' [] s)
      else create_rows BusinessRow [0..<GT_BUSINESS_PTHREAD_NUM] s)"

definition gt_wakeup_pthread :: "gt_state \<Rightarrow> int \<times> gt_state" where
  "gt_wakeup_pthread s =
     (let (ret, s) = pthread_cond_broadcast s in
      if ret \<noteq> GT_OK then
        (ret, GT_ERROR_LOG GT_MOD_CORE ''Failed wakeup all pthread. errno:%d, %s''
                [AInt (gt_errno s), AErrstr (gt_errno s)] s)
      else (GT_OK, s))"

definition gt_create_datanet_pthread :: "gt_state \<Rightarrow> int \<times> gt_state" where
  "gt_create_datanet_pthread s = create_rows DatanetRow [0..<GT_DATANET_PTHREAD_NUM] s"

subsection \<open>Creation\<close>

text \<open>The parts of the memory that thread creation leaves alone.\<close>

definition memory where
  "memory s = (lists s, gevents s, gpollers s, blocks s)"

lemma memory_eqD:
  assumes "memory s' = memory s"
  shows "lists s' = lists s" "gevents s' = gevents s" "gpollers s' = gpollers s" "blocks s' = blocks s"
  using assms by (simp_all add: memory_def)

lemma memory_frame [simp]:
  "memory (s\<lparr>kern := k\<rparr>) = memory s" "memory (s\<lparr>threads := t\<rparr>) = memory s"
  "memory (GT_ERROR_LOG md fmt a s) = memory s" "memory (GT_INFO_LOG md fmt a s) = memory s"
  "memory (set_pthread_id ref v s) = memory s"
  by (simp_all add: memory_def set_pthread_id_def split: pthread_ref.splits)

text \<open>The rows keep their routine and data pointer: only the id field is written.\<close>

definition rows_data :: "gt_state \<Rightarrow> (routine_fn \<times> addr) list \<times> (routine_fn \<times> addr) list" where
  "rows_data s = (map (\<lambda>r. (pt_routine r, pt_data r)) (g_gt_business_pthread s),
                  map (\<lambda>r. (pt_routine r, pt_data r)) (g_gt_datanet_pthread s))"

lemma map_upd_id: "i < length xs \<longrightarrow> f (g (xs ! i)) = f (xs ! i) \<Longrightarrow> map f (xs[i := g (xs ! i)]) = map f xs"
  by (rule nth_equalityI) (auto, metis nth_list_update_eq nth_list_update_neq)

lemma rows_data_set_id [simp]: "rows_data (set_pthread_id ref v s) = rows_data s"
  by (auto simp: rows_data_def set_pthread_id_def map_upd_id split: pthread_ref.splits)

lemma rows_data_frame [simp]:
  "rows_data (s\<lparr>kern := k\<rparr>) = rows_data s" "rows_data (s\<lparr>threads := t\<rparr>) = rows_data s"
  "rows_data (GT_ERROR_LOG md fmt a s) = rows_data s"
  by (simp_all add: rows_data_def GT_ERROR_LOG_def)

lemma set_pthread_id_fields [simp]:
  "kern (set_pthread_id ref v s) = kern s" "threads (set_pthread_id ref v s) = threads s"
  "g_gt_phase (set_pthread_id ref v s) = g_gt_phase s"
  "g_signal_pipefd (set_pthread_id ref v s) = g_signal_pipefd s"
  by (simp_all add: set_pthread_id_def split: pthread_ref.splits)

lemma pthread_create_cases:
  assumes "pthread_create ref s = (ret, s')"
  shows "memory s' = memory s" "rows_data s' = rows_data s" "file_at (kern s') = file_at (kern s)"
    "g_gt_phase s' = g_gt_phase s" "k_fault (kern s') = k_fault (kern s)"
    "threads s' = (if ret = 0 then threads s @ [(ref, PC_start)] else threads s)"
    "fault_now (kern s) = None \<longleftrightarrow> ret = 0"
  using assms
  by (auto simp: pthread_create_def pthread_call_def lift_k_def Let_def EAGAIN_def split: option.splits if_splits)

text \<open>All rows are started in order, or a prefix of them when a creation fails.\<close>

lemma create_rows_spec:
  assumes "create_rows row is s = (ret, s')"
  shows "memory s' = memory s \<and> rows_data s' = rows_data s \<and> file_at (kern s') = file_at (kern s) \<and>
    g_gt_phase s' = g_gt_phase s \<and> k_fault (kern s') = k_fault (kern s) \<and>
    (\<exists>n \<le> length is. threads s' = threads s @ map (\<lambda>i. (row i, PC_start)) (take n is) \<and>
        (if ret = GT_OK then n = length is else ret = GT_ERROR \<and> n < length is))"
  using assms
proof (induction "is" arbitrary: s)
  case (Cons i "is")
  obtain r s1 where c: "pthread_create (row i) s = (r, s1)" by fastforce
  note f = pthread_create_cases [OF c]
  show ?case
  proof (cases "r = GT_OK")
    case True
    with Cons.prems c have "create_rows row is s1 = (ret, s')" by simp
    from Cons.IH [OF this] obtain n where "n \<le> length is"
      "threads s' = threads s1 @ map (\<lambda>i. (row i, PC_start)) (take n is)"
      "if ret = GT_OK then n = length is else ret = GT_ERROR \<and> n < length is" by blast
    with Cons.IH [OF \<open>create_rows row is s1 = (ret, s')\<close>] f True show ?thesis
      by (auto simp: GT_OK_def intro!: exI [of _ "Suc n"])
  next
    case False
    with Cons.prems c f show ?thesis
      by (auto simp: GT_OK_def GT_ERROR_def GT_ERROR_LOG_def frame_simps intro!: exI [of _ 0])
  qed
qed simp

lemma create_rows_no_faults:
  assumes "no_faults (kern s)"
  shows "fst (create_rows row is s) = GT_OK"
  using assms
proof (induction "is" arbitrary: s)
  case (Cons i "is")
  obtain r s1 where c: "pthread_create (row i) s = (r, s1)" by fastforce
  from pthread_create_cases [OF c] Cons.prems have "r = GT_OK" "no_faults (kern s1)"
    by (simp_all add: GT_OK_def no_faults_def fault_now_def)
  with Cons.IH [of s1] c show ?case by simp
qed simp

subsection \<open>Properties\<close>

text \<open>
  \<open>gt_gettid\<close> always answers the caller's own thread id, across any sequence of calls and
  forks, although it caches the answer: the cache is refreshed whenever the pid has changed.
\<close>

theorem gettid_correct:
  assumes "tid_reachable p"
  shows "fst (gt_gettid (pl_pid p) (pl_tid p) (pl_cache p)) = pl_tid p"
  using assms tid_reachable_inv tid_inv_gettid by blast

theorem gettid_correct_witness:
  "\<exists>p. tid_reachable p \<and> pl_pid p = 200 \<and> cached_tid (pl_cache p) = 100 \<and>
       fst (gt_gettid (pl_pid p) (pl_tid p) (pl_cache p)) = 200"
proof -
  let ?p0 = "\<lparr>pl_cache = \<lparr>cached_tid = 0, cached_pid = 0\<rparr>, pl_pid = 100, pl_tid = 100, pl_parents = []\<rparr>"
  let ?p1 = "?p0\<lparr>pl_cache := snd (gt_gettid 100 100 (pl_cache ?p0))\<rparr>"
  let ?p2 = "?p1\<lparr>pl_pid := 200, pl_tid := 200, pl_parents := [100]\<rparr>"
  have "tid_reachable ?p0" by (rule tid_reachable.start) simp
  moreover have "tid_step ?p0 ?p1" using tid_step.ask [of ?p0] by simp
  ultimately have "tid_reachable ?p1" by (rule tid_reachable.step)
  moreover have "tid_step ?p1 ?p2" using tid_step.fork [of 200 ?p1] by simp
  ultimately have r: "tid_reachable ?p2" by (rule tid_reachable.step)
  from gettid_correct [OF r] r show ?thesis
    by (intro exI [of _ ?p2]) (simp add: gt_gettid_def)
qed

text \<open>
  \<open>gt_create_datanet_pthread\<close> starts the four data-network threads in the order of the table
  and returns \<open>GT_OK\<close>, or it returns \<open>GT_ERROR\<close> after a failed creation, leaving the threads
  before it started; the rows keep their routines and pollers, and no other state changes.
\<close>

lemma create_datanet_prefix:
  "\<exists>n \<le> GT_DATANET_PTHREAD_NUM.
     threads (snd (gt_create_datanet_pthread s)) = threads s @ map (\<lambda>i. (DatanetRow i, PC_start)) [0..<n] \<and>
     fst (gt_create_datanet_pthread s) = (if n = GT_DATANET_PTHREAD_NUM then GT_OK else GT_ERROR) \<and>
     rows_data (snd (gt_create_datanet_pthread s)) = rows_data s \<and>
     memory (snd (gt_create_datanet_pthread s)) = memory s"
proof -
  obtain r s' where e: "create_rows DatanetRow [0..<GT_DATANET_PTHREAD_NUM] s = (r, s')" by fastforce
  from create_rows_spec [OF e] obtain n where n: "n \<le> GT_DATANET_PTHREAD_NUM"
    "threads s' = threads s @ map (\<lambda>i. (DatanetRow i, PC_start)) (take n [0..<GT_DATANET_PTHREAD_NUM])"
    "if r = GT_OK then n = GT_DATANET_PTHREAD_NUM else r = GT_ERROR \<and> n < GT_DATANET_PTHREAD_NUM"
    "rows_data s' = rows_data s" "memory s' = memory s" by (auto split: if_splits)
  moreover have "take n [0..<GT_DATANET_PTHREAD_NUM] = [0..<n]" using n(1) by simp
  ultimately show ?thesis using e
    by (intro exI [of _ n]) (auto simp: gt_create_datanet_pthread_def split: if_splits)
qed

end
