(* ===== verification/GT_Network.thy ===== *)
theory GT_Network
  imports GT_Core GT_Worker
begin

text \<open>
  The network module (\<open>user/core/gt_network.c\<close>): descriptor helpers, the listening socket, the
  handler that accepts connections and hands them to the data-network pollers, and the handler
  that reads from them.
\<close>

subsection \<open>Descriptor helpers\<close>

definition gt_create_pipefd :: "fd \<times> fd \<Rightarrow> gt_state \<Rightarrow> int \<times> (fd \<times> fd) \<times> gt_state" where
  "gt_create_pipefd pipefd s =
     (let (ret, fds, k) = sys_socketpair (kern s); s = s\<lparr>kern := k\<rparr> in
      if ret \<noteq> GT_OK then
        (ret, pipefd, GT_ERROR_LOG GT_MOD_CORE ''Failed to create socketpair pipefd! errno:%d, %s''
                        [AInt (gt_errno s), AErrstr (gt_errno s)] s)
      else (GT_OK, case fds of Some p \<Rightarrow> p | None \<Rightarrow> pipefd, s))"

definition gt_set_nonblock :: "fd \<Rightarrow> gt_state \<Rightarrow> int \<times> gt_state" where
  "gt_set_nonblock fd s =
     (let ((_, flag), s) = lift_k (sys_fcntl_getfl fd) s;
          (ret, s) = lift_k (sys_fcntl_setfl fd (flag OR O_NONBLOCK)) s in
      if ret \<noteq> GT_OK then
        (ret, GT_ERROR_LOG GT_MOD_CORE ''Failed to set fd[%d] to nonblock! errno:%d, %s''
                [AInt fd, AInt (gt_errno s), AErrstr (gt_errno s)] s)
      else (GT_OK, s))"

definition gt_set_cloexec :: "fd \<Rightarrow> gt_state \<Rightarrow> int \<times> gt_state" where
  "gt_set_cloexec fd s =
     (let ((_, flag), s) = lift_k (sys_fcntl_getfd fd) s;
          (ret, s) = lift_k (sys_fcntl_setfd fd (flag OR FD_CLOEXEC)) s in
      if ret \<noteq> GT_OK then
        (ret, GT_ERROR_LOG GT_MOD_CORE ''Failed to set fd[%d] to close-on-exec! errno:%d, %s''
                [AInt fd, AInt (gt_errno s), AErrstr (gt_errno s)] s)
      else (GT_OK, s))"

subsection \<open>Data connections\<close>

text \<open>The buffer is zeroed and one byte longer than the read, so it prints up to the first zero byte.\<close>

definition cstring :: "u8 list \<Rightarrow> string" where
  "cstring bs = map (\<lambda>b. char_of (unat b)) (takeWhile (\<lambda>b. b \<noteq> 0) bs)"

definition gt_datanet_ops_read :: "addr \<Rightarrow> gt_state \<Rightarrow> (int \<times> gt_state) option" where
  "gt_datanet_ops_read ge s = do {
     gev \<leftarrow> gevents s ge;
     (ret, buf, k) \<leftarrow> sys_read (ge_efd gev) (128 - 1) (kern s);
     let s = s\<lparr>kern := k\<rparr>;
     if ret \<le> 0 then
       (let tmp_errno = gt_errno s in
        if tmp_errno = EAGAIN \<or> tmp_errno = EWOULDBLOCK then Some (GT_OK, s)
        else do {
          let s = GT_INFO_LOG GT_MOD_CORE ''Failed to read fd:%d, errno:%d''
                    [AInt (ge_efd gev), AInt (gt_errno s)] s;
          (_, s) \<leftarrow> gt_poller_event_stop EPOLLIN ge s;
          s \<leftarrow> gt_poller_gevent_destroy ge s;
          Some (ret, s) })
     else
       Some (ret, GT_INFO_LOG GT_MOD_CORE ''CFD[%d]: %s'' [AInt (ge_efd gev), AStr (cstring buf)] s) }"

text \<open>
  The remainder is taken in unsigned 64-bit arithmetic because \<open>DIM\<close> is a \<open>size_t\<close>; as its
  value 4 divides \<open>2 ^ 64\<close>, that is the mathematical remainder.
\<close>

definition gt_network_round_dispatch :: "fd \<Rightarrow> gt_state \<Rightarrow> (int \<times> gt_state) option" where
  "gt_network_round_dispatch sockfd s = do {
     let pthread_idx = nat (sockfd mod int (length (g_gt_datanet_pthread s)));
     row \<leftarrow> nth_opt (g_gt_datanet_pthread s) pthread_idx;
     let gpoller = pt_data row;
     (ge, s) \<leftarrow> gt_poller_gevent_create sockfd gpoller s;
     if ge = NULL then
       Some (GT_OK, GT_ERROR_LOG GT_MOD_CORE ''Failed to create gt_event for datanet[%d].''
                      [AInt (int pthread_idx)] s)
     else do {
       gev \<leftarrow> gevents s ge;
       let s = put_event ge (gev\<lparr>ge_ops := (ge_ops gev)\<lparr>op_read := Some FN_datanet_ops_read\<rparr>\<rparr>) s;
       (ret, s) \<leftarrow> gt_poller_event_start EPOLLIN ge s;
       if ret \<noteq> GT_OK then
         Some (GT_ERROR, GT_ERROR_LOG GT_MOD_CORE
                 ''Failed to start poller event! sockfd[%d], pthread_idx[%d]''
                 [AInt sockfd, AInt (int pthread_idx)] s)
       else Some (GT_OK, s) } }"

definition gt_network_ops_read :: "addr \<Rightarrow> gt_state \<Rightarrow> (int \<times> gt_state) option" where
  "gt_network_ops_read ge s = do {
     gev \<leftarrow> gevents s ge;
     let caddr = k_peer (kern s) (k_calls (kern s));
     (cfd, k) \<leftarrow> sys_accept (ge_efd gev) (kern s);
     let s = s\<lparr>kern := k\<rparr>;
     if cfd = -1 then
       (let tmp_errno = gt_errno s in
        if tmp_errno = EAGAIN \<or> tmp_errno = EWOULDBLOCK then Some (GT_OK, s)
        else Some (GT_ERROR, GT_ERROR_LOG GT_MOD_CORE
               ''Failed to accept new conn on lfd[%d]! errno:%d, %s''
               [AInt (ge_efd gev), AInt tmp_errno, AErrstr tmp_errno] s))
     else do {
       let (ret, s) = lift_k (sys_setsockopt cfd) s;
       if ret = -1 then
         (let s = GT_ERROR_LOG GT_MOD_CORE ''Failed to set socketopt! errno:%d, %s''
                    [AInt (gt_errno s), AErrstr (gt_errno s)] s;
              (_, s) = lift_k (sys_close cfd) s
          in Some (-1, s))
       else do {
         let ((_, flags), s) = lift_k (sys_fcntl_getfl cfd) s;
         let (ret, s) = lift_k (sys_fcntl_setfl cfd (flags OR O_NONBLOCK)) s;
         if ret = -1 then
           (let s = GT_ERROR_LOG GT_MOD_CORE ''Failed to set cfd[%d]! errno:%d, %s''
                      [AInt cfd, AInt (gt_errno s), AErrstr (gt_errno s)] s;
                (_, s) = lift_k (sys_close cfd) s
            in Some (-1, s))
         else do {
           (ret, s) \<leftarrow> gt_network_round_dispatch cfd s;
           if ret \<noteq> GT_OK then Some (GT_ERROR, s)
           else Some (GT_OK, GT_INFO_LOG GT_MOD_CORE ''Connection form IP[%#x], PORT[%d]''
                  [AInt (uint (ntohl (fst caddr))), AInt (uint (ntohs (snd caddr)))] s) } } } }"

subsection \<open>The listening socket\<close>

definition GT_NETWORKER_MAXEVENT :: int where "GT_NETWORKER_MAXEVENT = 1024"
definition GT_NETWORKER_EPWAIT_TIMEOUT :: int where "GT_NETWORKER_EPWAIT_TIMEOUT = GT_EPOLL_WAIT_TIMEOUT"

definition gt_network_listenning :: "u32 \<Rightarrow> u32 \<Rightarrow> gt_state \<Rightarrow> (int \<times> gt_state) option" where
  "gt_network_listenning ip port s =
     (let (lfd, s) = lift_k sys_socket s in
      if lfd < 0 then
        Some (GT_ERROR, GT_ERROR_LOG GT_MOD_CORE ''Failed to create socket! errno:%d, %s''
                          [AInt (gt_errno s), AErrstr (gt_errno s)] s)
      else let (ret, s) = lift_k (sys_setsockopt lfd) s in
      if ret = -1 then
        (let s = GT_ERROR_LOG GT_MOD_CORE ''Failed to set socketopt for lfd! errno:%d, %s''
                   [AInt (gt_errno s), AErrstr (gt_errno s)] s;
             (_, s) = lift_k (sys_close lfd) s
         in Some (GT_ERROR, s))
      else let (ret, s) = lift_k (sys_bind lfd (htonl ip) (htons (ucast port))) s in
      if ret = -1 then
        (let s = GT_ERROR_LOG GT_MOD_CORE ''Failed to bind ip and port to lfd[%d]! errno:%d, %s''
                   [AInt lfd, AInt (gt_errno s), AErrstr (gt_errno s)] s;
             (_, s) = lift_k (sys_close lfd) s
         in Some (GT_ERROR, s))
      else let (ret, s) = lift_k (sys_listen lfd GT_NETWORKER_MAXEVENT) s in
      if ret = -1 then
        (let s = GT_ERROR_LOG GT_MOD_CORE ''Failed to listen ip and port on lfd[%d]! errno:%d, %s''
                   [AInt lfd, AInt (gt_errno s), AErrstr (gt_errno s)] s;
             (_, s) = lift_k (sys_close lfd) s
         in Some (GT_ERROR, s))
      else do {
        (ge, s) \<leftarrow> gt_poller_gevent_create lfd g_gt_network_poller s;
        if ge = NULL then
          Some (GT_ERROR, GT_ERROR_LOG GT_MOD_CORE ''Failed to create gt_event for network[%d].''
                            [AInt lfd] s)
        else do {
          gev \<leftarrow> gevents s ge;
          let s = put_event ge (gev\<lparr>ge_ops := (ge_ops gev)\<lparr>op_read := Some FN_network_ops_read\<rparr>\<rparr>) s;
          (ret, s) \<leftarrow> gt_poller_event_start EPOLLIN ge s;
          if ret \<noteq> GT_OK then
            Some (GT_ERROR, GT_ERROR_LOG GT_MOD_CORE ''Failed to start poller event to lfd[%d]''
                              [AInt lfd] s)
          else Some (GT_OK, GT_INFO_LOG GT_MOD_CORE ''Start listenning...'' [] s) } })"

subsection \<open>Phase functions\<close>

definition gt_network_phase1_func :: "gt_state \<Rightarrow> (int \<times> gt_state) option" where
  "gt_network_phase1_func s = do {
     (ret, s) \<leftarrow> gt_poller_init GT_NETWORKER_MAXEVENT GT_NETWORKER_EPWAIT_TIMEOUT g_gt_network_poller s;
     if ret \<noteq> GT_OK then Some (ret, s)
     else do {
       (ret, s) \<leftarrow> gt_network_listenning (g_gt_server_ip s) (ucast (g_gt_server_port s)) s;
       if ret \<noteq> GT_OK then
         Some (ret, GT_ERROR_LOG GT_MOD_CORE ''Failed to listenning, ip:%#x, port:%d''
                 [AInt (uint (g_gt_server_ip s)), AInt (uint (g_gt_server_port s))] s)
       else Some (GT_OK, s) } }"

definition gt_network_phase2_func :: "gt_state \<Rightarrow> (int \<times> gt_state) option" where
  "gt_network_phase2_func s =
     (let (ret, s) = gt_create_datanet_pthread s in
      if ret \<noteq> GT_OK then
        Some (ret, GT_ERROR_LOG GT_MOD_CORE ''Failed to create datanet pthread.'' [] s)
      else Some (GT_OK, s))"

definition gt_network_init :: "gt_state \<Rightarrow> (int \<times> gt_state) option" where
  "gt_network_init s = do {
     (ret, s) \<leftarrow> gt_phase_register GT_CMOD_NETWORK GT_PHASE_1 (Some FN_network_phase1_func) s;
     if ret \<noteq> GT_OK then Some (ret, s)
     else do {
       (ret, s) \<leftarrow> gt_phase_register GT_CMOD_NETWORK GT_PHASE_2 (Some FN_network_phase2_func) s;
       if ret \<noteq> GT_OK then Some (ret, s) else Some (GT_OK, s) } }"

end
