(* ===== verification/GT_Signal.thy ===== *)
theory GT_Signal
  imports GT_Network
begin

text \<open>
  The signal module (\<open>user/core/gt_signal.c\<close>): signals are turned into events by writing their
  number into a socket pair whose other end is read by the core poller; core signals also print a
  backtrace to the log file.
\<close>

subsection \<open>Signals\<close>

datatype gt_sig =
    GT_SIGHUP | GT_SIGINT | GT_SIGQUIT | GT_SIGILL | GT_SIGTRAP | GT_SIGABRT | GT_SIGBUS | GT_SIGFPE
  | GT_SIGKILL | GT_SIGUSR1 | GT_SIGSEGV | GT_SIGUSR2 | GT_SIGPIPE | GT_SIGALRM | GT_SIGTERM
  | GT_SIGSTKFLT | GT_SIGCLD | GT_SIGCHLD | GT_SIGCONT | GT_SIGSTOP | GT_SIGTSTP | GT_SIGTTIN
  | GT_SIGTTOU | GT_SIGURG | GT_SIGXCPU | GT_SIGXFSZ | GT_SIGVTALRM | GT_SIGPROF | GT_SIGWINCH
  | GT_SIGIO | GT_SIGPWR | GT_SIGSYS

text \<open>The values of the enumerators on Linux (x86-64); \<open>SIGCLD\<close> is another name of \<open>SIGCHLD\<close>.\<close>

fun sig_num :: "gt_sig \<Rightarrow> int" where
  "sig_num GT_SIGHUP = 1" | "sig_num GT_SIGINT = 2" | "sig_num GT_SIGQUIT = 3" | "sig_num GT_SIGILL = 4"
| "sig_num GT_SIGTRAP = 5" | "sig_num GT_SIGABRT = 6" | "sig_num GT_SIGBUS = 7" | "sig_num GT_SIGFPE = 8"
| "sig_num GT_SIGKILL = 9" | "sig_num GT_SIGUSR1 = 10" | "sig_num GT_SIGSEGV = 11" | "sig_num GT_SIGUSR2 = 12"
| "sig_num GT_SIGPIPE = 13" | "sig_num GT_SIGALRM = 14" | "sig_num GT_SIGTERM = 15" | "sig_num GT_SIGSTKFLT = 16"
| "sig_num GT_SIGCLD = 17" | "sig_num GT_SIGCHLD = 17" | "sig_num GT_SIGCONT = 18" | "sig_num GT_SIGSTOP = 19"
| "sig_num GT_SIGTSTP = 20" | "sig_num GT_SIGTTIN = 21" | "sig_num GT_SIGTTOU = 22" | "sig_num GT_SIGURG = 23"
| "sig_num GT_SIGXCPU = 24" | "sig_num GT_SIGXFSZ = 25" | "sig_num GT_SIGVTALRM = 26" | "sig_num GT_SIGPROF = 27"
| "sig_num GT_SIGWINCH = 28" | "sig_num GT_SIGIO = 29" | "sig_num GT_SIGPWR = 30" | "sig_num GT_SIGSYS = 31"

definition g_gt_sig_ignore :: "gt_sig list" where
  "g_gt_sig_ignore = [GT_SIGINT, GT_SIGPIPE, GT_SIGALRM, GT_SIGSTKFLT, GT_SIGCLD, GT_SIGCHLD, GT_SIGCONT,
     GT_SIGTSTP, GT_SIGTTIN, GT_SIGTTOU, GT_SIGXCPU, GT_SIGXFSZ, GT_SIGVTALRM, GT_SIGPROF, GT_SIGWINCH,
     GT_SIGIO, GT_SIGPWR]"

definition g_gt_sig_core :: "gt_sig list" where
  "g_gt_sig_core = [GT_SIGILL, GT_SIGABRT, GT_SIGBUS, GT_SIGFPE, GT_SIGSEGV, GT_SIGSYS]"

definition g_gt_sig_custom :: "gt_sig list" where
  "g_gt_sig_custom = [GT_SIGHUP, GT_SIGQUIT, GT_SIGUSR1, GT_SIGUSR2]"

text \<open>The classes that the comments in \<open>gt_signal.h\<close> give to the enumerators.\<close>

datatype sig_class = SC_user | SC_ignore | SC_core | SC_default

fun sig_comment :: "gt_sig \<Rightarrow> sig_class" where
  "sig_comment GT_SIGHUP = SC_user" | "sig_comment GT_SIGINT = SC_ignore" | "sig_comment GT_SIGQUIT = SC_user"
| "sig_comment GT_SIGILL = SC_core" | "sig_comment GT_SIGTRAP = SC_default" | "sig_comment GT_SIGABRT = SC_core"
| "sig_comment GT_SIGBUS = SC_core" | "sig_comment GT_SIGFPE = SC_core" | "sig_comment GT_SIGKILL = SC_default"
| "sig_comment GT_SIGUSR1 = SC_user" | "sig_comment GT_SIGSEGV = SC_core" | "sig_comment GT_SIGUSR2 = SC_user"
| "sig_comment GT_SIGPIPE = SC_ignore" | "sig_comment GT_SIGALRM = SC_ignore" | "sig_comment GT_SIGTERM = SC_default"
| "sig_comment GT_SIGSTKFLT = SC_ignore" | "sig_comment GT_SIGCLD = SC_ignore" | "sig_comment GT_SIGCHLD = SC_ignore"
| "sig_comment GT_SIGCONT = SC_ignore" | "sig_comment GT_SIGSTOP = SC_default" | "sig_comment GT_SIGTSTP = SC_ignore"
| "sig_comment GT_SIGTTIN = SC_ignore" | "sig_comment GT_SIGTTOU = SC_ignore" | "sig_comment GT_SIGURG = SC_default"
| "sig_comment GT_SIGXCPU = SC_ignore" | "sig_comment GT_SIGXFSZ = SC_ignore" | "sig_comment GT_SIGVTALRM = SC_ignore"
| "sig_comment GT_SIGPROF = SC_ignore" | "sig_comment GT_SIGWINCH = SC_ignore" | "sig_comment GT_SIGIO = SC_ignore"
| "sig_comment GT_SIGPWR = SC_ignore" | "sig_comment GT_SIGSYS = SC_core"

subsection \<open>Process actions\<close>

definition gt_process_dump :: "int \<Rightarrow> gt_state \<Rightarrow> gt_state" where
  "gt_process_dump sig = GT_INFO_LOG GT_MOD_CORE ''Notice: Dump process now! Signal[%d]'' [AInt sig]"

definition gt_process_snap :: "int \<Rightarrow> gt_state \<Rightarrow> gt_state" where
  "gt_process_snap sig = GT_INFO_LOG GT_MOD_CORE ''Notice: Snap process now! Signal[%d]'' [AInt sig]"

definition gt_process_reconf :: "int \<Rightarrow> gt_state \<Rightarrow> gt_state" where
  "gt_process_reconf sig = GT_INFO_LOG GT_MOD_CORE ''Notice: Reconf process now! Signal[%d]'' [AInt sig]"

text \<open>\<open>pthread_sigmask\<close> returns the error number and does not set \<open>errno\<close>.\<close>

definition gt_set_pthread_sigmask :: "gt_sig \<Rightarrow> gt_state \<Rightarrow> int \<times> gt_state" where
  "gt_set_pthread_sigmask sig s =
     (let (ret, s') = lift_k pthread_call s in
      if ret \<noteq> GT_OK then
        (ret, GT_ERROR_LOG GT_MOD_CORE ''Failed to set pthread sigmask! errno:%d, %s''
                [AInt (gt_errno s'), AErrstr (gt_errno s')] s')
      else (GT_OK, snd (lift_k (sys_sigblock [sig_num sig]) s)))"

subsection \<open>The signal pipe\<close>

definition gt_signal_create_pipefd :: "gt_state \<Rightarrow> int \<times> gt_state" where
  "gt_signal_create_pipefd s =
     (let (ret, pipefd, s) = gt_create_pipefd (g_signal_pipefd s) s; s = s\<lparr>g_signal_pipefd := pipefd\<rparr> in
      if ret \<noteq> GT_OK then (ret, GT_ERROR_LOG GT_MOD_CORE ''Failed to create signal pipefd!'' [] s)
      else let (ret, s) = gt_set_nonblock (snd (g_signal_pipefd s)) s in
      if ret \<noteq> GT_OK then
        (let s = GT_ERROR_LOG GT_MOD_CORE ''Failed to set signal pipefd to nonblock!'' [] s;
             (_, s) = lift_k (sys_close (fst (g_signal_pipefd s))) s;
             (_, s) = lift_k (sys_close (snd (g_signal_pipefd s))) s
         in (ret, s))
      else let (ret, s) = gt_set_cloexec (snd (g_signal_pipefd s)) s in
      if ret \<noteq> GT_OK then
        (let s = GT_ERROR_LOG GT_MOD_CORE ''Failed to set signal pipefd to close-on-exec!'' [] s;
             (_, s) = lift_k (sys_close (fst (g_signal_pipefd s))) s;
             (_, s) = lift_k (sys_close (snd (g_signal_pipefd s))) s
         in (ret, s))
      else (GT_OK, s))"

text \<open>The four bytes of an \<open>int32_t\<close> in memory.\<close>

definition int32_bytes :: "int \<Rightarrow> u8 list" where
  "int32_bytes i = (let w = (of_int i :: u32) in
     [ucast w, ucast (drop_bit 8 w), ucast (drop_bit 16 w), ucast (drop_bit 24 w)])"

definition gt_signal_deliver :: "int \<Rightarrow> gt_state \<Rightarrow> gt_state" where
  "gt_signal_deliver sig s =
     (let (ret, s) = lift_k (sys_write (snd (g_signal_pipefd s)) (int32_bytes sig)) s in
      if ret = -1 then
        GT_ERROR_LOG GT_MOD_CORE ''Failed to write signal to pipefd[%d]! errno:%d, %s''
          [AInt (snd (g_signal_pipefd s)), AInt (gt_errno s), AErrstr (gt_errno s)] s
      else s)"

text \<open>
  One byte is read into the uninitialised variable \<open>sig\<close>: its low byte is replaced, the other
  three keep the indeterminate contents of the stack.
\<close>

definition gt_signal_ops_read :: "addr \<Rightarrow> gt_state \<Rightarrow> (int \<times> gt_state) option" where
  "gt_signal_ops_read ge s = do {
     let junk = k_stack (kern s) (k_calls (kern s));
     gev \<leftarrow> gevents s ge;
     let pipefd = ge_efd gev;
     (ret, buf, k) \<leftarrow> sys_read pipefd 1 (kern s);
     let s = s\<lparr>kern := k\<rparr>;
     if ret = 1 then
       (let sig = sint ((junk AND NOT 0xFF) OR ucast (hd buf)) in
        if sig \<in> set (map sig_num [GT_SIGHUP, GT_SIGQUIT, GT_SIGUSR1, GT_SIGUSR2]) then
          Some (GT_OK, gt_process_snap sig s)
        else if sig \<in> set (map sig_num [GT_SIGILL, GT_SIGABRT, GT_SIGBUS, GT_SIGFPE, GT_SIGSEGV, GT_SIGSYS]) then
          Some (GT_OK, gt_process_dump sig s)
        else Some (GT_OK, s))
     else if ret = 0 then Some (GT_OK, s)
     else Some (GT_ERROR, GT_ERROR_LOG GT_MOD_CORE ''Failed to get Signal from pipefd, errno:%d, %s''
                            [AInt (gt_errno s), AErrstr (gt_errno s)] s) }"

subsection \<open>Backtraces\<close>

abbreviation NUL :: char where "NUL \<equiv> CHR 0x00"

text \<open>\<open>strrchr\<close>: the last position of a character; the terminator counts.\<close>

definition strrchr :: "string \<Rightarrow> char \<Rightarrow> nat option" where
  "strrchr src c = (case filter (\<lambda>i. (src @ [NUL]) ! i = c) [0..<Suc (length src)] of
       [] \<Rightarrow> None
     | is \<Rightarrow> Some (last is))"

text \<open>\<open>strncpy\<close> writes exactly \<open>n\<close> bytes: the string, cut or padded with zeros.\<close>

definition strncpy :: "string \<Rightarrow> nat \<Rightarrow> string \<Rightarrow> nat \<Rightarrow> string option" where
  "strncpy buf off src n =
     (if off + n \<le> length buf then Some (take off buf @ take n (src @ replicate n NUL) @ drop (off + n) buf)
      else None)"

text \<open>
  \<open>dst\<close> is the address of the byte at \<open>off\<close> in \<open>buf\<close>. When one of the delimiters is missing
  the difference of pointers and the copy are undefined; a negative length becomes a huge
  \<open>size_t\<close>, so the copy runs out of the buffer.
\<close>

definition gt_strcut :: "string \<Rightarrow> nat \<Rightarrow> string \<Rightarrow> char \<Rightarrow> char \<Rightarrow> bool \<Rightarrow> (int \<times> string) option" where
  "gt_strcut buf off src cstart cend flag = do {
     b \<leftarrow> strrchr src cstart;
     e \<leftarrow> strrchr src cend;
     let sub_len = int e - int b + 1;
     if sub_len < 0 then None
     else do {
       buf \<leftarrow> strncpy buf off (drop (if flag then b else b + 1) src) (nat sub_len);
       if off + nat sub_len < length buf
       then Some (sub_len, buf[off + nat sub_len := NUL])
       else None } }"

definition GT_BACKTRACE_BUF_SIZE :: nat where "GT_BACKTRACE_BUF_SIZE = 128"

definition dprintf :: "fd \<Rightarrow> string \<Rightarrow> gt_state \<Rightarrow> gt_state" where
  "dprintf fd str s = snd (lift_k (sys_write fd (to_bytes str)) s)"

definition c_str :: "string \<Rightarrow> string" where
  "c_str buf = takeWhile (\<lambda>c. c \<noteq> NUL) buf"

fun print_frames :: "string list \<Rightarrow> string \<Rightarrow> gt_state \<Rightarrow> gt_state option" where
  "print_frames [] frame s = Some s"
| "print_frames (str # strs) frame s = do {
     (strnum, frame) \<leftarrow> gt_strcut frame 0 str (CHR ''['') (CHR '']'') True;
     (_, frame) \<leftarrow> gt_strcut frame (nat strnum) str (CHR ''('') (CHR '')'') True;
     print_frames strs frame (dprintf (g_gt_log_fd s) (c_str frame @ [CHR 0x0A]) s) }"

text \<open>
  \<open>strings\<close> is the answer of \<open>backtrace_symbols\<close>: one string per frame, or \<open>None\<close> for the null
  pointer it returns when there is no memory, which the loop reads through without a check.
\<close>

definition gt_backtrace_print :: "string list option \<Rightarrow> int \<Rightarrow> gt_state \<Rightarrow> gt_state option" where
  "gt_backtrace_print strings sig s = do {
     let s = dprintf (g_gt_log_fd s) (''Calltrace: Catch Signal '' @ int_dec sig @ [CHR 0x0A]) s;
     strs \<leftarrow> strings;
     print_frames strs (replicate GT_BACKTRACE_BUF_SIZE NUL) s }"

subsection \<open>Handlers and registration\<close>

definition gt_signal_routine :: "string list option \<Rightarrow> int \<Rightarrow> gt_state \<Rightarrow> gt_state option" where
  "gt_signal_routine strings sig s = do {
     let save_errno = gt_errno s;
     s \<leftarrow> (if sig \<in> set (map sig_num [GT_SIGHUP, GT_SIGQUIT, GT_SIGUSR1, GT_SIGUSR2]) then Some s
          else if sig \<in> set (map sig_num [GT_SIGILL, GT_SIGABRT, GT_SIGBUS, GT_SIGFPE, GT_SIGSEGV, GT_SIGSYS])
          then gt_backtrace_print strings sig s
          else Some s);
     let s = gt_signal_deliver sig s;
     Some (s\<lparr>kern := (kern s)\<lparr>k_errno := save_errno\<rparr>\<rparr>) }"

definition gt_add_signal_handler :: "int \<Rightarrow> sig_handler \<Rightarrow> gt_state \<Rightarrow> int \<times> gt_state" where
  "gt_add_signal_handler sig hdl s =
     (let (ret, s) = lift_k (sys_sigaction sig hdl) s in
      if ret \<noteq> GT_OK then
        (ret, GT_ERROR_LOG GT_MOD_CORE ''Failed to add signal handler! errno:%d, %s''
                [AInt (gt_errno s), AErrstr (gt_errno s)] s)
      else (GT_OK, s))"

fun register_handlers :: "string \<Rightarrow> gt_sig list \<Rightarrow> gt_state \<Rightarrow> int \<times> gt_state" where
  "register_handlers msg [] s = (GT_OK, s)"
| "register_handlers msg (sig # sigs) s =
     (let s = GT_INFO_LOG GT_MOD_CORE ''Set handle to user sig:%d'' [AInt (sig_num sig)] s;
          (ret, s) = gt_add_signal_handler (sig_num sig) SIG_HANDLER s in
      if ret \<noteq> GT_OK then (ret, GT_ERROR_LOG GT_MOD_CORE msg [] s)
      else register_handlers msg sigs s)"

definition gt_signal_register_custom :: "gt_state \<Rightarrow> int \<times> gt_state" where
  "gt_signal_register_custom = register_handlers ''Failed to register user signal handler!'' g_gt_sig_custom"

definition gt_signal_register_core :: "gt_state \<Rightarrow> int \<times> gt_state" where
  "gt_signal_register_core = register_handlers ''Failed to register core signal handler!'' g_gt_sig_core"

text \<open>\<open>sigaddset\<close> accepts the signal numbers 1 to 64 and cannot fail for another reason.\<close>

fun collect_sigset :: "gt_sig list \<Rightarrow> int list \<Rightarrow> gt_state \<Rightarrow> (int + int list) \<times> gt_state" where
  "collect_sigset [] sset s = (Inr sset, s)"
| "collect_sigset (sig # sigs) sset s =
     (if sig_num sig < 1 \<or> 64 < sig_num sig then
        (let s = s\<lparr>kern := (kern s)\<lparr>k_errno := EINVAL\<rparr>\<rparr> in
         (Inl (-1), GT_ERROR_LOG GT_MOD_CORE ''Failed to add igr_sig to set! errno:%d, %s''
                      [AInt (gt_errno s), AErrstr (gt_errno s)] s))
      else collect_sigset sigs (sset @ [sig_num sig]) s)"

definition gt_signal_register_ignore :: "gt_state \<Rightarrow> int \<times> gt_state" where
  "gt_signal_register_ignore s =
     (case collect_sigset g_gt_sig_ignore [] s of
        (Inl ret, s) \<Rightarrow> (ret, s)
      | (Inr igr_sig, s) \<Rightarrow>
         (let (ret, s) = lift_k (sys_sigblock igr_sig) s in
          if ret \<noteq> GT_OK then
            (ret, GT_ERROR_LOG GT_MOD_CORE ''Failed to set sigprocmask ! errno:%d, %s''
                    [AInt (gt_errno s), AErrstr (gt_errno s)] s)
          else (GT_OK, s)))"

definition gt_signal_phase1_func :: "gt_state \<Rightarrow> (int \<times> gt_state) option" where
  "gt_signal_phase1_func s = do {
     (ge, s) \<leftarrow> gt_poller_gevent_create (fst (g_signal_pipefd s)) g_gt_core_poller s;
     if ge = NULL then
       Some (GT_ERROR, GT_ERROR_LOG GT_MOD_CORE ''Failed to create gt_event for signal.'' [] s)
     else do {
       gev \<leftarrow> gevents s ge;
       let s = put_event ge (gev\<lparr>ge_ops := (ge_ops gev)\<lparr>op_read := Some FN_signal_ops_read\<rparr>\<rparr>) s;
       (ret, s) \<leftarrow> gt_poller_event_start EPOLLIN ge s;
       if ret \<noteq> GT_OK then Some (ret, s) else Some (GT_OK, s) } }"

definition gt_signal_handle_phase :: "gt_state \<Rightarrow> (int \<times> gt_state) option" where
  "gt_signal_handle_phase s = do {
     (ret, s) \<leftarrow> gt_phase_register GT_CMOD_SIGNAL GT_PHASE_1 (Some FN_signal_phase1_func) s;
     if ret \<noteq> GT_OK then Some (ret, s) else Some (GT_OK, s) }"

definition gt_signals_init :: "gt_state \<Rightarrow> (int \<times> gt_state) option" where
  "gt_signals_init s = do {
     let (_, s) = gt_signal_create_pipefd s;
     let (_, s) = gt_signal_register_custom s;
     let (_, s) = gt_signal_register_core s;
     let (_, s) = gt_signal_register_ignore s;
     (_, s) \<leftarrow> gt_signal_handle_phase s;
     Some (GT_OK, s) }"

subsection \<open>Calls through function pointers\<close>

definition ops_call :: "gt_fn \<Rightarrow> addr \<Rightarrow> gt_state \<Rightarrow> (int \<times> gt_state) option" where
  "ops_call fn = (case fn of
       FN_signal_ops_read \<Rightarrow> gt_signal_ops_read
     | FN_network_ops_read \<Rightarrow> gt_network_ops_read
     | FN_datanet_ops_read \<Rightarrow> gt_datanet_ops_read)"

definition phase_call :: "phase_fn \<Rightarrow> gt_state \<Rightarrow> (int \<times> gt_state) option" where
  "phase_call fn = (case fn of
       FN_core_phase0_func \<Rightarrow> gt_core_phase0_func
     | FN_signal_phase1_func \<Rightarrow> gt_signal_phase1_func
     | FN_network_phase1_func \<Rightarrow> gt_network_phase1_func
     | FN_network_phase2_func \<Rightarrow> gt_network_phase2_func)"


subsection \<open>Signal numbers in memory\<close>

lemma table_bytes:
  assumes "sg \<in> set g_gt_sig_custom \<or> sg \<in> set g_gt_sig_core"
  shows "int32_bytes (sig_num sg) = [of_int (sig_num sg), 0, 0, 0]" "uint (of_int (sig_num sg) :: u8) = sig_num sg"
    "sig_num sg \<noteq> 0"
  using assms by (auto simp: g_gt_sig_custom_def g_gt_sig_core_def int32_bytes_def)

text \<open>The value the handler sees: the byte it read under indeterminate upper bytes.\<close>

lemma seen_clean:
  fixes junk :: u32 and b :: u8
  assumes "junk AND NOT 0xFF = 0"
  shows "sint ((junk AND NOT 0xFF) OR ucast b) = uint b"
proof -
  have "uint b < 256" using uint_lt2p [of b] by simp
  then show ?thesis using assms by (simp add: sint_uint unsigned_ucast_eq signed_take_bit_eq_if_positive bit_iff_odd
    take_bit_eq_mod)
qed

lemma seen_dirty:
  fixes junk :: u32 and b :: u8
  assumes "sint ((junk AND NOT 0xFF) OR ucast b) = n" "0 \<le> n" "n < 256"
  shows "junk AND NOT 0xFF = 0"
proof (rule bit_word_eqI)
  fix i
  let ?w = "(junk AND NOT 0xFF) OR ucast b"
  have w: "?w = of_int n" using assms(1) by (metis of_int_sint scast_id)
  have m: "bit (0xFF :: u32) i \<longleftrightarrow> i < 8"
  proof -
    have "(0xFF :: u32) = mask 8" by (simp add: mask_eq_exp_minus_1)
    then show ?thesis by (simp only: bit_mask_iff) auto
  qed
  assume i: "i < LENGTH(32)"
  show "bit (junk AND NOT 0xFF) i = bit (0 :: u32) i"
  proof (cases "i < 8")
    case True
    then show ?thesis unfolding bit_and_iff bit_not_iff using m by (simp add: bot_fun_def)
  next
    case False
    then have "(2 :: int) ^ 8 \<le> 2 ^ i" by (intro power_increasing) simp_all
    then have "\<not> bit n i" using assms(2,3) by (simp add: bit_iff_odd div_pos_pos_trivial)
    then have "\<not> bit ?w i" unfolding w by (simp add: bit_word_of_int_iff)
    then show ?thesis by (simp add: bit_or_iff)
  qed
qed

lemma sys_read_byte:
  assumes "file_at k fd = Some f" "f_kind f = FK_pair peer" "f_rx f = b # bs" "fault_now k = None"
  shows "sys_read fd 1 k = Some (1, [b], put_file fd (f\<lparr>f_rx := bs\<rparr>) (next_call k))"
  using assms by (simp add: sys_read_def Let_def)

definition handled_numbers :: "int set" where
  "handled_numbers = sig_num ` (set g_gt_sig_custom \<union> set g_gt_sig_core)"

lemma handled_small: "n \<in> handled_numbers \<Longrightarrow> 0 < n \<and> n < 256"
  by (auto simp: handled_numbers_def g_gt_sig_custom_def g_gt_sig_core_def)

lemma read_unrecognised:
  assumes g: "gevents s ge = Some gev" and f: "file_at (kern s) (ge_efd gev) = Some f" "f_kind f = FK_pair peer"
    and rx: "f_rx f = b # bs" and nf: "fault_now (kern s) = None"
    and no: "sint ((k_stack (kern s) (k_calls (kern s)) AND NOT 0xFF) OR ucast b) \<notin> handled_numbers"
  shows "gt_signal_ops_read ge s =
    Some (GT_OK, s\<lparr>kern := put_file (ge_efd gev) (f\<lparr>f_rx := bs\<rparr>) (next_call (kern s))\<rparr>)"
  using no g sys_read_byte [OF f rx nf]
  by (simp add: gt_signal_ops_read_def Let_def handled_numbers_def g_gt_sig_custom_def g_gt_sig_core_def)

subsection \<open>Properties of the signal path\<close>

text \<open>
  C27: a delivered signal arrives as four bytes but the handler reads one byte at a time into an
  uninitialised integer. The first byte is recognised exactly when the upper 24 bits of that
  variable happen to be zero, and then as the signal that was sent (a snapshot for the user signals,
  a dump for the core signals); each of the three zero bytes that follow takes another call of the
  handler, which does nothing.
\<close>

theorem signal_read_recognises:
  assumes g: "gevents s ge = Some gev" and f: "file_at (kern s) (ge_efd gev) = Some f" "f_kind f = FK_pair peer"
    and nf: "fault_now (kern s) = None"
    and sg: "sg \<in> set g_gt_sig_custom \<or> sg \<in> set g_gt_sig_core" "f_rx f = int32_bytes (sig_num sg) @ rest"
    and s1: "s1 = s\<lparr>kern := put_file (ge_efd gev) (f\<lparr>f_rx := [0, 0, 0] @ rest\<rparr>) (next_call (kern s))\<rparr>"
  shows "gt_signal_ops_read ge s = Some (GT_OK,
      if k_stack (kern s) (k_calls (kern s)) AND NOT 0xFF = 0
      then (if sg \<in> set g_gt_sig_custom then gt_process_snap else gt_process_dump) (sig_num sg) s1
      else s1) \<and>
    (\<forall>t h bs. gevents t ge = Some gev \<longrightarrow> file_at (kern t) (ge_efd gev) = Some h \<longrightarrow> f_kind h = FK_pair peer \<longrightarrow>
       fault_now (kern t) = None \<longrightarrow> f_rx h = 0 # bs \<longrightarrow>
       gt_signal_ops_read ge t =
         Some (GT_OK, t\<lparr>kern := put_file (ge_efd gev) (h\<lparr>f_rx := bs\<rparr>) (next_call (kern t))\<rparr>))"
proof (intro conjI allI impI)
  let ?j = "k_stack (kern s) (k_calls (kern s))" and ?n = "sig_num sg"
  have rx: "f_rx f = of_int ?n # [0, 0, 0] @ rest" using sg(2) table_bytes(1) [OF sg(1)] by simp
  show "gt_signal_ops_read ge s = Some (GT_OK, if ?j AND NOT 0xFF = 0
      then (if sg \<in> set g_gt_sig_custom then gt_process_snap else gt_process_dump) ?n s1 else s1)"
  proof (cases "?j AND NOT 0xFF = 0")
    case True
    then have "sint ((?j AND NOT 0xFF) OR ucast (of_int ?n :: u8)) = ?n"
      using seen_clean [of ?j "of_int ?n"] table_bytes(2) [OF sg(1)] by simp
    with True g sys_read_byte [OF f rx nf] sg(1) s1 show ?thesis
      by (auto simp: gt_signal_ops_read_def Let_def g_gt_sig_custom_def g_gt_sig_core_def)
  next
    case False
    then have "sint ((?j AND NOT 0xFF) OR ucast (of_int ?n :: u8)) \<notin> handled_numbers"
      using seen_dirty handled_small by (metis less_le)
    from read_unrecognised [OF g f rx nf this] False s1 show ?thesis by simp
  qed
next
  fix t :: gt_state and h :: ofile and bs
  assume t: "gevents t ge = Some gev" "file_at (kern t) (ge_efd gev) = Some h" "f_kind h = FK_pair peer"
    "fault_now (kern t) = None" "f_rx h = 0 # bs"
  let ?j = "k_stack (kern t) (k_calls (kern t))"
  have "sint ((?j AND NOT 0xFF) OR ucast (0 :: u8)) \<notin> handled_numbers"
  proof
    assume h: "sint ((?j AND NOT 0xFF) OR ucast (0 :: u8)) \<in> handled_numbers"
    with seen_dirty [of ?j 0] handled_small [OF h] have "?j AND NOT 0xFF = 0" by simp
    with seen_clean [of ?j 0] handled_small [OF h] show False by simp
  qed
  from read_unrecognised [OF t(1-3,5,4) this]
  show "gt_signal_ops_read ge t =
    Some (GT_OK, t\<lparr>kern := put_file (ge_efd gev) (h\<lparr>f_rx := bs\<rparr>) (next_call (kern t))\<rparr>)" .
qed

text \<open>A state with a signal pipe on descriptors 4 and 5 and an event on its read end.\<close>

definition pipe_state :: "u8 list \<Rightarrow> u32 \<Rightarrow> gt_state" where
  "pipe_state bytes junk = (boot_state (demo_kernel\<lparr>k_fds := replicate 3 (Some (new_file FK_file)) @
       [Some (new_file FK_epoll), Some ((new_file (FK_pair 5))\<lparr>f_rx := bytes\<rparr>), Some (new_file (FK_pair 4))],
       k_stack := (\<lambda>_. junk)\<rparr>))\<lparr>
     gevents := [0x800000 \<mapsto> created_event 4 g_gt_core_poller], g_signal_pipefd := (4, 5)\<rparr>"

lemma pipe_state_facts:
  "gevents (pipe_state bytes junk) 0x800000 = Some (created_event 4 g_gt_core_poller)"
  "file_at (kern (pipe_state bytes junk)) 4 = Some ((new_file (FK_pair 5))\<lparr>f_rx := bytes\<rparr>)"
  "file_at (kern (pipe_state bytes junk)) 5 = Some (new_file (FK_pair 4))"
  "fault_now (kern (pipe_state bytes junk)) = None" "k_stack (kern (pipe_state bytes junk)) n = junk"
  "g_signal_pipefd (pipe_state bytes junk) = (4, 5)" "gt_errno (pipe_state bytes junk) = 0"
  by (simp_all add: pipe_state_def boot_state_def demo_kernel_def boot_kernel_def file_at_def fault_now_def
      gt_errno_def nth_append)

theorem signal_read_recognises_witness:
  "\<exists>s1. gt_signal_ops_read 0x800000 (pipe_state [10, 0, 0, 0] 0x100) = Some (GT_OK, s1) \<and>
        k_log (kern s1) = [] \<and>
        gt_signal_ops_read 0x800000 (pipe_state [10, 0, 0, 0] 0) = Some (GT_OK, gt_process_snap 10
          ((pipe_state [10, 0, 0, 0] 0)\<lparr>kern := put_file 4 ((new_file (FK_pair 5))\<lparr>f_rx := [0, 0, 0]\<rparr>)
             (next_call (kern (pipe_state [10, 0, 0, 0] 0)))\<rparr>))"
proof -
  have b: "int32_bytes (sig_num GT_SIGUSR1) = [10, 0, 0, 0]" by code_simp
  have l: "k_log (kern (pipe_state bs j)) = []" for bs j
    by (simp add: pipe_state_def boot_state_def demo_kernel_def boot_kernel_def)
  have u: "GT_SIGUSR1 \<in> set g_gt_sig_custom \<or> GT_SIGUSR1 \<in> set g_gt_sig_core" "GT_SIGUSR1 \<in> set g_gt_sig_custom"
    by (simp_all add: g_gt_sig_custom_def)
  note F = pipe_state_facts
  have k: "f_kind ((new_file (FK_pair 5))\<lparr>f_rx := bs\<rparr>) = FK_pair 5" for bs by (simp add: new_file_def)
  have r: "gt_signal_ops_read 0x800000 (pipe_state [10, 0, 0, 0] j) = Some (GT_OK,
      if j AND NOT 0xFF = 0
      then gt_process_snap 10 ((pipe_state [10, 0, 0, 0] j)\<lparr>kern := put_file 4 ((new_file (FK_pair 5))\<lparr>f_rx := [0, 0, 0]\<rparr>)
             (next_call (kern (pipe_state [10, 0, 0, 0] j)))\<rparr>)
      else (pipe_state [10, 0, 0, 0] j)\<lparr>kern := put_file 4 ((new_file (FK_pair 5))\<lparr>f_rx := [0, 0, 0]\<rparr>)
             (next_call (kern (pipe_state [10, 0, 0, 0] j)))\<rparr>)" for j
    using signal_read_recognises [OF F(1) _ k F(4) u(1) _ refl, of "[10, 0, 0, 0]" j "[10, 0, 0, 0]" "[]"] F(2) b u(2) F(5)
    by simp
  show ?thesis using r [of "0x100"] r [of 0] l by (simp add: next_call_def)
qed


subsection \<open>The signal pipe\<close>

definition open_at :: "gt_state \<Rightarrow> fd \<Rightarrow> bool" where
  "open_at s fd \<longleftrightarrow> file_at (kern s) fd \<noteq> None"

lemma open_at_simps [simp]:
  "open_at (GT_ERROR_LOG md fmt a s) = open_at s" "open_at (s\<lparr>g_signal_pipefd := p\<rparr>) = open_at s"
  "open_at (s\<lparr>kern := (kern s)\<lparr>k_errno := e\<rparr>\<rparr>) = open_at s"
  by (simp_all add: open_at_def fun_eq_iff)

lemma open_at_close:
  "open_at (s\<lparr>kern := snd (sys_close fd (kern s))\<rparr>) a \<longleftrightarrow> open_at s a \<and> a \<noteq> fd"
proof (cases "file_at (kern s) fd")
  case (Some f)
  then show ?thesis by (auto simp: open_at_def file_at_sys_close(2) [OF Some])
qed (auto simp: open_at_def)

text \<open>What the flag calls do to the table: nothing, or one file gets new flags.\<close>

lemma set_nonblock_effect:
  assumes "gt_set_nonblock fd s = (r, s')"
  shows "open_at s' = open_at s" "g_signal_pipefd s' = g_signal_pipefd s"
    "r = GT_OK \<Longrightarrow> file_at (kern s) fd = Some f \<Longrightarrow>
      \<exists>fl. file_at (kern s') = (file_at (kern s))(fd \<mapsto> f\<lparr>f_flags := fl OR O_NONBLOCK\<rparr>)"
  using assms
  by (auto simp: gt_set_nonblock_def lift_k_eq Let_def sys_fcntl_getfl_def sys_fcntl_setfl_def syscall_def
      open_at_def GT_OK_def fun_eq_iff GT_ERROR_LOG_def frame_simps
      split: option.splits if_splits) (rule exI [of _ "-1"], simp)

lemma set_cloexec_effect:
  assumes "gt_set_cloexec fd s = (r, s')"
  shows "open_at s' = open_at s" "g_signal_pipefd s' = g_signal_pipefd s"
    "r = GT_OK \<Longrightarrow> file_at (kern s) fd = Some f \<Longrightarrow>
      \<exists>fl. file_at (kern s') = (file_at (kern s))(fd \<mapsto> f\<lparr>f_fdflags := fl OR FD_CLOEXEC\<rparr>)"
  using assms
  by (auto simp: gt_set_cloexec_def lift_k_eq Let_def sys_fcntl_getfd_def sys_fcntl_setfd_def syscall_def
      open_at_def GT_OK_def fun_eq_iff GT_ERROR_LOG_def frame_simps
      split: option.splits if_splits) (rule exI [of _ "-1"], simp)

lemma socketpair_ok:
  assumes "fault_now k = None" "sys_socketpair k = (r, fds, k')"
  obtains a b where "r = 0" "fds = Some (a, b)" "a \<noteq> b" "file_at k a = None" "file_at k b = None"
    "file_at k' = (file_at k)(a \<mapsto> new_file (FK_pair b), b \<mapsto> new_file (FK_pair a))"
proof -
  obtain a k1 where a: "alloc_fd (new_file FK_sock) (next_call k) = (a, k1)" by fastforce
  obtain b k2 where b: "alloc_fd (new_file (FK_pair a)) k1 = (b, k2)" by fastforce
  note A = alloc_fd_spec [OF a] and B = alloc_fd_spec [OF b]
  have k': "r = 0" "fds = Some (a, b)" "k' = put_file a (new_file (FK_pair b)) k2"
    using assms a b by (simp_all add: sys_socketpair_def)
  have ab: "a \<noteq> b" using A(3) B(2) by auto
  then have "file_at k2 a = Some (new_file FK_sock)" using A(3) B(3) by simp
  from file_at_put_fun [OF this] k'(3) A(3) B(3) ab
  have "file_at k' = (file_at k)(a \<mapsto> new_file (FK_pair b), b \<mapsto> new_file (FK_pair a))" by (auto simp: fun_eq_iff)
  with that [OF k'(1,2) ab] A(2,3) B(2) ab show ?thesis by simp
qed

text \<open>
  \<open>gt_signal_create_pipefd\<close> either succeeds, and then the globals hold two new descriptors
  that are each other's peer with the write end non-blocking and close-on-exec, or it fails and
  leaves exactly the descriptors open that were open before, whichever of its calls failed.
\<close>

theorem signal_pipe_no_leak:
  assumes "gt_signal_create_pipefd s = (r, s')"
  shows "if r = GT_OK
    then \<exists>a b fl fl'. g_signal_pipefd s' = (a, b) \<and> a \<noteq> b \<and> \<not> open_at s a \<and> \<not> open_at s b \<and>
       file_at (kern s') = (file_at (kern s))(a \<mapsto> new_file (FK_pair b),
         b \<mapsto> (new_file (FK_pair a))\<lparr>f_flags := fl OR O_NONBLOCK, f_fdflags := fl' OR FD_CLOEXEC\<rparr>)
    else open_at s' = open_at s"
proof (cases "fault_now (kern s)")
  case (Some e)
  with assms show ?thesis
    by (auto simp: gt_signal_create_pipefd_def gt_create_pipefd_def sys_socketpair_def Let_def GT_OK_def
        open_at_def GT_ERROR_LOG_def frame_simps fun_eq_iff)
next
  case None
  obtain r0 fds k where sp: "sys_socketpair (kern s) = (r0, fds, k)" by (cases "sys_socketpair (kern s)") auto
  from socketpair_ok [OF None sp] obtain a b where
    ab: "r0 = 0" "fds = Some (a, b)" "a \<noteq> b" "file_at (kern s) a = None" "file_at (kern s) b = None"
      "file_at k = (file_at (kern s))(a \<mapsto> new_file (FK_pair b), b \<mapsto> new_file (FK_pair a))" .
  let ?s1 = "s\<lparr>kern := k, g_signal_pipefd := (a, b)\<rparr>"
  have cp: "gt_create_pipefd (g_signal_pipefd s) s = (GT_OK, (a, b), s\<lparr>kern := k\<rparr>)"
    using sp ab(1,2) by (simp add: gt_create_pipefd_def GT_OK_def)
  have o1: "open_at ?s1 = (\<lambda>x. open_at s x \<or> x = a \<or> x = b)" using ab(6) by (auto simp: open_at_def fun_eq_iff)
  have cl: "open_at (t\<lparr>kern := snd (sys_close b (snd (sys_close a (kern t))))\<rparr>) = open_at s"
    if "open_at t = open_at ?s1" for t
    using that o1 ab(4,5) open_at_close [where s = "t\<lparr>kern := snd (sys_close a (kern t))\<rparr>" and fd = b]
      open_at_close [where s = t and fd = a]
    by (auto simp: fun_eq_iff open_at_def)
  obtain r2 s2 where n: "gt_set_nonblock b ?s1 = (r2, s2)" by fastforce
  note N = set_nonblock_effect [OF n]
  obtain r3 s3 where c: "gt_set_cloexec b s2 = (r3, s3)" by fastforce
  note C = set_cloexec_effect [OF c]
  note D = gt_signal_create_pipefd_def cp Let_def n c lift_k_eq N(2) C(2)
  consider "r2 \<noteq> GT_OK" | "r2 = GT_OK" "r3 \<noteq> GT_OK" | "r2 = GT_OK" "r3 = GT_OK" by blast
  then show ?thesis
  proof cases
    case 1
    have "r = r2" "s' = (let t = GT_ERROR_LOG GT_MOD_CORE ''Failed to set signal pipefd to nonblock!'' [] s2
        in t\<lparr>kern := snd (sys_close b (snd (sys_close a (kern t))))\<rparr>)"
      using assms 1 by (auto simp: D)
    with 1 cl N(1) show ?thesis by (simp add: Let_def)
  next
    case 2
    have "r = r3" "s' = (let t = GT_ERROR_LOG GT_MOD_CORE ''Failed to set signal pipefd to close-on-exec!'' [] s3
        in t\<lparr>kern := snd (sys_close b (snd (sys_close a (kern t))))\<rparr>)"
      using assms 2 by (auto simp: D)
    with 2 cl N(1) C(1) show ?thesis by (simp add: Let_def)
  next
    case 3
    then have "r = GT_OK" "s' = s3" using assms by (auto simp: D)
    moreover from N(3) [OF 3(1), of "new_file (FK_pair a)"] ab obtain fl where
      "file_at (kern s2) = (file_at k)(b \<mapsto> (new_file (FK_pair a))\<lparr>f_flags := fl OR O_NONBLOCK\<rparr>)" by auto
    moreover from C(3) [OF 3(2)] this obtain fl' where
      "file_at (kern s3) = (file_at (kern s2))(b \<mapsto> (new_file (FK_pair a))\<lparr>f_flags := fl OR O_NONBLOCK,
         f_fdflags := fl' OR FD_CLOEXEC\<rparr>)" by fastforce
    ultimately show ?thesis using ab N(2) C(2) by (auto simp: open_at_def)
  qed
qed

theorem signal_pipe_no_leak_witness:
  "\<exists>s'. gt_signal_create_pipefd (boot_state (boot_kernel [2 \<mapsto> EPERM] (\<lambda>_. 0))) = (-1, s') \<and>
        open_at s' = open_at (boot_state (boot_kernel [2 \<mapsto> EPERM] (\<lambda>_. 0)))"
proof -
  let ?s = "boot_state (boot_kernel [2 \<mapsto> EPERM] (\<lambda>_. 0))"
  have "fst (gt_signal_create_pipefd ?s) = -1" by code_simp
  then obtain s' where s': "gt_signal_create_pipefd ?s = (-1, s')" by (metis prod.collapse)
  with signal_pipe_no_leak [OF s'] show ?thesis by (simp add: GT_OK_def)
qed

subsection \<open>Cutting strings\<close>

lemma strrchr_last:
  assumes "c \<notin> set post" "c \<noteq> NUL"
  shows "strrchr (pre @ c # post) c = Some (length pre)"
proof -
  let ?s = "(pre @ c # post) @ [NUL]"
  let ?P = "\<lambda>i. ?s ! i = c"
  have "[0..<length pre + Suc (Suc (length post))] = [0..<length pre] @ [length pre..<length pre + Suc (Suc (length post))]"
    by (rule upt_add_eq_append) simp
  moreover have "[length pre..<length pre + Suc (Suc (length post))] =
      length pre # [Suc (length pre)..<Suc (length pre) + Suc (length post)]"
    by (subst upt_conv_Cons) simp_all
  moreover have "Suc (length (pre @ c # post)) = length pre + Suc (Suc (length post))" by simp
  ultimately have "[0..<Suc (length (pre @ c # post))] =
      [0..<length pre] @ length pre # [Suc (length pre)..<Suc (length pre) + Suc (length post)]" by presburger
  moreover have "filter ?P [Suc (length pre)..<Suc (length pre) + Suc (length post)] = []"
  proof (subst filter_empty_conv, intro ballI)
    fix i
    assume "i \<in> set [Suc (length pre)..<Suc (length pre) + Suc (length post)]"
    then obtain j where j: "i = Suc (length pre) + j" "j < Suc (length post)"
      by (metis add_diff_cancel_left' atLeastLessThan_iff le_Suc_ex nat_add_left_cancel_less set_upt)
    then have "?s ! i = (post @ [NUL]) ! j" by (simp add: nth_append)
    moreover have "(post @ [NUL]) ! j \<in> set (post @ [NUL])" using j by (intro nth_mem) simp
    ultimately show "?s ! i \<noteq> c" using assms by auto
  qed
  ultimately have f: "filter ?P [0..<Suc (length (pre @ c # post))] = filter ?P [0..<length pre] @ [length pre]"
    by (simp add: nth_append del: upt_Suc)
  show ?thesis unfolding strrchr_def f by (cases "filter ?P [0..<length pre]") simp_all
qed

lemma strrchr_absent: "c \<notin> set src \<Longrightarrow> c \<noteq> NUL \<Longrightarrow> strrchr src c = None"
  by (auto simp: strrchr_def filter_empty_conv nth_append less_Suc_eq in_set_conv_nth split: list.splits)

lemma strncpy_prefix:
  assumes "n \<le> length src" "off + n \<le> length buf"
  shows "strncpy buf off src n = Some (take off buf @ take n src @ drop (off + n) buf)"
  using assms by (simp add: strncpy_def)

lemma c_str_terminated: "NUL \<notin> set xs \<Longrightarrow> c_str (xs @ NUL # ys) = xs"
  by (simp add: c_str_def takeWhile_append)

text \<open>The buffer after a cut: the text at the offset, terminated, and the rest of the bytes.\<close>

lemma cut_at:
  assumes "off + n < length buf" "length txt = n"
  shows "(take off buf @ txt @ drop (off + n) buf)[off + n := NUL] = take off buf @ txt @ NUL # drop (Suc (off + n)) buf"
proof -
  have "drop (off + n) buf = buf ! (off + n) # drop (Suc (off + n)) buf" using assms(1) by (simp add: Cons_nth_drop_Suc)
  with assms show ?thesis by (simp add: list_update_append min_def)
qed

lemma strcut_flag:
  assumes src: "src = pre @ cs # mid @ ce # post" "cs \<notin> set (mid @ ce # post)" "ce \<notin> set post"
    and nul: "NUL \<notin> set src" and n: "n = length mid + 2"
  shows "strrchr src cs = Some (length pre)" "strrchr src ce = Some (length pre + length mid + 1)"
    "gt_strcut buf off src cs ce True =
      (if off + n < length buf then Some (int n, take off buf @ (cs # mid @ [ce]) @ NUL # drop (Suc (off + n)) buf) else None)"
proof -
  have ne: "cs \<noteq> NUL" "ce \<noteq> NUL" using src(1) nul by auto
  show b: "strrchr src cs = Some (length pre)" using strrchr_last [OF src(2) ne(1)] src(1) by simp
  show e: "strrchr src ce = Some (length pre + length mid + 1)"
    using strrchr_last [OF src(3) ne(2), of "pre @ cs # mid"] src(1) by simp
  have part: "take n (drop (length pre) src) = cs # mid @ [ce]" using src(1) n by simp
  show "gt_strcut buf off src cs ce True =
      (if off + n < length buf then Some (int n, take off buf @ (cs # mid @ [ce]) @ NUL # drop (Suc (off + n)) buf) else None)"
  proof (cases "off + n < length buf")
    case True
    have "strncpy buf off (drop (length pre) src) n = Some (take off buf @ (cs # mid @ [ce]) @ drop (off + n) buf)"
      using True src(1) n by (subst strncpy_prefix) (simp_all add: part)
    with True b e n cut_at [OF True, of "cs # mid @ [ce]"] show ?thesis
      by (simp add: gt_strcut_def Let_def nat_add_distrib)
  next
    case False
    have "nat (int (length mid) + 2) = n" using n by (simp add: nat_add_distrib)
    with False b e n show ?thesis
      by (auto simp: gt_strcut_def Let_def strncpy_def algebra_simps split: if_splits)
  qed
qed

text \<open>
  C29: on a string whose last opening delimiter is followed by its last closing one,
  \<open>gt_strcut\<close> with the flag set writes exactly the delimited part, delimiters included, as a
  terminated string at the destination and returns its length, if it fits in the buffer with its
  terminator; if not, it writes out of bounds. Without the flag it drops the opening delimiter but
  copies one character past the closing one. A missing delimiter makes it follow a null pointer.
\<close>

theorem strcut_extracts:
  assumes src: "src = pre @ cs # mid @ ce # post" "cs \<notin> set (mid @ ce # post)" "ce \<notin> set post"
    and nul: "NUL \<notin> set src" and n: "n = length mid + 2"
  shows "(if off + n < length buf
     then gt_strcut buf off src cs ce True =
            Some (int n, take off buf @ (cs # mid @ [ce]) @ NUL # drop (Suc (off + n)) buf) \<and>
          (\<exists>buf'. gt_strcut buf off src cs ce False = Some (int n, buf') \<and>
             c_str (drop off buf') = mid @ ce # take 1 post)
     else gt_strcut buf off src cs ce True = None) \<and>
    (c \<notin> set src \<and> c \<noteq> NUL \<longrightarrow> gt_strcut buf off src c ce flag = None \<and> gt_strcut buf off src cs c flag = None)"
proof -
  have ne: "NUL \<notin> set (mid @ ce # take 1 post)"
    using src(1) nul by (auto dest: in_set_takeD)
  note cut = strcut_flag [OF src nul n]
  note b = cut(1) and e = cut(2)
  have cut0: "\<exists>buf'. gt_strcut buf off src cs ce False = Some (int n, buf') \<and>
      c_str (drop off buf') = mid @ ce # take 1 post" if fit: "off + n < length buf"
  proof -
    let ?txt = "mid @ ce # take 1 (post @ [NUL])"
    have "take n (drop (length pre + 1) src @ replicate n NUL) = ?txt"
      using src(1) n by (cases post) simp_all
    then have "strncpy buf off (drop (length pre + 1) src) n = Some (take off buf @ ?txt @ drop (off + n) buf)"
      using fit by (simp add: strncpy_def)
    moreover have "length ?txt = n" using n by (cases post) simp_all
    ultimately have "gt_strcut buf off src cs ce False = Some (int n, take off buf @ ?txt @ NUL # drop (Suc (off + n)) buf)"
      using fit b e n cut_at [OF fit, of ?txt] by (simp add: gt_strcut_def Let_def nat_add_distrib)
    moreover have "c_str (drop off (take off buf @ ?txt @ NUL # drop (Suc (off + n)) buf)) = mid @ ce # take 1 post"
    proof (cases post)
      case Nil
      then show ?thesis using fit ne c_str_terminated [of "mid @ [ce]" "NUL # drop (Suc (off + n)) buf"] by simp
    next
      case (Cons p ps)
      then show ?thesis using fit ne c_str_terminated [of "mid @ [ce, p]" "drop (Suc (off + n)) buf"] by simp
    qed
    ultimately show ?thesis by blast
  qed
  have "gt_strcut buf off src c ce flag = None \<and> gt_strcut buf off src cs c flag = None"
    if "c \<notin> set src" "c \<noteq> NUL"
    using strrchr_absent [OF that] b by (simp add: gt_strcut_def)
  with cut(3) cut0 show ?thesis by simp
qed

theorem strcut_extracts_witness:
  "gt_strcut (replicate 8 NUL) 0 ''a[bc]d'' (CHR ''['') (CHR '']'') True = Some (4, ''[bc]'' @ replicate 4 NUL)"
  using strcut_extracts [of "''a[bc]d''" "''a''" "CHR ''[''" "''bc''" "CHR '']''" "''d''" 4 0 "replicate 8 NUL" NUL True]
  by (simp add: eval_nat_numeral)

subsection \<open>Printing a backtrace\<close>

text \<open>A line of \<open>backtrace_symbols\<close>: path, function and offset, address.\<close>

definition symbol_line :: "string \<Rightarrow> string \<Rightarrow> string \<Rightarrow> string" where
  "symbol_line path fn adr = path @ ''('' @ fn @ '') ['' @ adr @ '']''"

definition plain :: "string \<Rightarrow> bool" where
  "plain s \<longleftrightarrow> set s \<inter> {CHR ''('', CHR '')'', CHR ''['', CHR '']'', NUL} = {}"

text \<open>What is printed for a line, and when it fits in the frame buffer.\<close>

definition frame_text :: "string \<times> string \<times> string \<Rightarrow> string" where
  "frame_text l = (case l of (path, fn, adr) \<Rightarrow> ''['' @ adr @ '']('' @ fn @ '')'')"

definition frame_fits :: "string \<times> string \<times> string \<Rightarrow> bool" where
  "frame_fits l \<longleftrightarrow> length (frame_text l) < GT_BACKTRACE_BUF_SIZE"

definition wellformed_line :: "string \<times> string \<times> string \<Rightarrow> bool" where
  "wellformed_line l \<longleftrightarrow> (case l of (path, fn, adr) \<Rightarrow> NUL \<notin> set path \<and> plain fn \<and> plain adr)"

lemma print_one_frame:
  assumes wf: "wellformed_line l" and l: "l = (path, fn, adr)" and fr: "length frame = GT_BACKTRACE_BUF_SIZE"
  shows "frame_fits l \<Longrightarrow> \<exists>frame'. length frame' = GT_BACKTRACE_BUF_SIZE \<and>
      print_frames (symbol_line path fn adr # strs) frame s =
      print_frames strs frame' (dprintf (g_gt_log_fd s) (frame_text l @ [CHR 0x0A]) s)"
    and "\<not> frame_fits l \<Longrightarrow> print_frames (symbol_line path fn adr # strs) frame s = None"
proof -
  let ?src = "symbol_line path fn adr"
  from wf l have nul: "NUL \<notin> set ?src" and p: "plain fn" "plain adr"
    by (auto simp: wellformed_line_def symbol_line_def plain_def)
  have a: "gt_strcut buf off ?src (CHR ''['') (CHR '']'') True =
      (if off + (length adr + 2) < length buf
       then Some (int (length adr + 2), take off buf @ (CHR ''['' # adr @ '']'') @ NUL # drop (Suc (off + (length adr + 2))) buf)
       else None)" for buf off
    using p by (intro strcut_flag(3) [where pre = "path @ ''('' @ fn @ '') ''" and post = "[]", OF _ _ _ nul])
      (auto simp: symbol_line_def plain_def)
  have f: "gt_strcut buf off ?src (CHR ''('') (CHR '')'') True =
      (if off + (length fn + 2) < length buf
       then Some (int (length fn + 2), take off buf @ (CHR ''('' # fn @ '')'') @ NUL # drop (Suc (off + (length fn + 2))) buf)
       else None)" for buf off
    using p by (intro strcut_flag(3) [where pre = path and post = "'' ['' @ adr @ '']''", OF _ _ _ nul])
      (auto simp: symbol_line_def plain_def)
  have len: "length (frame_text l) = (length adr + 2) + (length fn + 2)" by (simp add: frame_text_def l)
  let ?n = "length adr + 2"
  let ?f1 = "(CHR ''['' # adr @ '']'') @ NUL # drop (Suc ?n) frame"
  have nn: "nat (int (length adr) + 2) = ?n" "nat (2 + int (length adr)) = ?n" by (simp_all add: nat_add_distrib)
  show "\<exists>frame'. length frame' = GT_BACKTRACE_BUF_SIZE \<and> print_frames (?src # strs) frame s =
      print_frames strs frame' (dprintf (g_gt_log_fd s) (frame_text l @ [CHR 0x0A]) s)" if fits: "frame_fits l"
  proof -
    have small: "?n + (length fn + 2) < length frame" using fits fr len by (simp add: frame_fits_def)
    let ?f2 = "take ?n ?f1 @ (CHR ''('' # fn @ '')'') @ NUL # drop (Suc (?n + (length fn + 2))) ?f1"
    have t: "take ?n ?f1 = CHR ''['' # adr @ '']''" by simp
    have "c_str ?f2 = frame_text l"
      using c_str_terminated [of "frame_text l" "drop (Suc (?n + (length fn + 2))) ?f1"] p
      by (simp add: t frame_text_def l plain_def)
    moreover have "length ?f2 = GT_BACKTRACE_BUF_SIZE" using small fr by simp
    moreover have "length ?f1 = length frame" using small by simp
    ultimately show ?thesis
      using small a [of frame 0] f [of ?f1 ?n] nn by (intro exI [of _ ?f2]) simp
  qed
  show "print_frames (?src # strs) frame s = None" if nofit: "\<not> frame_fits l"
  proof (cases "?n < length frame")
    case True
    then have "length ?f1 = length frame" by simp
    with True nofit fr len a [of frame 0] f [of ?f1 ?n] nn show ?thesis by (simp add: frame_fits_def)
  next
    case False
    with a [of frame 0] show ?thesis by simp
  qed
qed

text \<open>
  C30: \<open>gt_backtrace_print\<close> on well-formed symbol lines prints the heading and then, for each
  frame, the address followed by the function, as long as the two parts of every line fit in the
  128 byte buffer; with a longer symbol name it writes past the buffer, and when there is no memory
  for the symbols it reads through a null pointer.
\<close>

theorem backtrace_prints:
  assumes wf: "\<forall>l \<in> set ls. wellformed_line l"
  shows "gt_backtrace_print None sig s = None \<and>
    gt_backtrace_print (Some (map (\<lambda>(path, fn, adr). symbol_line path fn adr) ls)) sig s =
    (if \<forall>l \<in> set ls. frame_fits l
     then Some (fold (\<lambda>txt t. dprintf (g_gt_log_fd t) (txt @ [CHR 0x0A]) t)
                  ((''Calltrace: Catch Signal '' @ int_dec sig) # map frame_text ls) s)
     else None)"
proof -
  have "print_frames (map (\<lambda>(path, fn, adr). symbol_line path fn adr) ls) frame t =
      (if \<forall>l \<in> set ls. frame_fits l
       then Some (fold (\<lambda>txt t. dprintf (g_gt_log_fd t) (txt @ [CHR 0x0A]) t) (map frame_text ls) t) else None)"
    if "length frame = GT_BACKTRACE_BUF_SIZE" for frame t
    using wf that
  proof (induction ls arbitrary: frame t)
    case (Cons l ls)
    obtain path fn adr where l: "l = (path, fn, adr)" by (cases l) auto
    from Cons.prems have w: "wellformed_line l" by simp
    note P = print_one_frame [OF w l Cons.prems(2), of "map (\<lambda>(path, fn, adr). symbol_line path fn adr) ls" t]
    show ?case
    proof (cases "frame_fits l")
      case True
      from P(1) [OF True] obtain frame' where f: "length frame' = GT_BACKTRACE_BUF_SIZE"
        "print_frames (symbol_line path fn adr # map (\<lambda>(path, fn, adr). symbol_line path fn adr) ls) frame t =
         print_frames (map (\<lambda>(path, fn, adr). symbol_line path fn adr) ls) frame'
           (dprintf (g_gt_log_fd t) (frame_text l @ [CHR 0x0A]) t)" by blast
      from Cons.IH [OF _ f(1)] Cons.prems(1) True f(2) l show ?thesis by (simp del: print_frames.simps)
    next
      case False
      with P(2) [OF False] l show ?thesis by (simp del: print_frames.simps)
    qed
  qed simp
  then show ?thesis by (simp add: gt_backtrace_print_def Let_def)
qed

theorem backtrace_prints_witness:
  "gt_backtrace_print (Some [symbol_line ''/usr/bin/gt'' (replicate 120 (CHR ''f'')) ''0x400b2d'']) 11 demo_state = None"
proof -
  let ?l = "(''/usr/bin/gt'', replicate 120 (CHR ''f''), ''0x400b2d'')"
  have "wellformed_line ?l" "\<not> frame_fits ?l"
    by (auto simp: wellformed_line_def plain_def frame_fits_def frame_text_def GT_BACKTRACE_BUF_SIZE_def)
  with backtrace_prints [of "[?l]" 11 demo_state] show ?thesis by simp
qed


subsection \<open>Delivery\<close>

lemma write_pair:
  assumes "fault_now k = None" "file_at k b = Some w" "f_kind w = FK_pair a" "file_at k a = Some f"
  shows "sys_write b bs k = (int (length bs), put_file a (f\<lparr>f_rx := f_rx f @ bs\<rparr>) (next_call k))"
  using assms by (simp add: sys_write_def syscall_ok)

text \<open>
  C31: \<open>gt_signal_routine\<close> always restores \<open>errno\<close>, whatever signal it is called for and
  whichever of its calls fail; for a user signal it returns, and with a working pipe it appends
  the four bytes of the signal number to the read end.
\<close>

theorem signal_routine_delivers:
  assumes sg: "sg \<in> set g_gt_sig_custom" and nf: "fault_now (kern s) = None"
    and p: "g_signal_pipefd s = (a, b)" "file_at (kern s) b = Some w" "f_kind w = FK_pair a" "file_at (kern s) a = Some f"
  shows "(\<forall>strs sig t t'. gt_signal_routine strs sig t = Some t' \<longrightarrow> gt_errno t' = gt_errno t) \<and>
    (\<exists>s'. gt_signal_routine strs (sig_num sg) s = Some s' \<and>
       file_at (kern s') a = Some (f\<lparr>f_rx := f_rx f @ [of_int (sig_num sg), 0, 0, 0]\<rparr>))"
proof -
  have "gt_errno t' = gt_errno t" if "gt_signal_routine strs sig t = Some t'" for strs sig t t'
    using that by (auto simp: gt_signal_routine_def Let_def bind_eq_Some_conv gt_errno_def split: if_splits)
  moreover have "\<exists>s'. gt_signal_routine strs (sig_num sg) s = Some s' \<and>
       file_at (kern s') a = Some (f\<lparr>f_rx := f_rx f @ [of_int (sig_num sg), 0, 0, 0]\<rparr>)"
  proof -
    have m: "sig_num sg \<in> set (map sig_num [GT_SIGHUP, GT_SIGQUIT, GT_SIGUSR1, GT_SIGUSR2])"
      using sg by (auto simp: g_gt_sig_custom_def)
    have b: "int32_bytes (sig_num sg) = [of_int (sig_num sg), 0, 0, 0]" using table_bytes(1) sg by blast
    from write_pair [OF nf p(2-4), of "int32_bytes (sig_num sg)"] m p(1,4) b show ?thesis
      by (simp add: gt_signal_routine_def gt_signal_deliver_def lift_k_eq Let_def file_at_put_fun)
  qed
  ultimately show ?thesis by blast
qed

theorem signal_routine_delivers_witness:
  "\<exists>s'. gt_signal_routine (Some []) 10 (pipe_state [] 0) = Some s' \<and>
        file_at (kern s') 4 = Some ((new_file (FK_pair 5))\<lparr>f_rx := [10, 0, 0, 0]\<rparr>)"
proof -
  have u: "GT_SIGUSR1 \<in> set g_gt_sig_custom" by (simp add: g_gt_sig_custom_def)
  have k: "f_kind (new_file (FK_pair 4)) = FK_pair 4" "f_rx (new_file kd) = []" for kd by (simp_all add: new_file_def)
  note f = pipe_state_facts [of "[]" 0]
  from signal_routine_delivers [OF u f(4,6,3) k(1) f(2), of "Some []"] show ?thesis by simp
qed

subsection \<open>Initialisation\<close>

definition same_handlers :: "gt_state \<Rightarrow> gt_state \<Rightarrow> bool" where
  "same_handlers s s' \<longleftrightarrow> k_handlers (kern s') = k_handlers (kern s) \<and> k_sigmask (kern s') = k_sigmask (kern s) \<and>
     k_fault (kern s') = k_fault (kern s) \<and> g_gt_phase s' = g_gt_phase s"

lemma same_handlers_refl [simp]: "same_handlers s s"
  by (simp add: same_handlers_def)

lemma same_handlers_trans: "same_handlers s t \<Longrightarrow> same_handlers t u \<Longrightarrow> same_handlers s u"
  by (simp add: same_handlers_def)

lemma same_handlers_log [simp]:
  "same_handlers s (GT_ERROR_LOG md fmt a s)" "same_handlers s (GT_INFO_LOG md fmt a s)"
  by (auto simp: same_handlers_def GT_ERROR_LOG_def GT_INFO_LOG_def log_call_def Let_def split: option.splits)

lemma same_handlers_kern:
  "k_handlers k = k_handlers (kern s) \<Longrightarrow> k_sigmask k = k_sigmask (kern s) \<Longrightarrow> k_fault k = k_fault (kern s) \<Longrightarrow>
   same_handlers s (s\<lparr>kern := k\<rparr>)"
  by (simp add: same_handlers_def)

lemma same_handlers_io [simp]:
  "same_handlers s (snd (lift_k (sys_close fd) s))"
  "same_handlers s (snd (lift_k (sys_fcntl_getfl fd) s))" "same_handlers s (snd (lift_k (sys_fcntl_setfl fd fl) s))"
  "same_handlers s (snd (lift_k (sys_fcntl_getfd fd) s))" "same_handlers s (snd (lift_k (sys_fcntl_setfd fd fl) s))"
  "same_handlers s (s\<lparr>kern := snd (snd (sys_socketpair (kern s)))\<rparr>)" "same_handlers s (s\<lparr>g_signal_pipefd := p\<rparr>)"
  by (auto simp: lift_k_eq same_handlers_def sys_close_def sys_fcntl_getfl_def sys_fcntl_setfl_def sys_fcntl_getfd_def
      sys_fcntl_setfd_def syscall_def sys_fail_def sys_socketpair_def alloc_fd_def Let_def put_file_def
      split: option.splits)

lemma same_handlers_flags:
  "same_handlers s (snd (gt_set_nonblock fd s))" "same_handlers s (snd (gt_set_cloexec fd s))"
  "same_handlers s (snd (snd (gt_create_pipefd p s)))"
  by (auto simp: gt_set_nonblock_def gt_set_cloexec_def gt_create_pipefd_def Let_def case_prod_unfold
      intro: same_handlers_trans [OF _ same_handlers_log(1)] same_handlers_trans [OF same_handlers_io(2) same_handlers_io(3)]
        same_handlers_trans [OF same_handlers_io(4) same_handlers_io(5)])

lemma same_handlers_pipe: "same_handlers s (snd (gt_signal_create_pipefd s))"
proof -
  define t1 where "t1 = (snd (snd (gt_create_pipefd (g_signal_pipefd s) s)))\<lparr>g_signal_pipefd := fst (snd (gt_create_pipefd (g_signal_pipefd s) s))\<rparr>"
  have 1: "same_handlers s t1" unfolding t1_def by (rule same_handlers_trans [OF same_handlers_flags(3) same_handlers_io(7)])
  define t2 where "t2 = snd (gt_set_nonblock (snd (g_signal_pipefd t1)) t1)"
  have 2: "same_handlers s t2" unfolding t2_def by (rule same_handlers_trans [OF 1 same_handlers_flags(1)])
  define t3 where "t3 = snd (gt_set_cloexec (snd (g_signal_pipefd t2)) t2)"
  have 3: "same_handlers s t3" unfolding t3_def by (rule same_handlers_trans [OF 2 same_handlers_flags(2)])
  have cl: "same_handlers s (snd (lift_k (sys_close b) (snd (lift_k (sys_close a) (GT_ERROR_LOG md fmt l t)))))"
    if "same_handlers s t" for a b md fmt l t
    using that same_handlers_trans same_handlers_log(1) same_handlers_io(1) by meson
  have lg: "same_handlers s (GT_ERROR_LOG md fmt l t1)" for md fmt l
    by (rule same_handlers_trans [OF 1]) simp
  show ?thesis
    using lg cl [OF 2] cl [OF 3] 3
    by (simp add: gt_signal_create_pipefd_def Let_def case_prod_unfold t1_def [symmetric] t2_def [symmetric] t3_def [symmetric])
qed

lemma handlers_log [simp]:
  "k_handlers (kern (GT_ERROR_LOG md fmt a u)) = k_handlers (kern u)"
  "k_sigmask (kern (GT_ERROR_LOG md fmt a u)) = k_sigmask (kern u)"
  "k_handlers (kern (GT_INFO_LOG md fmt a u)) = k_handlers (kern u)"
  "k_sigmask (kern (GT_INFO_LOG md fmt a u)) = k_sigmask (kern u)"
  using same_handlers_log [of u md fmt a] by (simp_all add: same_handlers_def)

lemma add_handler_frame [simp]:
  "g_gt_phase (snd (gt_add_signal_handler sig h s)) = g_gt_phase s"
  "k_fault (kern (snd (gt_add_signal_handler sig h s))) = k_fault (kern s)"
  "k_sigmask (kern (snd (gt_add_signal_handler sig h s))) = k_sigmask (kern s)"
  by (auto simp: gt_add_signal_handler_def lift_k_eq Let_def sys_sigaction_def syscall_def sys_fail_def
      split: option.splits)

lemma register_handlers_effect:
  "g_gt_phase (snd (register_handlers msg sigs s)) = g_gt_phase s \<and>
   k_fault (kern (snd (register_handlers msg sigs s))) = k_fault (kern s) \<and>
   k_sigmask (kern (snd (register_handlers msg sigs s))) = k_sigmask (kern s)"
proof (induction sigs arbitrary: s)
  case (Cons sg sigs)
  let ?t = "snd (gt_add_signal_handler (sig_num sg) SIG_HANDLER
              (GT_INFO_LOG GT_MOD_CORE ''Set handle to user sig:%d'' [AInt (sig_num sg)] s))"
  from Cons [of ?t] show ?case by (simp add: Let_def case_prod_unfold)
qed simp

lemma register_handlers_installs:
  assumes "no_faults (kern s)" "\<forall>sg \<in> set sigs. sig_num sg \<noteq> SIGKILL \<and> sig_num sg \<noteq> SIGSTOP"
  shows "k_handlers (kern (snd (register_handlers msg sigs s))) =
    (\<lambda>n. if n \<in> sig_num ` set sigs then SIG_HANDLER else k_handlers (kern s) n)"
  using assms
proof (induction sigs arbitrary: s)
  case (Cons sg sigs)
  let ?s = "GT_INFO_LOG GT_MOD_CORE ''Set handle to user sig:%d'' [AInt (sig_num sg)] s"
  obtain r t where t: "gt_add_signal_handler (sig_num sg) SIG_HANDLER ?s = (r, t)" by fastforce
  have "1 \<le> sig_num sg" "sig_num sg \<le> 64" by (cases sg, simp_all)+
  moreover have "fault_now (kern ?s) = None" using Cons.prems(1) by (simp add: no_faults_def fault_now_def)
  ultimately have E: "r = GT_OK" "k_handlers (kern t) = (k_handlers (kern s))(sig_num sg := SIG_HANDLER)"
    using t Cons.prems(2) by (auto simp: gt_add_signal_handler_def lift_k_eq sys_sigaction_def syscall_ok GT_OK_def
        split: if_splits)
  have "no_faults (kern t)"
    using Cons.prems(1) add_handler_frame(2) [of "sig_num sg" SIG_HANDLER ?s] t by (simp add: no_faults_def)
  from Cons.IH [OF this] Cons.prems(2) have
    "k_handlers (kern (snd (register_handlers msg sigs t))) =
       (\<lambda>n. if n \<in> sig_num ` set sigs then SIG_HANDLER else k_handlers (kern t) n)" by simp
  with t E show ?case by (auto simp: Let_def fun_eq_iff)
qed simp

lemma collect_all: "collect_sigset sigs sset s = (Inr (sset @ map sig_num sigs), s)"
proof (induction sigs arbitrary: sset)
  case (Cons sg sigs)
  have "\<not> (sig_num sg < 1 \<or> 64 < sig_num sg)" by (cases sg) simp_all
  with Cons show ?case by simp
qed simp

lemma register_ignore_effect:
  "g_gt_phase (snd (gt_signal_register_ignore s)) = g_gt_phase s"
  "k_handlers (kern (snd (gt_signal_register_ignore s))) = k_handlers (kern s)"
  "no_faults (kern s) \<Longrightarrow> sig_num ` set g_gt_sig_ignore \<subseteq> set (k_sigmask (kern (snd (gt_signal_register_ignore s))))"
proof -
  show "g_gt_phase (snd (gt_signal_register_ignore s)) = g_gt_phase s"
    "k_handlers (kern (snd (gt_signal_register_ignore s))) = k_handlers (kern s)"
    by (auto simp: gt_signal_register_ignore_def collect_all lift_k_eq Let_def sys_sigblock_def syscall_def sys_fail_def
        split: option.splits)
  assume nf: "no_faults (kern s)"
  have "\<forall>sg \<in> set g_gt_sig_ignore. sig_num sg \<noteq> SIGKILL \<and> sig_num sg \<noteq> SIGSTOP"
    by (simp add: g_gt_sig_ignore_def SIGKILL_def SIGSTOP_def)
  with nf show "sig_num ` set g_gt_sig_ignore \<subseteq> set (k_sigmask (kern (snd (gt_signal_register_ignore s))))"
    by (auto simp: gt_signal_register_ignore_def collect_all lift_k_eq sys_sigblock_def syscall_ok GT_OK_def)
qed

text \<open>
  C32: \<open>gt_signals_init\<close> discards every result and always reports success. When no call fails,
  exactly the user and core signals have the handler installed and all signals of the ignore table
  are blocked (not ignored), and the start-up function is registered if its slot was free.
\<close>

theorem signals_init_ok:
  assumes tab: "phase_table_ok s"
  shows "\<exists>s'. gt_signals_init s = Some (GT_OK, s') \<and>
    (registered s GT_PHASE_1 GT_CMOD_SIGNAL = None \<longrightarrow>
       registered s' GT_PHASE_1 GT_CMOD_SIGNAL = Some FN_signal_phase1_func) \<and>
    (no_faults (kern s) \<longrightarrow>
       k_handlers (kern s') = (\<lambda>n. if n \<in> handled_numbers then SIG_HANDLER else k_handlers (kern s) n) \<and>
       sig_num ` set g_gt_sig_ignore \<subseteq> set (k_sigmask (kern s')))"
proof -
  let ?s1 = "snd (gt_signal_create_pipefd s)"
  let ?s2 = "snd (gt_signal_register_custom ?s1)"
  let ?s3 = "snd (gt_signal_register_core ?s2)"
  let ?s4 = "snd (gt_signal_register_ignore ?s3)"
  note P = same_handlers_pipe [of s, unfolded same_handlers_def]
  note H = register_handlers_effect
  have ph: "g_gt_phase ?s4 = g_gt_phase s"
    using P by (simp add: register_ignore_effect gt_signal_register_core_def gt_signal_register_custom_def H)
  then have ok: "phase_table_ok ?s4" and rg: "registered ?s4 = registered s"
    using tab phase_table_frame registered_frame by blast+
  have v: "\<forall>sg \<in> set g_gt_sig_custom. sig_num sg \<noteq> SIGKILL \<and> sig_num sg \<noteq> SIGSTOP"
    "\<forall>sg \<in> set g_gt_sig_core. sig_num sg \<noteq> SIGKILL \<and> sig_num sg \<noteq> SIGSTOP"
    by (simp_all add: g_gt_sig_custom_def g_gt_sig_core_def SIGKILL_def SIGSTOP_def)
  have eff: "k_handlers (kern ?s4) = (\<lambda>n. if n \<in> handled_numbers then SIG_HANDLER else k_handlers (kern s) n) \<and>
      sig_num ` set g_gt_sig_ignore \<subseteq> set (k_sigmask (kern ?s4))" if nf: "no_faults (kern s)"
  proof -
    have n1: "no_faults (kern ?s1)" using nf P by (simp add: no_faults_def)
    then have n2: "no_faults (kern ?s2)" by (simp add: no_faults_def gt_signal_register_custom_def H)
    then have n3: "no_faults (kern ?s3)" by (simp add: no_faults_def gt_signal_register_core_def H)
    have "k_handlers (kern ?s4) = (\<lambda>n. if n \<in> handled_numbers then SIG_HANDLER else k_handlers (kern s) n)"
      using register_handlers_installs [OF n1 v(1)] register_handlers_installs [OF n2 v(2)] P
      by (auto simp: register_ignore_effect(2) gt_signal_register_custom_def gt_signal_register_core_def
          handled_numbers_def fun_eq_iff)
    with register_ignore_effect(3) [OF n3] show ?thesis by blast
  qed
  let ?s5 = "?s4\<lparr>g_gt_phase := (g_gt_phase ?s4)[phase_idx GT_PHASE_1 := (g_gt_phase ?s4 ! phase_idx GT_PHASE_1)
      \<lparr>pi_fn := (pi_fn (g_gt_phase ?s4 ! phase_idx GT_PHASE_1))[cmod_idx GT_CMOD_SIGNAL := Some FN_signal_phase1_func]\<rparr>]\<rparr>"
  have D: "gt_signals_init s = gt_signal_handle_phase ?s4 \<bind> (\<lambda>(_, s). Some (GT_OK, s))"
    by (simp add: gt_signals_init_def Let_def case_prod_unfold)
  have E: "gt_phase_register GT_CMOD_SIGNAL GT_PHASE_1 (Some FN_signal_phase1_func) ?s4 =
      (if registered s GT_PHASE_1 GT_CMOD_SIGNAL \<noteq> None then
         Some (GT_ERROR, GT_ERROR_LOG GT_MOD_CORE
               ''Warning: Phase_fn of the cmod[%d] at phase[%d] has been registered!''
               [AInt (int (cmod_idx GT_CMOD_SIGNAL)), AInt (int (phase_idx GT_PHASE_1))] ?s4)
       else Some (GT_OK, ?s5))"
    using phase_register_eval [OF ok, of GT_PHASE_1 GT_CMOD_SIGNAL] rg by simp
  show ?thesis
  proof (cases "registered s GT_PHASE_1 GT_CMOD_SIGNAL")
    case None
    have "registered ?s5 GT_PHASE_1 GT_CMOD_SIGNAL = Some FN_signal_phase1_func"
      using registered_update(2) [OF ok _ _ refl, of GT_PHASE_1 GT_CMOD_SIGNAL] by simp
    with None D E eff show ?thesis by (simp add: gt_signal_handle_phase_def)
  next
    case (Some fn)
    with D E eff same_handlers_log(1) [of ?s4] show ?thesis
      by (simp add: gt_signal_handle_phase_def same_handlers_def)
  qed
qed

theorem signals_init_ok_witness:
  "\<exists>s'. gt_signals_init (boot_state (boot_kernel (\<lambda>_. Some EPERM) (\<lambda>_. 0))) = Some (GT_OK, s')"
  using signals_init_ok [OF phase_table_ok_boot] by blast

end
