(* ===== verification/GT_Events.thy ===== *)
theory GT_Events
  imports GT_Signal
begin

text \<open>
  The event system as a whole: the kernel's epoll sets hold raw pointers to events, and the
  dispatch loop of the pollers follows them. This theory states what the loop relies on as a
  locale, proves the loop safe inside it, and shows that the real handlers keep the promise: the
  sets only ever point at live events of the registered descriptor, because \<open>close\<close> removes the
  descriptor from every set before the event is freed.
\<close>

subsection \<open>The shape of the descriptor table\<close>

text \<open>What the registrations depend on: the kind of every open file and its epoll set.\<close>

type_synonym shape_fn = "fd \<Rightarrow> (fkind \<times> (fd \<rightharpoonup> epoll_event)) option"

definition shape :: "kernel \<Rightarrow> shape_fn" where
  "shape k fd = map_option (\<lambda>f. (f_kind f, f_interest f)) (file_at k fd)"

lemma shape_file_at: "file_at k' = file_at k \<Longrightarrow> shape k' = shape k"
  by (simp add: shape_def fun_eq_iff)

lemma shape_fields [simp]:
  "shape (next_call k) = shape k" "shape (k\<lparr>k_errno := e\<rparr>) = shape k"
  "shape (log_call md std lvl fmt a k) = shape k" "shape (k\<lparr>k_handlers := hs\<rparr>) = shape k"
  "shape (k\<lparr>k_sigmask := m\<rparr>) = shape k"
  by (rule shape_file_at, simp add: frame_simps)+

lemma shape_logs [simp]:
  "shape (kern (GT_INFO_LOG md fmt a s)) = shape (kern s)"
  "shape (kern (GT_ERROR_LOG md fmt a s)) = shape (kern s)"
  "shape (kern (GT_WARN_LOG md fmt a s)) = shape (kern s)"
  by (rule shape_file_at, simp)+

lemma shape_put_same:
  "file_at k fd = Some f \<Longrightarrow> f_kind g = f_kind f \<Longrightarrow> f_interest g = f_interest f \<Longrightarrow>
   shape (put_file fd g k) = shape k"
  by (simp add: shape_def fun_eq_iff file_at_put_fun)

lemma shape_sys_fail [simp]: "shape (snd (sys_fail e k)) = shape k"
  by (simp add: sys_fail_def)

lemma shape_syscall:
  "(\<And>k. shape (snd (act k)) = shape k) \<Longrightarrow> shape (snd (syscall act k)) = shape k"
  by (simp add: syscall_def split: option.splits)

lemma shape_simple [simp]:
  "shape (snd (sys_setsockopt fd k)) = shape k"
  "shape (snd (sys_fcntl_getfl fd k)) = shape k"
  "shape (snd (sys_fcntl_setfl fd fl k)) = shape k"
  "shape (snd (sys_fcntl_getfd fd k)) = shape k"
  "shape (snd (sys_fcntl_setfd fd fl k)) = shape k"
  "shape (snd (sys_bind fd ip port k)) = shape k"
  "shape (snd (sys_write fd bs k)) = shape k"
  "shape (snd (sys_sigaction sig hdl k)) = shape k"
  "shape (snd (sys_sigblock sigs k)) = shape k"
  "shape (snd (pthread_call k)) = shape k"
  by (auto simp: sys_setsockopt_def sys_fcntl_getfl_def sys_fcntl_setfl_def sys_fcntl_getfd_def
      sys_fcntl_setfd_def sys_bind_def sys_write_def sys_sigaction_def sys_sigblock_def pthread_call_def
      with_open_def shape_put_same intro!: shape_syscall split: option.splits fkind.splits)

lemma shape_read: "sys_read fd n k = Some (r, bs, k') \<Longrightarrow> shape k' = shape k"
  by (auto simp: sys_read_def Let_def shape_put_same split: option.splits if_splits)

lemma shape_alloc:
  assumes "alloc_fd f k = (a, k')"
  shows "shape k a = None" "shape k' = (shape k)(a \<mapsto> (f_kind f, f_interest f))" "0 \<le> a"
  using alloc_fd_spec [OF assms] by (auto simp: shape_def fun_eq_iff)

lemma shape_close:
  "shape (snd (sys_close fd k)) a =
     (if shape k fd = None then shape k a
      else if a = fd then None else map_option (\<lambda>(kd, m). (kd, m(fd := None))) (shape k a))"
proof (cases "file_at k fd")
  case (Some f)
  then show ?thesis
    by (cases "file_at k a") (simp_all add: shape_def file_at_sys_close(2) [OF Some])
qed (simp add: shape_def [of _ fd])

text \<open>A call that is not a removal either leaves the shape or registers the event.\<close>

lemma shape_epoll_ctl:
  assumes "op \<noteq> EPOLL_CTL_DEL"
  shows "shape (snd (sys_epoll_ctl ep op fd ev k)) = shape k \<or>
    (\<exists>m. shape k ep = Some (FK_epoll, m) \<and> shape k fd \<noteq> None \<and>
         shape (snd (sys_epoll_ctl ep op fd ev k)) = (shape k)(ep \<mapsto> (FK_epoll, m(fd \<mapsto> ev))))"
proof (cases "fst (sys_epoll_ctl ep op fd ev k) = 0")
  case True
  from epoll_ctl_act_success [OF True assms] obtain f where
    f: "file_at k ep = Some f" "f_kind f = FK_epoll" "file_at k fd \<noteq> None"
      "sys_epoll_ctl ep op fd ev k =
         (0, put_file ep (f\<lparr>f_interest := (f_interest f)(fd \<mapsto> ev)\<rparr>) (next_call k))" by metis
  then have "shape (snd (sys_epoll_ctl ep op fd ev k)) =
      (shape k)(ep \<mapsto> (FK_epoll, (f_interest f)(fd \<mapsto> ev)))"
    by (auto simp: shape_def fun_eq_iff file_at_put_fun)
  with f show ?thesis by (auto simp: shape_def)
next
  case False
  with epoll_ctl_failed have "file_at (snd (sys_epoll_ctl ep op fd ev k)) = file_at k" by blast
  then show ?thesis using shape_file_at by blast
qed

subsection \<open>Registrations point at live events\<close>

text \<open>Data handlers are only ever registered for files one can read from.\<close>

definition stream :: "fkind \<Rightarrow> bool" where
  "stream kd \<longleftrightarrow> kd \<noteq> FK_listen \<and> kd \<noteq> FK_epoll"

definition entries_ok :: "shape_fn \<Rightarrow> (addr \<rightharpoonup> gt_event) \<Rightarrow> bool" where
  "entries_ok sh G \<longleftrightarrow> (\<forall>ep kd m fd ev. sh ep = Some (kd, m) \<longrightarrow> m fd = Some ev \<longrightarrow>
     (\<exists>kd' m' gev fn. sh fd = Some (kd', m') \<and> G (ev_ptr ev) = Some gev \<and> ge_efd gev = fd \<and>
        ev_events ev AND EPOLLOUT = 0 \<and> op_read (ge_ops gev) = Some fn \<and>
        (fn = FN_datanet_ops_read \<longrightarrow> stream kd')))"

lemma entries_okD:
  assumes "entries_ok sh G" "sh ep = Some (kd, m)" "m fd = Some ev"
  obtains kd' m' gev fn where "sh fd = Some (kd', m')" "G (ev_ptr ev) = Some gev" "ge_efd gev = fd"
    "ev_events ev AND EPOLLOUT = 0" "op_read (ge_ops gev) = Some fn"
    "fn = FN_datanet_ops_read \<longrightarrow> stream kd'"
  using assms unfolding entries_ok_def by meson

lemma entries_alloc:
  assumes "entries_ok sh G" "sh a = None"
  shows "entries_ok (sh(a \<mapsto> (kd, Map.empty))) G"
proof -
  have "fd \<noteq> a" if "sh ep = Some (k, m)" "m fd = Some ev" for ep k m fd ev
    using assms(2) by (rule_tac entries_okD [OF assms(1) that]) auto
  with assms show ?thesis unfolding entries_ok_def by (auto split: if_splits)
qed

text \<open>Turning a descriptor that is in no set into a listening one.\<close>

lemma entries_listen:
  assumes "entries_ok sh G" "sh a = Some (kd, m)" "\<And>ep k n. sh ep = Some (k, n) \<Longrightarrow> n a = None"
  shows "entries_ok (sh(a \<mapsto> (kd', m))) G"
  unfolding entries_ok_def
proof (intro allI impI)
  fix ep k n fd ev
  assume "(sh(a \<mapsto> (kd', m))) ep = Some (k, n)" and n: "n fd = Some ev"
  then obtain k0 where e: "sh ep = Some (k0, n)" using assms(2) by (auto split: if_splits)
  with assms(3) n have "fd \<noteq> a" by fastforce
  with entries_okD [OF assms(1) e n]
  show "\<exists>kd'' m' gev fn. (sh(a \<mapsto> (kd', m))) fd = Some (kd'', m') \<and> G (ev_ptr ev) = Some gev \<and>
      ge_efd gev = fd \<and> ev_events ev AND EPOLLOUT = 0 \<and> op_read (ge_ops gev) = Some fn \<and>
      (fn = FN_datanet_ops_read \<longrightarrow> stream kd'')"
    by (metis fun_upd_other)
qed

lemma entries_register:
  assumes "entries_ok sh G" "sh ep = Some (FK_epoll, m)" "sh fd = Some (kd, m')"
    and "G (ev_ptr ev) = Some gev" "ge_efd gev = fd" "ev_events ev AND EPOLLOUT = 0"
    and "op_read (ge_ops gev) = Some fn" "fn = FN_datanet_ops_read \<longrightarrow> stream kd"
  shows "entries_ok (sh(ep \<mapsto> (FK_epoll, m(fd \<mapsto> ev)))) G"
proof -
  let ?sh = "sh(ep \<mapsto> (FK_epoll, m(fd \<mapsto> ev)))"
  have kinds: "\<exists>m2. ?sh x = Some (k, m2)" if "sh x = Some (k, m1)" for x k m1
    using that assms(2) by auto
  show ?thesis unfolding entries_ok_def
  proof (intro allI impI)
    fix e k n x v
    assume e: "?sh e = Some (k, n)" and n: "n x = Some v"
    show "\<exists>kd' m' gev fn. ?sh x = Some (kd', m') \<and> G (ev_ptr v) = Some gev \<and> ge_efd gev = x \<and>
      ev_events v AND EPOLLOUT = 0 \<and> op_read (ge_ops gev) = Some fn \<and>
      (fn = FN_datanet_ops_read \<longrightarrow> stream kd')"
    proof (cases "e = ep \<and> x = fd")
      case True
      with e n have "v = ev" by auto
      with True assms kinds [OF assms(3)] show ?thesis by blast
    next
      case False
      with e n assms(2) obtain k1 n1 where "sh e = Some (k1, n1)" "n1 x = Some v"
        by (auto split: if_splits)
      from entries_okD [OF assms(1) this] kinds show ?thesis by metis
    qed
  qed
qed

lemma entries_close:
  assumes "entries_ok sh G" and "sh fd \<noteq> None"
    and "sh' = (\<lambda>a. if a = fd then None else map_option (\<lambda>(kd, m). (kd, m(fd := None))) (sh a))"
  shows "entries_ok sh' G"
  unfolding entries_ok_def
proof (intro allI impI)
  fix e k n x v
  assume e: "sh' e = Some (k, n)" and n: "n x = Some v"
  then obtain n1 where n1: "sh e = Some (k, n1)" "n1 x = Some v" "x \<noteq> fd"
    by (auto simp: assms(3) split: if_splits)
  from entries_okD [OF assms(1) n1(1,2)] obtain kd' m' g fn where
    g: "sh x = Some (kd', m')" "G (ev_ptr v) = Some g" "ge_efd g = x" "ev_events v AND EPOLLOUT = 0"
      "op_read (ge_ops g) = Some fn" "fn = FN_datanet_ops_read \<longrightarrow> stream kd'" by metis
  with n1(3) have "sh' x = Some (kd', m'(fd := None))" by (simp add: assms(3))
  with g show "\<exists>kd' m' gev fn. sh' x = Some (kd', m') \<and> G (ev_ptr v) = Some gev \<and> ge_efd gev = x \<and>
      ev_events v AND EPOLLOUT = 0 \<and> op_read (ge_ops gev) = Some fn \<and>
      (fn = FN_datanet_ops_read \<longrightarrow> stream kd')"
    by blast
qed

lemma entries_events:
  assumes "entries_ok sh G"
    and "\<And>ge gev. G ge = Some gev \<Longrightarrow>
           \<exists>gev'. G' ge = Some gev' \<and> ge_efd gev' = ge_efd gev \<and> ge_ops gev' = ge_ops gev"
  shows "entries_ok sh G'"
  unfolding entries_ok_def
proof (intro allI impI)
  fix e k n x v
  assume e: "sh e = Some (k, n)" and n: "n x = Some v"
  from entries_okD [OF assms(1) e n] assms(2)
  show "\<exists>kd' m' gev fn. sh x = Some (kd', m') \<and> G' (ev_ptr v) = Some gev \<and> ge_efd gev = x \<and>
      ev_events v AND EPOLLOUT = 0 \<and> op_read (ge_ops gev) = Some fn \<and>
      (fn = FN_datanet_ops_read \<longrightarrow> stream kd')"
    by metis
qed

text \<open>An event may be freed once its descriptor is closed.\<close>

lemma entries_free:
  assumes "entries_ok sh G" "G ge = Some gev" "sh (ge_efd gev) = None"
  shows "entries_ok sh (G(ge := None))"
  unfolding entries_ok_def
proof (intro allI impI)
  fix e k n x v
  assume e: "sh e = Some (k, n)" and n: "n x = Some v"
  from entries_okD [OF assms(1) e n] obtain kd' m' g fn where
    g: "sh x = Some (kd', m')" "G (ev_ptr v) = Some g" "ge_efd g = x" "ev_events v AND EPOLLOUT = 0"
      "op_read (ge_ops g) = Some fn" "fn = FN_datanet_ops_read \<longrightarrow> stream kd'" by metis
  with assms(2,3) have "ev_ptr v \<noteq> ge" by auto
  with g show "\<exists>kd' m' gev fn. sh x = Some (kd', m') \<and> (G(ge := None)) (ev_ptr v) = Some gev \<and>
      ge_efd gev = x \<and> ev_events v AND EPOLLOUT = 0 \<and> op_read (ge_ops gev) = Some fn \<and>
      (fn = FN_datanet_ops_read \<longrightarrow> stream kd')" by auto
qed

subsection \<open>The system invariant\<close>

text \<open>An event's mask never asks for writability, and once set it goes with the event's own address.\<close>

definition events_ok :: "(addr \<rightharpoonup> gt_event) \<Rightarrow> bool" where
  "events_ok G \<longleftrightarrow> (\<forall>ge gev. G ge = Some gev \<longrightarrow> ev_events (ge_e gev) AND EPOLLOUT = 0 \<and>
     (ev_events (ge_e gev) \<noteq> 0 \<longrightarrow> ev_ptr (ge_e gev) = ge))"

definition maxe_of :: "addr \<Rightarrow> int" where
  "maxe_of gp = (if gp = g_gt_core_poller then GT_CORE_MAXEVENT else GT_NETWORKER_MAXEVENT)"

text \<open>The report buffer of each poller is a live block of its own, large enough for \<open>maxe\<close> events.\<close>

definition buffers_ok :: "gt_state \<Rightarrow> bool" where
  "buffers_ok s \<longleftrightarrow> (\<forall>gp p. gpollers s gp = Some p \<longrightarrow> gp_maxe p \<le> maxe_of gp \<and>
     (gp_ee p \<noteq> NULL \<longrightarrow> blocks s (gp_ee p) = Some (maxe_of gp * sizeof_epoll_event) \<and>
                        gevents s (gp_ee p) = None))"

definition tables_ok :: "gt_state \<Rightarrow> bool" where
  "tables_ok s \<longleftrightarrow> (\<forall>gp \<in> set static_pollers. gpollers s gp \<noteq> None) \<and>
     map pt_data (g_gt_datanet_pthread s) = map g_gt_datanet_poller [0..<GT_DATANET_PTHREAD_NUM]"

definition sys_inv :: "gt_state \<Rightarrow> bool" where
  "sys_inv s \<longleftrightarrow> poller_inv s \<and> entries_ok (shape (kern s)) (gevents s) \<and> events_ok (gevents s) \<and>
     buffers_ok s \<and> tables_ok s"

lemma sys_invD:
  assumes "sys_inv s"
  shows "poller_inv s" "entries_ok (shape (kern s)) (gevents s)" "events_ok (gevents s)" "buffers_ok s"
    "tables_ok s"
  using assms by (simp_all add: sys_inv_def)

lemma sys_inv_kern: "shape k = shape (kern s) \<Longrightarrow> sys_inv (s\<lparr>kern := k\<rparr>) = sys_inv s"
  by (simp add: sys_inv_def buffers_ok_def tables_ok_def)

lemma sys_inv_logs [simp]:
  "sys_inv (GT_INFO_LOG md fmt a s) = sys_inv s" "sys_inv (GT_ERROR_LOG md fmt a s) = sys_inv s"
  by (simp_all add: GT_INFO_LOG_def GT_ERROR_LOG_def sys_inv_kern)

lemma sys_inv_entries:
  "sys_inv s \<Longrightarrow> entries_ok (shape k) (gevents s) \<Longrightarrow> sys_inv (s\<lparr>kern := k\<rparr>)"
  by (simp add: sys_inv_def buffers_ok_def tables_ok_def)

lemma sys_inv_boot: "sys_inv (boot_state (boot_kernel fault alloc))"
proof -
  have "shape (boot_kernel fault alloc) fd = Some (kd, m) \<Longrightarrow> m = Map.empty" for fd kd m
    by (auto simp: shape_def file_at_def boot_kernel_def new_file_def nth_Cons' numeral_eq_Suc
        split: if_splits)
  then have "entries_ok (shape (kern (boot_state (boot_kernel fault alloc)))) (gevents (boot_state (boot_kernel fault alloc)))"
    unfolding entries_ok_def by (fastforce simp: boot_state_def)
  moreover have "0 \<le> maxe_of gp" for gp
    by (simp add: maxe_of_def GT_CORE_MAXEVENT_def GT_NETWORKER_MAXEVENT_def)
  ultimately show ?thesis
    using poller_inv_boot [of "boot_kernel fault alloc"]
    by (auto simp: sys_inv_def events_ok_def buffers_ok_def tables_ok_def boot_state_def
        datanet_pthread_init_def GT_DATANET_PTHREAD_NUM_def upt_rec numeral_eq_Suc)
qed

subsection \<open>Starting and stopping events\<close>

definition link_ok :: "shape_fn \<Rightarrow> fd \<Rightarrow> gt_fn \<Rightarrow> bool" where
  "link_ok sh fd fn \<longleftrightarrow> (fn = FN_datanet_ops_read \<longrightarrow> (\<forall>kd m. sh fd = Some (kd, m) \<longrightarrow> stream kd))"

lemma register_entries:
  assumes en: "entries_ok (shape k) G" and eo: "events_ok G" and g: "G ge = Some gev"
    and op: "op_read (ge_ops gev) = Some fn" "link_ok (shape k) (ge_efd gev) fn"
    and ev: "ev_ptr ev = ge" "ev_events ev AND EPOLLOUT = 0" and c: "cop \<noteq> EPOLL_CTL_DEL"
    and k': "sys_epoll_ctl ep cop (ge_efd gev) ev k = (r, k')"
    and G': "G' = G(ge \<mapsto> gev\<lparr>ge_e := ev\<rparr>)"
  shows "entries_ok (shape k') G'" "events_ok G'"
proof -
  have G: "entries_ok sh G'" if "entries_ok sh G" for sh
    using that by (rule entries_events) (use g G' in auto)
  from shape_epoll_ctl [OF c, of ep "ge_efd gev" ev k] k' consider "shape k' = shape k"
    | m where "shape k ep = Some (FK_epoll, m)" "shape k (ge_efd gev) \<noteq> None"
        "shape k' = (shape k)(ep \<mapsto> (FK_epoll, m(ge_efd gev \<mapsto> ev)))" by auto
  then show "entries_ok (shape k') G'"
  proof cases
    case 1
    with G [OF en] show ?thesis by simp
  next
    case 2
    then obtain kd m' where kd: "shape k (ge_efd gev) = Some (kd, m')" by auto
    with op(2) have "fn = FN_datanet_ops_read \<longrightarrow> stream kd" by (simp add: link_ok_def)
    with entries_register [OF G [OF en] 2(1) kd, of ev "gev\<lparr>ge_e := ev\<rparr>" fn] ev op G' 2(3)
    show ?thesis by simp
  qed
  show "events_ok G'" using eo g ev by (auto simp: events_ok_def G')
qed

lemma event_start_entries:
  assumes en: "entries_ok (shape (kern s)) (gevents s)" "events_ok (gevents s)"
    and g: "gevents s ge = Some gev" and op: "op_read (ge_ops gev) = Some fn" "link_ok (shape (kern s)) (ge_efd gev) fn"
    and fl: "eflag AND EPOLLOUT = 0" and st: "gt_poller_event_start eflag ge s = Some (r, s')"
  shows "entries_ok (shape (kern s')) (gevents s')" "events_ok (gevents s')"
proof -
  have "entries_ok (shape (kern s')) (gevents s') \<and> events_ok (gevents s')"
  proof (cases "ev_events (ge_e gev) AND eflag = 0")
    case True
    with g st obtain p where p: "gpollers s (ge_gpoller gev) = Some p"
      by (cases "gpollers s (ge_gpoller gev)") (auto simp: gt_poller_event_start_def put_event_def Let_def)
    let ?op = "if ev_events (ge_e gev) \<noteq> 0 then EPOLL_CTL_MOD else EPOLL_CTL_ADD"
    let ?ev = "\<lparr>ev_events = ev_events (ge_e gev) OR eflag, ev_ptr = ge\<rparr>"
    obtain ret k where k: "sys_epoll_ctl (gp_epfd p) ?op (ge_efd gev) ?ev (kern s) = (ret, k)" by fastforce
    have "(ev_events (ge_e gev) OR eflag) AND EPOLLOUT = 0"
      using en(2) g fl by (auto simp: events_ok_def bit.conj_disj_distrib2)
    with register_entries [OF en g op, of ?ev ?op "gp_epfd p" ret k, OF _ _ _ k refl]
    have "entries_ok (shape k) ((gevents s)(ge \<mapsto> gev\<lparr>ge_e := ?ev\<rparr>))"
      "events_ok ((gevents s)(ge \<mapsto> gev\<lparr>ge_e := ?ev\<rparr>))" by auto
    with event_start_eval [OF g p True refl refl k refl] st show ?thesis
      by (auto simp: put_event_def split: if_splits)
  next
    case False
    with g st en show ?thesis by (auto simp: gt_poller_event_start_def)
  qed
  then show "entries_ok (shape (kern s')) (gevents s')" "events_ok (gevents s')" by simp_all
qed

lemma event_stop_entries:
  assumes en: "entries_ok (shape (kern s)) (gevents s)" "events_ok (gevents s)"
    and g: "gevents s ge = Some gev" and op: "op_read (ge_ops gev) = Some fn" "link_ok (shape (kern s)) (ge_efd gev) fn"
    and st: "gt_poller_event_stop eflag ge s = Some (r, s')"
  shows "entries_ok (shape (kern s')) (gevents s')" "events_ok (gevents s')"
proof -
  have "entries_ok (shape (kern s')) (gevents s') \<and> events_ok (gevents s')"
  proof (cases "ev_events (ge_e gev) AND eflag = 0")
    case False
    with g st obtain p where p: "gpollers s (ge_gpoller gev) = Some p"
      by (cases "gpollers s (ge_gpoller gev)") (auto simp: gt_poller_event_stop_def put_event_def Let_def)
    let ?ev = "(ge_e gev)\<lparr>ev_events := ev_events (ge_e gev) AND NOT eflag\<rparr>"
    obtain ret k where k: "sys_epoll_ctl (gp_epfd p) EPOLL_CTL_MOD (ge_efd gev) ?ev (kern s) = (ret, k)" by fastforce
    from False have "ev_events (ge_e gev) \<noteq> 0" by auto
    with en(2) g have ev: "ev_ptr ?ev = ge" "ev_events (ge_e gev) AND EPOLLOUT = 0"
      by (auto simp: events_ok_def)
    have "(ev_events (ge_e gev) AND NOT eflag) AND EPOLLOUT = (ev_events (ge_e gev) AND EPOLLOUT) AND NOT eflag"
      by (simp add: ac_simps)
    with ev(2) have "(ev_events (ge_e gev) AND NOT eflag) AND EPOLLOUT = 0" by simp
    with ev(1) register_entries [OF en g op, of ?ev EPOLL_CTL_MOD "gp_epfd p" ret k, OF _ _ _ k refl]
    have "entries_ok (shape k) ((gevents s)(ge \<mapsto> gev\<lparr>ge_e := ?ev\<rparr>))"
      "events_ok ((gevents s)(ge \<mapsto> gev\<lparr>ge_e := ?ev\<rparr>))" by auto
    with event_stop_eval [OF g p False refl k refl] st show ?thesis
      by (auto simp: put_event_def split: if_splits)
  next
    case True
    with g st en show ?thesis by (auto simp: gt_poller_event_stop_def)
  qed
  then show "entries_ok (shape (kern s')) (gevents s')" "events_ok (gevents s')" by simp_all
qed

text \<open>
  Creating an event, setting its read handler and starting it, as the modules do: the invariant
  is kept whatever fails, and the other events and the files are as before.
\<close>

lemma sys_inv_create:
  assumes inv: "sys_inv s" and gp: "gpollers s gp \<noteq> None"
  obtains (null) s1 where "gt_poller_gevent_create efd gp s = Some (NULL, s1)" "sys_inv s1"
      "gevents s1 = gevents s" "file_at (kern s1) = file_at (kern s)" "k_fault (kern s1) = k_fault (kern s)"
      "gpollers s1 = gpollers s" "statics s1 = statics s"
  | (new) ge s1 where "gt_poller_gevent_create efd gp s = Some (ge, s1)" "ge \<noteq> NULL" "sys_inv s1"
      "gevents s ge = None" "gevents s1 = (gevents s)(ge \<mapsto> created_event efd gp)"
      "file_at (kern s1) = file_at (kern s)" "k_fault (kern s1) = k_fault (kern s)"
      "gpollers s1 = gpollers s" "statics s1 = statics s"
proof -
  note I = sys_invD [OF inv]
  from gevent_create_eval [OF I(1) gp, of efd] gevent_create_ok [OF I(1) gp, of efd]
  obtain r s1 where e: "gt_poller_gevent_create efd gp s = Some (r, s1)" "poller_inv s1"
      "gpollers s1 = gpollers s" "file_at (kern s1) = file_at (kern s)" "k_fault (kern s1) = k_fault (kern s)"
    and c: "if r = NULL then gevents s1 = gevents s \<and> blocks s1 = blocks s
      else gevents s r = None \<and> gevents s1 = (gevents s)(r \<mapsto> created_event efd gp) \<and>
           blocks s1 = (blocks s)(r \<mapsto> sizeof_gt_event)"
    by auto
  have st: "statics s1 = statics s" using e(1) by (rule statics_gevent_create)
  have sh: "shape (kern s1) = shape (kern s)" using e(4) by (rule shape_file_at)
  have tb: "tables_ok s1" using I(5) e(3) statics_eqD [OF st] by (simp add: tables_ok_def)
  show ?thesis
  proof (cases "r = NULL")
    case True
    with c e I sh tb have "sys_inv s1" by (simp add: sys_inv_def buffers_ok_def)
    with True c e st null show ?thesis by simp
  next
    case False
    with c have r: "gevents s r = None" "gevents s1 = (gevents s)(r \<mapsto> created_event efd gp)"
      "blocks s1 = (blocks s)(r \<mapsto> sizeof_gt_event)" by simp_all
    have fresh: "blocks s r = None"
      using gevent_create_addr [OF e(1)] False
      by (auto simp: gt_malloc_mem_def fresh_block_def Let_def split: if_splits)
    have "entries_ok (shape (kern s)) (gevents s1)"
      using I(2) by (rule entries_events) (use r(1,2) in auto)
    moreover have "events_ok (gevents s1)" using I(3) r(2) by (auto simp: events_ok_def)
    moreover have "buffers_ok s1" using I(4) r fresh e(3) by (fastforce simp: buffers_ok_def)
    ultimately have "sys_inv s1" using e(2) sh tb by (simp add: sys_inv_def)
    with False e st r new show ?thesis by simp
  qed
qed

definition with_reader :: "gt_fn \<Rightarrow> gt_event \<Rightarrow> gt_event" where
  "with_reader fn gev = gev\<lparr>ge_ops := (ge_ops gev)\<lparr>op_read := Some fn\<rparr>\<rparr>"

lemma sys_inv_launch:
  assumes inv: "sys_inv s" and g: "gevents s ge = Some (created_event efd gp)"
    and new: "\<And>ep kd m fd ev. shape (kern s) ep = Some (kd, m) \<Longrightarrow> m fd = Some ev \<Longrightarrow> ev_ptr ev \<noteq> ge"
    and link: "link_ok (shape (kern s)) efd fn"
  obtains r s' where
    "gt_poller_event_start EPOLLIN ge (put_event ge (with_reader fn (created_event efd gp)) s) = Some (r, s')"
    "sys_inv s'" "\<And>a. a \<noteq> ge \<Longrightarrow> gevents s' a = gevents s a" "gpollers s' = gpollers s"
    "\<And>a. same_but_interest (file_at (kern s') a) (file_at (kern s) a)"
    "k_fault (kern s') = k_fault (kern s)" "statics s' = statics s"
proof -
  note I = sys_invD [OF inv]
  let ?gev = "with_reader fn (created_event efd gp)"
  let ?s = "put_event ge ?gev s"
  have pi: "poller_inv ?s" using I(1) g by (rule poller_inv_put_event) (simp add: with_reader_def)
  have g': "gevents ?s ge = Some ?gev" by (simp add: put_event_def)
  from event_start_ok [OF pi g', of EPOLLIN] obtain r ev s' where
    s': "gt_poller_event_start EPOLLIN ge ?s = Some (r, s')" "poller_inv s'"
      "gevents s' = (gevents ?s)(ge \<mapsto> ?gev\<lparr>ge_e := ev\<rparr>)" "gpollers s' = gpollers ?s"
      "blocks s' = blocks ?s" "k_fault (kern s') = k_fault (kern ?s)"
      "\<forall>a. same_but_interest (file_at (kern s') a) (file_at (kern ?s) a)" by blast
  have en: "entries_ok (shape (kern ?s)) (gevents ?s)"
    unfolding entries_ok_def
  proof (intro allI impI)
    fix e k n x v
    assume e: "shape (kern ?s) e = Some (k, n)" and n: "n x = Some v"
    then have "shape (kern s) e = Some (k, n)" by (simp add: put_event_def)
    from entries_okD [OF I(2) this n] new [OF this n]
    show "\<exists>kd' m' gev fn. shape (kern ?s) x = Some (kd', m') \<and> gevents ?s (ev_ptr v) = Some gev \<and>
        ge_efd gev = x \<and> ev_events v AND EPOLLOUT = 0 \<and> op_read (ge_ops gev) = Some fn \<and>
        (fn = FN_datanet_ops_read \<longrightarrow> stream kd')"
      by (simp add: put_event_def) metis
  qed
  have eo: "events_ok (gevents ?s)" using I(3) by (auto simp: events_ok_def put_event_def with_reader_def)
  have "op_read (ge_ops ?gev) = Some fn" "link_ok (shape (kern ?s)) (ge_efd ?gev) fn"
    using link by (simp_all add: with_reader_def put_event_def)
  from event_start_entries [OF en eo g' this _ s'(1)]
  have "entries_ok (shape (kern s')) (gevents s')" "events_ok (gevents s')"
    by (simp_all add: epoll_flag_defs)
  moreover have st: "statics s' = statics s" using statics_event_start [OF s'(1)] by simp
  moreover have "buffers_ok s'" using I(4) s'(3-5) g by (fastforce simp: buffers_ok_def put_event_def)
  moreover have "tables_ok s'" using I(5) s'(4) statics_eqD [OF st] by (simp add: tables_ok_def put_event_def)
  ultimately have "sys_inv s'" using s'(2) by (simp add: sys_inv_def)
  with s' st show ?thesis by (intro that [of r s']) (simp_all add: put_event_def)
qed

text \<open>No set points at an address that holds no event.\<close>

lemma no_dangling_entry:
  assumes "sys_inv s" "gevents s ge = None" "shape (kern s) ep = Some (kd, m)" "m fd = Some ev"
  shows "ev_ptr ev \<noteq> ge"
  by (rule entries_okD [OF sys_invD(2) [OF assms(1)] assms(3,4)]) (use assms(2) in auto)

subsection \<open>Readiness of other descriptors\<close>

text \<open>An open file that keeps its kind and stays readable if it was.\<close>

definition carries :: "kernel \<Rightarrow> kernel \<Rightarrow> fd \<Rightarrow> bool" where
  "carries k k' fd \<longleftrightarrow> (\<forall>f. file_at k fd = Some f \<longrightarrow>
     (\<exists>f'. file_at k' fd = Some f' \<and> f_kind f' = f_kind f \<and> (readable f \<longrightarrow> readable f')))"

lemma carries_trans: "carries k k1 fd \<Longrightarrow> carries k1 k2 fd \<Longrightarrow> carries k k2 fd"
  unfolding carries_def by metis

lemma carries_same: "file_at k' fd = file_at k fd \<Longrightarrow> carries k k' fd"
  by (simp add: carries_def)

lemma carries_interest:
  "same_but_interest (file_at k' fd) (file_at k fd) \<Longrightarrow> carries k k' fd"
proof (cases "file_at k fd")
  case (Some f)
  assume "same_but_interest (file_at k' fd) (file_at k fd)"
  with Some obtain m where "file_at k' fd = Some (f\<lparr>f_interest := m\<rparr>)"
    using same_but_interest_Some by fastforce
  with Some show ?thesis by (simp add: carries_def readable_def)
qed (simp add: carries_def)

lemma carries_close: "a \<noteq> fd \<Longrightarrow> carries k (snd (sys_close fd k)) a"
proof (cases "file_at k fd")
  case (Some f)
  assume "a \<noteq> fd"
  then show ?thesis
    by (auto simp: carries_def file_at_sys_close(2) [OF Some] readable_def hang_up_def drop_interest_def)
qed (auto simp: carries_def)

lemma carries_alloc: "alloc_fd f k = (a, k') \<Longrightarrow> carries k k' fd"
  using alloc_fd_spec(2,3) [of f k a k'] by (auto simp: carries_def)

lemma carries_put:
  "file_at k a = Some f \<Longrightarrow> fd \<noteq> a \<or> f_kind g = f_kind f \<and> (readable f \<longrightarrow> readable g) \<Longrightarrow>
   carries k (put_file a g k) fd"
  by (auto simp: carries_def file_at_put_fun)

lemma carries_syscall: "(\<And>k. carries k (snd (act k)) fd) \<Longrightarrow> carries k (snd (syscall act k)) fd"
  using carries_trans [OF carries_same [of "next_call k" fd k]]
  by (auto simp: syscall_def sys_fail_def split: option.splits intro: carries_same)

lemma carries_fcntl:
  "carries k (snd (sys_fcntl_getfl a k)) fd" "carries k (snd (sys_fcntl_setfl a fl k)) fd"
  "carries k (snd (sys_setsockopt a k)) fd"
proof -
  show "carries k (snd (sys_fcntl_getfl a k)) fd"
    by (auto simp: sys_fcntl_getfl_def intro!: carries_same split: option.splits)
  show "carries k (snd (sys_fcntl_setfl a fl k)) fd"
    unfolding sys_fcntl_setfl_def
    by (rule carries_syscall) (auto simp: sys_fail_def readable_def intro: carries_same intro!: carries_put split: option.splits)
  show "carries k (snd (sys_setsockopt a k)) fd"
    unfolding sys_setsockopt_def
    by (rule carries_syscall) (auto simp: with_open_def sys_fail_def intro: carries_same split: option.splits)
qed

lemma carries_read:
  "sys_read a n k = Some (r, bs, k') \<Longrightarrow> fd \<noteq> a \<Longrightarrow> carries k k' fd"
  by (auto simp: sys_read_def Let_def file_at_put_fun intro!: carries_same split: option.splits if_splits)

lemma link_ok_carries:
  "carries k k' fd \<Longrightarrow> shape k fd \<noteq> None \<Longrightarrow> link_ok (shape k) fd fn \<Longrightarrow> link_ok (shape k') fd fn"
  by (fastforce simp: link_ok_def carries_def shape_def)

subsection \<open>Destroying events\<close>

lemma gevent_destroy_kern:
  assumes "gt_poller_gevent_destroy ge s = Some s'" "gevents s ge = Some gev" "ge \<noteq> NULL"
  obtains r s1 gev1 where "gt_poller_event_stop (ev_events (ge_e gev)) ge s = Some (r, s1)"
    "gevents s1 ge = Some gev1" "kern s' = snd (sys_close (ge_efd gev1) (kern s1))"
    "blocks s' = (blocks s1)(ge := None)"
  using assms
  by (auto simp: gt_poller_gevent_destroy_def gt_free_mem_def bind_eq_Some_conv Let_def lift_k_eq
      split: option.splits if_splits)

lemma sys_inv_destroy:
  assumes inv: "sys_inv s" and g: "gevents s ge = Some gev"
    and op: "op_read (ge_ops gev) = Some fn" "link_ok (shape (kern s)) (ge_efd gev) fn"
  obtains s' where "gt_poller_gevent_destroy ge s = Some s'" "sys_inv s'"
    "gevents s' = (gevents s)(ge := None)" "gpollers s' = gpollers s" "statics s' = statics s"
    "k_fault (kern s') = k_fault (kern s)" "\<And>a. a \<noteq> ge_efd gev \<Longrightarrow> carries (kern s) (kern s') a"
proof -
  note I = sys_invD [OF inv]
  from gevent_destroy_ok [OF I(1) g] obtain s' where
    s': "gt_poller_gevent_destroy ge s = Some s'" "poller_inv s'" "gevents s' = (gevents s)(ge := None)"
      "gpollers s' = gpollers s" "k_fault (kern s') = k_fault (kern s)" by blast
  from I(1) g have ge: "ge \<noteq> NULL" by (auto simp: poller_inv_def event_links_def)
  from gevent_destroy_kern [OF s'(1) g ge] obtain r s1 gev1 where
    s1: "gt_poller_event_stop (ev_events (ge_e gev)) ge s = Some (r, s1)" "gevents s1 ge = Some gev1"
      "kern s' = snd (sys_close (ge_efd gev1) (kern s1))" "blocks s' = (blocks s1)(ge := None)" .
  from event_stop_ok [OF I(1) g, of "ev_events (ge_e gev)"] s1(1,2) obtain ev where
    st: "gevents s1 = (gevents s)(ge \<mapsto> gev\<lparr>ge_e := ev\<rparr>)" "gpollers s1 = gpollers s" "blocks s1 = blocks s"
      "\<And>a. same_but_interest (file_at (kern s1) a) (file_at (kern s) a)" by auto
  with s1(2) have efd: "ge_efd gev1 = ge_efd gev" "op_read (ge_ops gev1) = Some fn" using op by auto
  from event_stop_entries [OF I(2,3) g op s1(1)]
  have en: "entries_ok (shape (kern s1)) (gevents s1)" "events_ok (gevents s1)" .
  let ?fd = "ge_efd gev"
  have sh: "shape (kern s') a = (if shape (kern s1) ?fd = None then shape (kern s1) a
      else if a = ?fd then None else map_option (\<lambda>(kd, m). (kd, m(?fd := None))) (shape (kern s1) a))" for a
    using s1(3) efd shape_close by simp
  have "entries_ok (shape (kern s')) (gevents s1)"
  proof (cases "shape (kern s1) ?fd")
    case None
    with sh have "shape (kern s') = shape (kern s1)" by (simp add: fun_eq_iff)
    with en show ?thesis by simp
  next
    case (Some y)
    from en(1) show ?thesis by (rule entries_close [of _ _ ?fd]) (simp_all add: sh Some fun_eq_iff)
  qed
  moreover have "shape (kern s') ?fd = None" using sh [of ?fd] by (auto split: if_splits)
  ultimately have "entries_ok (shape (kern s')) ((gevents s1)(ge := None))"
    using entries_free s1(2) efd(1) by metis
  moreover have "(gevents s1)(ge := None) = gevents s'" using st(1) s'(3) by simp
  moreover have "events_ok (gevents s')" using I(3) s'(3) by (simp add: events_ok_def)
  moreover have "statics s' = statics s" using s'(1) by (rule statics_gevent_destroy)
  moreover have "buffers_ok s'" using I(4) s'(3,4) s1(4) st(3) g by (fastforce simp: buffers_ok_def)
  moreover have "tables_ok s'"
    using I(5) s'(4) statics_eqD(7) [OF \<open>statics s' = statics s\<close>] by (simp add: tables_ok_def)
  ultimately have "sys_inv s'" using s'(2) by (simp add: sys_inv_def)
  moreover have "carries (kern s) (kern s') a" if "a \<noteq> ?fd" for a
    using carries_trans [OF carries_interest [OF st(4)] carries_close] that s1(3) efd by simp
  ultimately show ?thesis using that s' \<open>statics s' = statics s\<close> by blast
qed

lemma sys_inv_stop:
  assumes inv: "sys_inv s" and g: "gevents s ge = Some gev"
    and op: "op_read (ge_ops gev) = Some fn" "link_ok (shape (kern s)) (ge_efd gev) fn"
  obtains r s' ev where "gt_poller_event_stop eflag ge s = Some (r, s')" "sys_inv s'"
    "gevents s' = (gevents s)(ge \<mapsto> gev\<lparr>ge_e := ev\<rparr>)" "gpollers s' = gpollers s" "statics s' = statics s"
    "k_fault (kern s') = k_fault (kern s)" "\<And>a. same_but_interest (file_at (kern s') a) (file_at (kern s) a)"
proof -
  note I = sys_invD [OF inv]
  from event_stop_ok [OF I(1) g, of eflag] obtain r ev s' where
    s': "gt_poller_event_stop eflag ge s = Some (r, s')" "poller_inv s'"
      "gevents s' = (gevents s)(ge \<mapsto> gev\<lparr>ge_e := ev\<rparr>)" "gpollers s' = gpollers s"
      "blocks s' = blocks s" "k_fault (kern s') = k_fault (kern s)"
      "\<forall>a. same_but_interest (file_at (kern s') a) (file_at (kern s) a)" by blast
  note en = event_stop_entries [OF I(2,3) g op s'(1)]
  have st: "statics s' = statics s" using s'(1) by (rule statics_event_stop)
  have "buffers_ok s'" using I(4) s'(3-5) g by (fastforce simp: buffers_ok_def)
  moreover have "tables_ok s'" using I(5) s'(4) statics_eqD(7) [OF st] by (simp add: tables_ok_def)
  ultimately have "sys_inv s'" using en s'(2) by (simp add: sys_inv_def)
  with s' st show ?thesis by (intro that [of r s' ev]) simp_all
qed

subsection \<open>What the dispatch loop relies on\<close>

text \<open>
  The contract between the dispatch loop of \<open>gt_poller_epoll_wait\<close> and the rest of the program.
  \<open>ok\<close> is the invariant of the state and \<open>serviceable s ge fd\<close> says that the read handler of
  \<open>ge\<close> can run on its descriptor \<open>fd\<close> without blocking. A handler comes back, keeps the
  invariant, leaves the event alive when it reports an error (the loop then reads its descriptor),
  and does not disturb the other events of the report. The reports are of distinct serviceable
  events and fit the buffer.
\<close>

locale event_loop =
  fixes call :: "gt_fn \<Rightarrow> addr \<Rightarrow> gt_state \<Rightarrow> (int \<times> gt_state) option"
    and ok :: "gt_state \<Rightarrow> bool"
    and serviceable :: "gt_state \<Rightarrow> addr \<Rightarrow> fd \<Rightarrow> bool"
  assumes live: "serviceable s ge fd \<Longrightarrow>
      \<exists>gev fn. gevents s ge = Some gev \<and> ge_efd gev = fd \<and> op_read (ge_ops gev) = Some fn"
    and handles: "ok s \<Longrightarrow> serviceable s ge fd \<Longrightarrow> gevents s ge = Some gev \<Longrightarrow> op_read (ge_ops gev) = Some fn \<Longrightarrow>
      \<exists>r s'. call fn ge s = Some (r, s') \<and> ok s' \<and> (r < 0 \<longrightarrow> gevents s' ge \<noteq> None) \<and>
        (\<forall>ge' fd'. ge' \<noteq> ge \<longrightarrow> fd' \<noteq> fd \<longrightarrow> serviceable s ge' fd' \<longrightarrow> serviceable s' ge' fd')"
    and logs: "ok s \<Longrightarrow> ok (GT_ERROR_LOG md fmt a s)"
      "serviceable s ge fd \<Longrightarrow> serviceable (GT_ERROR_LOG md fmt a s) ge fd"
    and reports: "ok s \<Longrightarrow> gpollers s gp = Some p \<Longrightarrow>
      sys_epoll_wait rdy (gp_epfd p) (gp_ee p) (gp_maxe p) (kern s) = (n, evs, k) \<Longrightarrow>
      ok (s\<lparr>kern := k\<rparr>) \<and> (0 < n \<longrightarrow> (\<exists>sz. blocks s (gp_ee p) = Some sz \<and> n * sizeof_epoll_event \<le> sz)) \<and>
      (\<exists>fds. length fds = length evs \<and> distinct fds \<and> distinct (map ev_ptr evs) \<and>
         (\<forall>(ev, fd) \<in> set (zip evs fds). ev_events ev AND EPOLLOUT = 0 \<and>
            (ev_events ev AND EPOLLIN \<noteq> 0 \<longrightarrow> serviceable (s\<lparr>kern := k\<rparr>) (ev_ptr ev) fd)))"
begin

lemma dispatch_one:
  assumes ok: "ok s" and ev: "ev_events ev AND EPOLLOUT = 0"
    "ev_events ev AND EPOLLIN \<noteq> 0 \<longrightarrow> serviceable s (ev_ptr ev) fd"
  shows "\<exists>s'. epoll_dispatch_one call ev s = Some s' \<and> ok s' \<and>
    (\<forall>ge' fd'. ge' \<noteq> ev_ptr ev \<longrightarrow> fd' \<noteq> fd \<longrightarrow> serviceable s ge' fd' \<longrightarrow> serviceable s' ge' fd')"
proof (cases "ev_events ev AND EPOLLIN = 0")
  case True
  with ok ev show ?thesis by (auto simp: epoll_dispatch_one_def)
next
  case False
  with ev(2) have sv: "serviceable s (ev_ptr ev) fd" by blast
  from live [OF sv] obtain gev fn where g: "gevents s (ev_ptr ev) = Some gev" "op_read (ge_ops gev) = Some fn"
    by blast
  from handles [OF ok sv g] obtain r s' where
    s': "call fn (ev_ptr ev) s = Some (r, s')" "ok s'" "r < 0 \<longrightarrow> gevents s' (ev_ptr ev) \<noteq> None"
      "\<forall>ge' fd'. ge' \<noteq> ev_ptr ev \<longrightarrow> fd' \<noteq> fd \<longrightarrow> serviceable s ge' fd' \<longrightarrow> serviceable s' ge' fd'" by blast
  with False g logs show ?thesis
    by (cases "r < 0") (auto simp: epoll_dispatch_one_def)
qed

lemma dispatch_all:
  assumes "ok s" "length fds = length evs" "distinct fds" "distinct (map ev_ptr evs)"
    and "\<forall>(ev, fd) \<in> set (zip evs fds). ev_events ev AND EPOLLOUT = 0 \<and>
      (ev_events ev AND EPOLLIN \<noteq> 0 \<longrightarrow> serviceable s (ev_ptr ev) fd)"
  shows "\<exists>s'. fold_opt (epoll_dispatch_one call) evs s = Some s' \<and> ok s'"
  using assms
proof (induction evs arbitrary: fds s)
  case (Cons ev evs)
  then obtain fd fs where fds: "fds = fd # fs" by (cases fds) auto
  from Cons.prems fds dispatch_one [OF Cons.prems(1), of ev fd] obtain s1 where
    s1: "epoll_dispatch_one call ev s = Some s1" "ok s1"
      "\<forall>ge' fd'. ge' \<noteq> ev_ptr ev \<longrightarrow> fd' \<noteq> fd \<longrightarrow> serviceable s ge' fd' \<longrightarrow> serviceable s1 ge' fd'" by auto
  have "ev_events e AND EPOLLOUT = 0 \<and> (ev_events e AND EPOLLIN \<noteq> 0 \<longrightarrow> serviceable s1 (ev_ptr e) f)"
    if "(e, f) \<in> set (zip evs fs)" for e f
  proof -
    from that have "e \<in> set evs" "f \<in> set fs" by (auto dest: set_zip_leftD set_zip_rightD)
    with Cons.prems(3,4) fds have "ev_ptr e \<noteq> ev_ptr ev" "f \<noteq> fd" by (auto simp: image_iff)
    with that Cons.prems(5) fds s1(3) show ?thesis by auto
  qed
  with Cons.IH [OF s1(2), of fs] Cons.prems fds s1(1) show ?case by auto
qed simp

theorem epoll_wait_safe:
  assumes ok: "ok s" and gp: "gpollers s gp \<noteq> None"
  shows "\<exists>s'. gt_poller_epoll_wait call rdy gp s = Some s' \<and> ok s'"
proof -
  from gp obtain p where p: "gpollers s gp = Some p" by auto
  obtain n evs k where w: "sys_epoll_wait rdy (gp_epfd p) (gp_ee p) (gp_maxe p) (kern s) = (n, evs, k)"
    by (cases "sys_epoll_wait rdy (gp_epfd p) (gp_ee p) (gp_maxe p) (kern s)") auto
  note R = reports [OF ok p w]
  then obtain fds where fds: "length fds = length evs" "distinct fds" "distinct (map ev_ptr evs)"
    "\<forall>(ev, fd) \<in> set (zip evs fds). ev_events ev AND EPOLLOUT = 0 \<and>
            (ev_events ev AND EPOLLIN \<noteq> 0 \<longrightarrow> serviceable (s\<lparr>kern := k\<rparr>) (ev_ptr ev) fd)" by blast
  from R dispatch_all [OF _ fds] p w show ?thesis
    by (cases "0 < n") (auto simp: gt_poller_epoll_wait_def)
qed

end

subsection \<open>The real handlers keep the contract\<close>

text \<open>
  A fault plan is mild when its failures are only transient ones (\<open>EAGAIN\<close>). Other read errors
  make \<open>gt_datanet_ops_read\<close> free the event and return a negative value, which breaks the
  contract.
\<close>

definition mild :: "kernel \<Rightarrow> bool" where
  "mild k \<longleftrightarrow> (\<forall>n e. k_fault k n = Some e \<longrightarrow> e = EAGAIN)"

lemma mild_frame: "k_fault k' = k_fault k \<Longrightarrow> mild k' = mild k"
  by (simp add: mild_def)

lemma mild_now: "mild k \<Longrightarrow> fault_now k = Some e \<Longrightarrow> e = EAGAIN"
  by (auto simp: mild_def fault_now_def)

definition sys_ok :: "gt_state \<Rightarrow> bool" where
  "sys_ok s \<longleftrightarrow> sys_inv s \<and> mild (kern s)"

definition event_serviceable :: "gt_state \<Rightarrow> addr \<Rightarrow> fd \<Rightarrow> bool" where
  "event_serviceable s ge fd \<longleftrightarrow> (\<exists>gev fn f. gevents s ge = Some gev \<and> ge_efd gev = fd \<and>
     op_read (ge_ops gev) = Some fn \<and> file_at (kern s) fd = Some f \<and> readable f \<and>
     (fn = FN_datanet_ops_read \<longrightarrow> stream (f_kind f)))"

lemma serviceable_carries:
  assumes "event_serviceable s ge fd" "gevents s' ge = gevents s ge" "carries (kern s) (kern s') fd"
  shows "event_serviceable s' ge fd"
  using assms unfolding event_serviceable_def carries_def by metis

lemma serviceable_link:
  "gevents s ge = Some gev \<Longrightarrow> op_read (ge_ops gev) = Some fn \<Longrightarrow> event_serviceable s ge fd \<Longrightarrow>
   ge_efd gev = fd \<and> link_ok (shape (kern s)) fd fn"
  by (auto simp: event_serviceable_def link_ok_def shape_def)

lemma plans_io [frame_simps]:
  "k_fault (snd (sys_fcntl_getfl fd k)) = k_fault k" "k_fault (snd (sys_fcntl_setfl fd fl k)) = k_fault k"
  "k_fault (snd (sys_setsockopt fd k)) = k_fault k"
  by (auto simp: sys_fcntl_getfl_def sys_fcntl_setfl_def sys_setsockopt_def syscall_def with_open_def
      sys_fail_def split: option.splits)

lemma read_ready:
  assumes "file_at k fd = Some f" "readable f"
  obtains r bs k' where "sys_read fd n k = Some (r, bs, k')" "k_fault k' = k_fault k"
    "mild k \<Longrightarrow> stream (f_kind f) \<Longrightarrow> 0 \<le> r \<or> k_errno k' = EAGAIN" "r = 1 \<Longrightarrow> bs \<noteq> []"
proof -
  have "\<exists>r bs k'. sys_read fd n k = Some (r, bs, k') \<and> k_fault k' = k_fault k \<and>
      (mild k \<longrightarrow> stream (f_kind f) \<longrightarrow> 0 \<le> r \<or> k_errno k' = EAGAIN) \<and> (r = 1 \<longrightarrow> bs \<noteq> [])"
    using assms
    by (cases "fault_now k") (auto simp: sys_read_def Let_def readable_def stream_def dest: mild_now split: if_splits)
  with that show ?thesis by blast
qed

lemma signal_read_ok:
  assumes inv: "sys_inv s" and sv: "event_serviceable s ge fd"
  obtains r s' where "gt_signal_ops_read ge s = Some (r, s')" "sys_inv s'" "gevents s' = gevents s"
    "k_fault (kern s') = k_fault (kern s)" "\<And>a. a \<noteq> fd \<Longrightarrow> carries (kern s) (kern s') a"
proof -
  from sv obtain gev f where g: "gevents s ge = Some gev" "ge_efd gev = fd" "file_at (kern s) fd = Some f" "readable f"
    by (auto simp: event_serviceable_def)
  from read_ready [OF g(3,4), of 1] obtain r bs k where
    k: "sys_read fd 1 (kern s) = Some (r, bs, k)" "k_fault k = k_fault (kern s)" by metis
  let ?s = "s\<lparr>kern := k\<rparr>"
  have inv1: "sys_inv ?s" using inv shape_read [OF k(1)] by (simp add: sys_inv_kern)
  note c = carries_read [OF k(1)]
  define log where "log = (\<lambda>t. \<exists>md fmt a. t = ?s \<or> t = GT_INFO_LOG md fmt a ?s \<or> t = GT_ERROR_LOG md fmt a ?s)"
  have "\<exists>r' t. gt_signal_ops_read ge s = Some (r', t) \<and> log t"
    using k(1) g unfolding log_def
    by (auto simp: gt_signal_ops_read_def gt_process_snap_def gt_process_dump_def Let_def)
  then obtain r' t where t: "gt_signal_ops_read ge s = Some (r', t)" "log t" by blast
  from t(2) have "sys_inv t" "gevents t = gevents s" "file_at (kern t) = file_at k" "k_fault (kern t) = k_fault k"
    using inv1 by (auto simp: log_def)
  then have "carries (kern s) (kern t) a" if "a \<noteq> fd" for a
    using carries_trans [OF c [OF that] carries_same] by simp
  with that t(1) \<open>sys_inv t\<close> \<open>gevents t = gevents s\<close> \<open>k_fault (kern t) = k_fault k\<close> k(2) show ?thesis by metis
qed

text \<open>Stopping and destroying an event, as the data handler does with a broken connection.\<close>

lemma stop_destroy_ok:
  assumes inv: "sys_inv t" and g: "gevents t ge = Some gev"
    and op: "op_read (ge_ops gev) = Some fn" "link_ok (shape (kern t)) (ge_efd gev) fn"
    and open_fd: "file_at (kern t) (ge_efd gev) \<noteq> None"
  obtains r1 s1 s2 where "gt_poller_event_stop EPOLLIN ge t = Some (r1, s1)"
    "gt_poller_gevent_destroy ge s1 = Some s2" "sys_inv s2" "gevents s2 = (gevents t)(ge := None)"
    "file_at (kern s2) (ge_efd gev) = None" "k_fault (kern s2) = k_fault (kern t)"
    "\<And>a. a \<noteq> ge_efd gev \<Longrightarrow> carries (kern t) (kern s2) a"
proof -
  let ?fd = "ge_efd gev"
  obtain r1 s1 ev where
    s1: "gt_poller_event_stop EPOLLIN ge t = Some (r1, s1)" "sys_inv s1"
      "gevents s1 = (gevents t)(ge \<mapsto> gev\<lparr>ge_e := ev\<rparr>)" "gpollers s1 = gpollers t"
      "statics s1 = statics t" "k_fault (kern s1) = k_fault (kern t)"
      "\<And>a. same_but_interest (file_at (kern s1) a) (file_at (kern t) a)"
    by (rule sys_inv_stop [OF inv g op, where eflag = EPOLLIN]) (rule that)
  have g1: "gevents s1 ge = Some (gev\<lparr>ge_e := ev\<rparr>)" using s1(3) by simp
  have c1: "carries (kern t) (kern s1) a" for a using s1(7) by (rule carries_interest)
  have l1: "link_ok (shape (kern s1)) ?fd fn"
    using link_ok_carries [OF c1 [of ?fd] _ op(2)] open_fd by (simp add: shape_def)
  have o1: "op_read (ge_ops (gev\<lparr>ge_e := ev\<rparr>)) = Some fn" using op by simp
  have e1: "ge_efd (gev\<lparr>ge_e := ev\<rparr>) = ?fd" by simp
  obtain s2 where
    s2: "gt_poller_gevent_destroy ge s1 = Some s2" "sys_inv s2" "gevents s2 = (gevents s1)(ge := None)"
      "gpollers s2 = gpollers s1" "statics s2 = statics s1"
      "k_fault (kern s2) = k_fault (kern s1)" "\<And>a. a \<noteq> ?fd \<Longrightarrow> carries (kern s1) (kern s2) a"
    by (rule sys_inv_destroy [OF s1(2) g1 o1, unfolded e1, OF l1]) (rule that)
  from gevent_destroy_ok [OF sys_invD(1) [OF s1(2)] g1] s2(1) have f2: "file_at (kern s2) ?fd = None" by auto
  have "carries (kern t) (kern s2) a" if "a \<noteq> ?fd" for a
    using carries_trans [OF c1 s2(7) [OF that]] .
  with that [OF s1(1) s2(1,2) _ f2] s1(3,6) s2(3,6) show ?thesis by simp
qed

lemma datanet_read_ok:
  assumes inv: "sys_inv s" and sv: "event_serviceable s ge fd" and mild: "mild (kern s)"
    and g: "gevents s ge = Some gev" "op_read (ge_ops gev) = Some FN_datanet_ops_read"
  obtains r s' where "gt_datanet_ops_read ge s = Some (r, s')" "sys_inv s'"
    "\<And>a. a \<noteq> ge \<Longrightarrow> gevents s' a = gevents s a" "r < 0 \<Longrightarrow> gevents s' ge \<noteq> None"
    "k_fault (kern s') = k_fault (kern s)" "\<And>a. a \<noteq> fd \<Longrightarrow> carries (kern s) (kern s') a"
proof -
  from sv g obtain f where f: "ge_efd gev = fd" "file_at (kern s) fd = Some f" "readable f" "stream (f_kind f)"
    by (auto simp: event_serviceable_def)
  have ln: "link_ok (shape (kern s)) fd FN_datanet_ops_read" using serviceable_link [OF g sv] by simp
  from read_ready [OF f(2,3), of 127] obtain r bs k where
    k: "sys_read fd 127 (kern s) = Some (r, bs, k)" "k_fault k = k_fault (kern s)"
      "0 \<le> r \<or> k_errno k = EAGAIN" using mild f(4) by metis
  let ?s = "s\<lparr>kern := k\<rparr>"
  have sh: "shape k = shape (kern s)" using k(1) by (rule shape_read)
  then have inv1: "sys_inv ?s" using inv by (simp add: sys_inv_kern)
  note c = carries_read [OF k(1)]
  consider "0 < r" | "r \<le> 0" "k_errno k = EAGAIN" | "r = 0" "k_errno k \<noteq> EAGAIN" using k(3) by force
  then show ?thesis
  proof cases
    case 1
    let ?t = "GT_INFO_LOG GT_MOD_CORE ''CFD[%d]: %s'' [AInt fd, AStr (cstring bs)] ?s"
    have "gt_datanet_ops_read ge s = Some (r, ?t)" using 1 k(1) g f(1) by (simp add: gt_datanet_ops_read_def)
    moreover have "carries (kern s) (kern ?t) a" if "a \<noteq> fd" for a
      using carries_trans [OF c [OF that] carries_same] by simp
    ultimately show ?thesis using that [of r ?t] inv1 k(2) g by simp
  next
    case 2
    then have "gt_datanet_ops_read ge s = Some (GT_OK, ?s)"
      using k(1) g f(1) by (simp add: gt_datanet_ops_read_def gt_errno_def Let_def)
    with that [of GT_OK ?s] inv1 k(2) g c show ?thesis by simp
  next
    case 3
    let ?t = "GT_INFO_LOG GT_MOD_CORE ''Failed to read fd:%d, errno:%d'' [AInt fd, AInt (gt_errno ?s)] ?s"
    have gt: "gevents ?t ge = Some gev" and lt: "link_ok (shape (kern ?t)) (ge_efd gev) FN_datanet_ops_read"
      and it: "sys_inv ?t" using g ln sh f(1) inv1 by simp_all
    have "carries (kern s) (kern ?t) a" if "a \<noteq> fd" for a
      using carries_trans [OF c [OF that] carries_same] by simp
    note ct = this
    have "shape (kern ?t) fd \<noteq> None" using sh f(2) by (simp add: shape_def)
    then have ot: "file_at (kern ?t) (ge_efd gev) \<noteq> None" using f(1) by (simp add: shape_def)
    obtain r1 s1 s2 where s2: "gt_poller_event_stop EPOLLIN ge ?t = Some (r1, s1)"
      "gt_poller_gevent_destroy ge s1 = Some s2" "sys_inv s2" "gevents s2 = (gevents ?t)(ge := None)"
      "file_at (kern s2) (ge_efd gev) = None" "k_fault (kern s2) = k_fault (kern ?t)"
      "\<And>a. a \<noteq> ge_efd gev \<Longrightarrow> carries (kern ?t) (kern s2) a"
      by (rule stop_destroy_ok [OF it gt g(2) lt ot]) (rule that)
    have "gt_datanet_ops_read ge s = Some (r, s2)"
      using 3 k(1) g(1) f(1) s2(1,2) by (simp add: gt_datanet_ops_read_def gt_errno_def Let_def)
    moreover have "carries (kern s) (kern s2) a" if "a \<noteq> fd" for a
      using carries_trans [OF ct [OF that]] s2(7) that f(1) by blast
    ultimately show ?thesis using that [of r s2] s2(3,4,6) k(2) 3 by simp
  qed
qed

lemma sys_inv_close: "sys_inv s \<Longrightarrow> sys_inv (s\<lparr>kern := snd (sys_close fd (kern s))\<rparr>)"
proof (rule sys_inv_entries, assumption)
  assume inv: "sys_inv s"
  show "entries_ok (shape (snd (sys_close fd (kern s)))) (gevents s)"
  proof (cases "shape (kern s) fd")
    case None
    then have "shape (snd (sys_close fd (kern s))) = shape (kern s)" by (simp add: shape_close fun_eq_iff)
    with sys_invD(2) [OF inv] show ?thesis by simp
  next
    case (Some y)
    from sys_invD(2) [OF inv] show ?thesis
      by (rule entries_close [of _ _ fd]) (simp_all add: shape_close Some fun_eq_iff)
  qed
qed

lemma datanet_row:
  assumes "tables_ok s" "i < GT_DATANET_PTHREAD_NUM"
  shows "length (g_gt_datanet_pthread s) = GT_DATANET_PTHREAD_NUM"
    "pt_data (g_gt_datanet_pthread s ! i) = g_gt_datanet_poller i"
    "gpollers s (g_gt_datanet_poller i) \<noteq> None"
proof -
  from assms(1) have t: "map pt_data (g_gt_datanet_pthread s) = map g_gt_datanet_poller [0..<GT_DATANET_PTHREAD_NUM]"
    by (simp add: tables_ok_def)
  from arg_cong [OF t, of length] show l: "length (g_gt_datanet_pthread s) = GT_DATANET_PTHREAD_NUM" by simp
  from arg_cong [OF t, of "\<lambda>xs. xs ! i"] assms(2) l
  show "pt_data (g_gt_datanet_pthread s ! i) = g_gt_datanet_poller i" by simp
  show "gpollers s (g_gt_datanet_poller i) \<noteq> None"
    using assms by (simp add: tables_ok_def static_pollers_def)
qed

text \<open>What a handler may do besides the invariant: old events and files stay.\<close>

definition keeps :: "gt_state \<Rightarrow> gt_state \<Rightarrow> bool" where
  "keeps s s' \<longleftrightarrow> (\<forall>a. gevents s a \<noteq> None \<longrightarrow> gevents s' a = gevents s a) \<and>
     (\<forall>a. carries (kern s) (kern s') a) \<and> k_fault (kern s') = k_fault (kern s)"

lemma keeps_trans: "keeps s s1 \<Longrightarrow> keeps s1 s2 \<Longrightarrow> keeps s s2"
  by (simp add: keeps_def) (metis carries_trans)

lemma keeps_kern:
  "(\<And>a. carries (kern s) k a) \<Longrightarrow> k_fault k = k_fault (kern s) \<Longrightarrow> keeps s (s\<lparr>kern := k\<rparr>)"
  by (simp add: keeps_def)

lemma keeps_log [simp]: "keeps s (GT_INFO_LOG md fmt a s)" "keeps s (GT_ERROR_LOG md fmt a s)"
  by (simp_all add: keeps_def carries_same)

lemma launch_ok:
  assumes inv: "sys_inv s" and gp: "gpollers s gp \<noteq> None" and link: "link_ok (shape (kern s)) efd fn"
  obtains (null) s1 where "gt_poller_gevent_create efd gp s = Some (NULL, s1)" "sys_inv s1" "keeps s s1"
      "statics s1 = statics s"
  | (new) ge s1 r s2 where "gt_poller_gevent_create efd gp s = Some (ge, s1)" "ge \<noteq> NULL"
      "gevents s1 ge = Some (created_event efd gp)"
      "gt_poller_event_start EPOLLIN ge (put_event ge (with_reader fn (created_event efd gp)) s1) = Some (r, s2)"
      "sys_inv s2" "keeps s s2" "statics s2 = statics s"
proof (rule sys_inv_create [OF inv gp, of efd])
  fix s1
  assume "gt_poller_gevent_create efd gp s = Some (NULL, s1)" "sys_inv s1" "gevents s1 = gevents s"
    "file_at (kern s1) = file_at (kern s)" "k_fault (kern s1) = k_fault (kern s)" "statics s1 = statics s"
  then show thesis by (intro null [of s1]) (simp_all add: keeps_def carries_same)
next
  fix ge s1
  assume c: "gt_poller_gevent_create efd gp s = Some (ge, s1)" "ge \<noteq> NULL" "sys_inv s1" "gevents s ge = None"
    "gevents s1 = (gevents s)(ge \<mapsto> created_event efd gp)" "file_at (kern s1) = file_at (kern s)"
    "k_fault (kern s1) = k_fault (kern s)" "gpollers s1 = gpollers s" "statics s1 = statics s"
  have sh: "shape (kern s1) = shape (kern s)" using c(6) by (rule shape_file_at)
  have g: "gevents s1 ge = Some (created_event efd gp)" using c(5) by simp
  show thesis
  proof (rule sys_inv_launch [OF c(3) g, where fn = fn])
    show "ev_ptr ev \<noteq> ge" if "shape (kern s1) ep = Some (kd, m)" "m fd = Some ev" for ep kd m fd ev
      using no_dangling_entry [OF inv c(4)] that sh by simp
    show "link_ok (shape (kern s1)) efd fn" using link sh by simp
    fix r s2
    assume s2: "gt_poller_event_start EPOLLIN ge (put_event ge (with_reader fn (created_event efd gp)) s1) = Some (r, s2)"
      "sys_inv s2" "\<And>a. a \<noteq> ge \<Longrightarrow> gevents s2 a = gevents s1 a"
      "\<And>a. same_but_interest (file_at (kern s2) a) (file_at (kern s1) a)"
      "k_fault (kern s2) = k_fault (kern s1)" "statics s2 = statics s1"
    have "carries (kern s1) (kern s2) a" for a using s2(4) by (rule carries_interest)
    moreover have "carries (kern s) (kern s1) a" for a by (rule carries_same) (simp add: c(6))
    ultimately have "keeps s s2" unfolding keeps_def
      using s2(3,5) c(4,5,7) by (metis carries_trans fun_upd_other)
    with c g s2 show thesis by (intro new [of ge s1 r s2]) simp_all
  qed
qed

lemma round_dispatch_ok:
  assumes inv: "sys_inv s" and link: "link_ok (shape (kern s)) sockfd FN_datanet_ops_read"
  obtains r s' where "gt_network_round_dispatch sockfd s = Some (r, s')" "sys_inv s'" "keeps s s'"
proof -
  define i where "i = nat (sockfd mod int GT_DATANET_PTHREAD_NUM)"
  have i: "i < GT_DATANET_PTHREAD_NUM" by (simp add: i_def GT_DATANET_PTHREAD_NUM_def nat_less_iff)
  note row = datanet_row [OF sys_invD(5) [OF inv] i]
  have lk: "nth_opt (g_gt_datanet_pthread s) i = Some (g_gt_datanet_pthread s ! i)"
    using i row(1) by (simp add: nth_opt_def)
  note D = gt_network_round_dispatch_def row i_def [symmetric] lk Let_def
  show thesis
  proof (rule launch_ok [OF inv row(3) link])
    fix s1
    assume s1: "gt_poller_gevent_create sockfd (g_gt_datanet_poller i) s = Some (NULL, s1)" "sys_inv s1" "keeps s s1"
    have "keeps s (GT_ERROR_LOG md fmt a s1)" for md fmt a using keeps_trans [OF s1(3)] by simp
    with s1 show thesis
      by (intro that [of GT_OK "GT_ERROR_LOG GT_MOD_CORE ''Failed to create gt_event for datanet[%d].''
            [AInt (int i)] s1"]) (simp_all add: D)
  next
    fix ge s1 r s2
    assume s2: "gt_poller_gevent_create sockfd (g_gt_datanet_poller i) s = Some (ge, s1)" "ge \<noteq> NULL"
      "gevents s1 ge = Some (created_event sockfd (g_gt_datanet_poller i))"
      "gt_poller_event_start EPOLLIN ge (put_event ge (with_reader FN_datanet_ops_read
         (created_event sockfd (g_gt_datanet_poller i))) s1) = Some (r, s2)" "sys_inv s2" "keeps s s2"
    have l: "keeps s (GT_ERROR_LOG md fmt a s2)" for md fmt a using keeps_trans [OF s2(6)] by simp
    show thesis
    proof (cases "r = GT_OK")
      case True
      with s2 have "gt_network_round_dispatch sockfd s = Some (GT_OK, s2)" by (simp add: D with_reader_def)
      with that s2 show thesis by blast
    next
      case False
      with s2 have "gt_network_round_dispatch sockfd s = Some (GT_ERROR, GT_ERROR_LOG GT_MOD_CORE
          ''Failed to start poller event! sockfd[%d], pthread_idx[%d]'' [AInt sockfd, AInt (int i)] s2)"
        by (simp add: D with_reader_def)
      with that s2(5) l show thesis by (metis sys_inv_logs(2))
    qed
  qed
qed

text \<open>An accept on a ready descriptor: a new connection, or an error that changes no file.\<close>

lemma accept_ready:
  assumes "file_at k fd = Some f" "readable f"
  obtains (fail) k' where "sys_accept fd k = Some (-1, k')" "file_at k' = file_at k" "k_fault k' = k_fault k"
  | (conn) cfd k' where "sys_accept fd k = Some (cfd, k')" "0 \<le> cfd" "k_fault k' = k_fault k"
      "shape k cfd = None" "shape k' = (shape k)(cfd \<mapsto> (FK_sock, Map.empty))"
      "\<And>a. a \<noteq> fd \<Longrightarrow> carries k k' a"
proof (cases "fault_now k = None \<and> f_kind f = FK_listen")
  case False
  then show ?thesis using assms fail
    by (cases "fault_now k") (auto simp: sys_accept_def sys_fail_def)
next
  case True
  with assms obtain n where n: "f_pending f = Suc n" by (auto simp: readable_def gr0_conv_Suc)
  let ?k = "put_file fd (f\<lparr>f_pending := n\<rparr>) (next_call k)"
  obtain cfd k' where al: "alloc_fd (new_file FK_sock) ?k = (cfd, k')" by fastforce
  have ac: "sys_accept fd k = Some (cfd, k')" using True assms(1) n al by (simp add: sys_accept_def)
  have sh: "shape ?k = shape k" using assms(1) by (subst shape_put_same [of _ _ f]) simp_all
  note S = shape_alloc [OF al] alloc_fd_spec(5) [OF al]
  have "carries k k' a" if "a \<noteq> fd" for a
  proof -
    have "carries (next_call k) ?k a" using assms(1) that by (intro carries_put) auto
    then have "carries k ?k a" using carries_trans [OF carries_same] by (metis file_at_fields(6))
    then show ?thesis using carries_trans carries_alloc [OF al] by blast
  qed
  with conn [OF ac] S sh show ?thesis by (simp add: new_file_def)
qed

text \<open>What holds of the states the handler goes through after accepting \<open>cfd\<close> on \<open>fd\<close>.\<close>

definition accepting :: "gt_state \<Rightarrow> fd \<Rightarrow> fd \<Rightarrow> gt_state \<Rightarrow> bool" where
  "accepting s fd cfd t \<longleftrightarrow> sys_inv t \<and> (\<forall>a. gevents s a \<noteq> None \<longrightarrow> gevents t a = gevents s a) \<and>
     k_fault (kern t) = k_fault (kern s) \<and> (\<forall>a. a \<noteq> fd \<longrightarrow> a \<noteq> cfd \<longrightarrow> carries (kern s) (kern t) a)"

lemma accepting_keeps: "accepting s fd cfd t \<Longrightarrow> sys_inv t' \<Longrightarrow> keeps t t' \<Longrightarrow> accepting s fd cfd t'"
  unfolding accepting_def keeps_def by (metis carries_trans)

lemma accepting_kern:
  assumes "accepting s fd cfd t" "shape k = shape (kern t)" "k_fault k = k_fault (kern t)"
    "\<And>a. carries (kern t) k a"
  shows "accepting s fd cfd (t\<lparr>kern := k\<rparr>)"
proof (rule accepting_keeps [OF assms(1)])
  show "sys_inv (t\<lparr>kern := k\<rparr>)" using assms(1) sys_inv_kern [OF assms(2)] by (simp add: accepting_def)
  show "keeps t (t\<lparr>kern := k\<rparr>)" using assms by (intro keeps_kern)
qed

lemma accepting_log:
  assumes "accepting s fd cfd t"
  shows "accepting s fd cfd (GT_ERROR_LOG md fmt a t)" "accepting s fd cfd (GT_INFO_LOG md fmt a t)"
  using accepting_keeps [OF assms] assms by (simp_all add: accepting_def)

lemma accepting_close:
  "accepting s fd cfd t \<Longrightarrow> accepting s fd cfd (t\<lparr>kern := snd (sys_close cfd (kern t))\<rparr>)"
  using sys_inv_close [of t cfd] carries_close carries_trans
  by (simp add: accepting_def frame_simps) blast

lemma accepting_configured:
  assumes "accepting s fd cfd (s\<lparr>kern := k\<rparr>)"
  shows "accepting s fd cfd (s\<lparr>kern := snd (sys_setsockopt cfd k)\<rparr>)"
    "accepting s fd cfd (s\<lparr>kern := snd (sys_fcntl_getfl cfd k)\<rparr>)"
    "accepting s fd cfd (s\<lparr>kern := snd (sys_fcntl_setfl cfd fl k)\<rparr>)"
  using accepting_kern [OF assms, of "snd (sys_setsockopt cfd k)"]
    accepting_kern [OF assms, of "snd (sys_fcntl_getfl cfd k)"]
    accepting_kern [OF assms, of "snd (sys_fcntl_setfl cfd fl k)"]
  by (simp_all add: frame_simps carries_fcntl)

lemma accept_fails_ok:
  assumes inv: "sys_inv s" and g: "gevents s ge = Some gev"
    and k: "sys_accept (ge_efd gev) (kern s) = Some (-1, k)" "file_at k = file_at (kern s)" "k_fault k = k_fault (kern s)"
  shows "\<exists>r t. gt_network_ops_read ge s = Some (r, t) \<and> accepting s (ge_efd gev) (ge_efd gev) t"
proof -
  let ?s = "s\<lparr>kern := k\<rparr>"
  have a: "accepting s (ge_efd gev) (ge_efd gev) ?s"
    using inv shape_file_at [OF k(2)] k(2,3) by (simp add: accepting_def sys_inv_kern carries_same)
  show ?thesis
  proof (cases "k_errno k = EAGAIN")
    case True
    with k(1) g a show ?thesis by (simp add: gt_network_ops_read_def Let_def gt_errno_def)
  next
    case False
    with k(1) g accepting_log(1) [OF a] show ?thesis
      by (simp add: gt_network_ops_read_def Let_def gt_errno_def)
  qed
qed

lemma accept_conn_ok:
  assumes g: "gevents s ge = Some gev" and k: "sys_accept (ge_efd gev) (kern s) = Some (cfd, k)" "0 \<le> cfd"
    and sh: "shape k cfd = Some (FK_sock, m)" and a0: "accepting s fd cfd (s\<lparr>kern := k\<rparr>)"
  shows "\<exists>r t. gt_network_ops_read ge s = Some (r, t) \<and> accepting s fd cfd t"
proof -
  note D = gt_network_ops_read_def g lift_k_eq Let_def gt_errno_def case_prod_unfold
  let ?k1 = "snd (sys_setsockopt cfd k)"
  let ?k2 = "snd (sys_fcntl_getfl cfd ?k1)" and ?fl = "snd (fst (sys_fcntl_getfl cfd ?k1)) OR O_NONBLOCK"
  let ?k3 = "snd (sys_fcntl_setfl cfd ?fl ?k2)"
  note a1 = accepting_configured(1) [OF a0]
  note a3 = accepting_configured(3) [OF accepting_configured(2) [OF a1], of ?fl]
  have nfd: "cfd \<noteq> -1" using k(2) by simp
  consider "fst (sys_setsockopt cfd k) = -1"
    | "fst (sys_setsockopt cfd k) \<noteq> -1" "fst (sys_fcntl_setfl cfd ?fl ?k2) = -1"
    | "fst (sys_setsockopt cfd k) \<noteq> -1" "fst (sys_fcntl_setfl cfd ?fl ?k2) \<noteq> -1" by blast
  then show ?thesis
  proof cases
    case 1
    with k(1) nfd accepting_close [OF accepting_log(1) [OF a1]] show ?thesis by (simp add: D)
  next
    case 2
    with k(1) nfd accepting_close [OF accepting_log(1) [OF a3]] show ?thesis by (simp add: D)
  next
    case 3
    have i3: "sys_inv (s\<lparr>kern := ?k3\<rparr>)" using a3 by (simp add: accepting_def)
    have "link_ok (shape (kern (s\<lparr>kern := ?k3\<rparr>))) cfd FN_datanet_ops_read"
      by (simp add: link_ok_def sh stream_def)
    from round_dispatch_ok [OF i3 this] obtain r t where
      t: "gt_network_round_dispatch cfd (s\<lparr>kern := ?k3\<rparr>) = Some (r, t)" "sys_inv t" "keeps (s\<lparr>kern := ?k3\<rparr>) t" .
    note at = accepting_keeps [OF a3 t(2,3)]
    from 3 k(1) nfd t(1) at accepting_log(2) [OF at] show ?thesis by (cases "r = GT_OK") (simp_all add: D)
  qed
qed

lemma network_read_ok:
  assumes inv: "sys_inv s" and sv: "event_serviceable s ge fd"
  obtains r s' where "gt_network_ops_read ge s = Some (r, s')" "sys_inv s'"
    "\<And>a. gevents s a \<noteq> None \<Longrightarrow> gevents s' a = gevents s a"
    "k_fault (kern s') = k_fault (kern s)" "\<And>a. a \<noteq> fd \<Longrightarrow> carries (kern s) (kern s') a"
proof -
  from sv obtain gev f where g: "gevents s ge = Some gev" "ge_efd gev = fd" and
    f: "file_at (kern s) fd = Some f" "readable f" by (auto simp: event_serviceable_def)
  have "\<exists>r t cfd. gt_network_ops_read ge s = Some (r, t) \<and> accepting s fd cfd t \<and>
      (cfd = fd \<or> file_at (kern s) cfd = None)"
  proof (rule accept_ready [OF f])
    fix k
    assume "sys_accept fd (kern s) = Some (-1, k)" "file_at k = file_at (kern s)" "k_fault k = k_fault (kern s)"
    with accept_fails_ok [OF inv g(1), of k] g(2) show ?thesis by blast
  next
    fix cfd k
    assume k: "sys_accept fd (kern s) = Some (cfd, k)" "0 \<le> cfd" "k_fault k = k_fault (kern s)"
      "shape (kern s) cfd = None" "shape k = (shape (kern s))(cfd \<mapsto> (FK_sock, Map.empty))"
      "\<And>a. a \<noteq> fd \<Longrightarrow> carries (kern s) k a"
    have "sys_inv (s\<lparr>kern := k\<rparr>)"
      using k(4,5) sys_invD(2) [OF inv] by (intro sys_inv_entries [OF inv]) (simp add: entries_alloc)
    then have "accepting s fd cfd (s\<lparr>kern := k\<rparr>)" using k(3,6) by (simp add: accepting_def)
    with accept_conn_ok [OF g(1), of cfd k Map.empty fd] k g(2) show ?thesis by (auto simp: shape_def)
  qed
  then obtain r t cfd where t: "gt_network_ops_read ge s = Some (r, t)" "accepting s fd cfd t"
    "cfd = fd \<or> file_at (kern s) cfd = None" by blast
  then have "carries (kern s) (kern t) a" if "a \<noteq> fd" for a
    using that by (cases "a = cfd") (auto simp: accepting_def carries_def)
  with t that [of r t] show ?thesis by (simp add: accepting_def)
qed

text \<open>What an \<open>epoll_wait\<close> report says under the invariant.\<close>

lemma epoll_ready_facts:
  assumes "epoll_ready k ep fl fd = Some ev" "entries_ok (shape k) G" "file_at k e = Some ep"
  shows "\<exists>gev fn f. G (ev_ptr ev) = Some gev \<and> ge_efd gev = fd \<and> op_read (ge_ops gev) = Some fn \<and>
      ev_events ev AND EPOLLOUT = 0 \<and> file_at k fd = Some f \<and> (fn = FN_datanet_ops_read \<longrightarrow> stream (f_kind f)) \<and>
      (ev_events ev AND EPOLLIN \<noteq> 0 \<longrightarrow> readable f)"
proof -
  from assms(1) obtain v where v: "f_interest ep fd = Some v" "ev_ptr ev = ev_ptr v"
    "ev_events ev = fl fd AND (ev_events v OR EPOLLERR OR EPOLLHUP) AND (if readable_at k fd then NOT 0 else NOT EPOLLIN)"
    by (auto simp: epoll_ready_def Let_def split: option.splits if_splits)
  have sh: "shape k e = Some (f_kind ep, f_interest ep)" using assms(3) by (simp add: shape_def)
  obtain kd m gev fn where g: "shape k fd = Some (kd, m)" "G (ev_ptr v) = Some gev" "ge_efd gev = fd"
    "ev_events v AND EPOLLOUT = 0" "op_read (ge_ops gev) = Some fn" "fn = FN_datanet_ops_read \<longrightarrow> stream kd"
    by (rule entries_okD [OF assms(2) sh v(1)]) (rule that)
  from g(1) obtain f where f: "file_at k fd = Some f" "kd = f_kind f" by (auto simp: shape_def)
  let ?m = "if readable_at k fd then NOT 0 else NOT EPOLLIN"
  have "EPOLLERR AND EPOLLOUT = 0" "EPOLLHUP AND EPOLLOUT = 0" by (simp_all add: epoll_flag_defs)
  with g(4) have "(ev_events v OR EPOLLERR OR EPOLLHUP) AND EPOLLOUT = 0" by (simp add: bit.conj_disj_distrib2)
  moreover have "ev_events ev AND EPOLLOUT =
      fl fd AND ?m AND ((ev_events v OR EPOLLERR OR EPOLLHUP) AND EPOLLOUT)"
    by (simp add: v(3) ac_simps)
  ultimately have out: "ev_events ev AND EPOLLOUT = 0" by simp
  have "readable f" if "ev_events ev AND EPOLLIN \<noteq> 0"
  proof (rule ccontr)
    assume "\<not> readable f"
    with f have "?m = NOT EPOLLIN" by (simp add: readable_at_def)
    then have "ev_events ev AND EPOLLIN = (fl fd AND (ev_events v OR EPOLLERR OR EPOLLHUP)) AND (NOT EPOLLIN AND EPOLLIN)"
      by (simp only: v(3) and.assoc)
    then have "ev_events ev AND EPOLLIN = 0" by (simp only: bit.conj_cancel_left bit.conj_zero_right)
    with that show False by contradiction
  qed
  with g f v(2) out show ?thesis by auto
qed

lemma epoll_report:
  assumes w: "sys_epoll_wait rdy epfd ee maxe k = (n, evs, k')"
  obtains (none) "n \<le> 0" "evs = []" "file_at k' = file_at k" "k_fault k' = k_fault k"
  | (some) ep fds where "file_at k epfd = Some ep" "distinct fds" "ee \<noteq> NULL" "n \<le> maxe" "n = int (length evs)"
      "list_all2 (\<lambda>ev fd. epoll_ready k ep (snd rdy) fd = Some ev) evs fds"
      "file_at k' = file_at k" "k_fault k' = k_fault k"
proof -
  define fds where "fds ep = take (nat maxe) (filter (\<lambda>fd. epoll_ready k ep (snd rdy) fd \<noteq> None) (remdups (fst rdy)))" for ep
  have ev: "take (nat maxe) (List.map_filter (epoll_ready k ep (snd rdy)) (remdups (fst rdy))) =
      map (the \<circ> epoll_ready k ep (snd rdy)) (fds ep)" for ep
    by (simp add: fds_def List.map_filter_def take_map)
  have all: "list_all2 (\<lambda>ev fd. epoll_ready k ep (snd rdy) fd = Some ev) (map (the \<circ> epoll_ready k ep (snd rdy)) (fds ep)) (fds ep)" for ep
    unfolding list_all2_map1 list_all2_same by (auto simp: fds_def dest!: in_set_takeD)
  have d: "distinct (fds ep)" for ep by (simp add: fds_def)
  have l: "int (length (fds ep)) \<le> maxe" if "0 < maxe" for ep
    using that by (simp add: fds_def)
  show ?thesis
  proof (cases "fault_now k = None \<and> (\<exists>ep. file_at k epfd = Some ep \<and> f_kind ep = FK_epoll \<and> 0 < maxe \<and>
      (fds ep = [] \<or> ee \<noteq> NULL))")
    case False
    with w have "n \<le> 0 \<and> evs = [] \<and> file_at k' = file_at k \<and> k_fault k' = k_fault k"
      by (cases "fault_now k"; cases "file_at k epfd") (auto simp: sys_epoll_wait_def Let_def ev split: if_splits)
    with none show ?thesis by blast
  next
    case True
    then obtain ep where ep: "file_at k epfd = Some ep" "f_kind ep = FK_epoll" "0 < maxe" "fds ep = [] \<or> ee \<noteq> NULL"
      by blast
    with w True have r: "n = int (length (fds ep))" "evs = map (the \<circ> epoll_ready k ep (snd rdy)) (fds ep)"
      "k' = next_call k" by (auto simp: sys_epoll_wait_def Let_def ev)
    show ?thesis
    proof (cases "fds ep = []")
      case True
      with r none show ?thesis by simp
    next
      case False
      with ep r d all l some [of ep "fds ep"] show ?thesis by simp
    qed
  qed
qed

lemma sys_report:
  assumes ok: "sys_ok s" and p: "gpollers s gp = Some p"
    and w: "sys_epoll_wait rdy (gp_epfd p) (gp_ee p) (gp_maxe p) (kern s) = (n, evs, k)"
  shows "sys_ok (s\<lparr>kern := k\<rparr>) \<and> (0 < n \<longrightarrow> (\<exists>sz. blocks s (gp_ee p) = Some sz \<and> n * sizeof_epoll_event \<le> sz)) \<and>
      (\<exists>fds. length fds = length evs \<and> distinct fds \<and> distinct (map ev_ptr evs) \<and>
         (\<forall>(ev, fd) \<in> set (zip evs fds). ev_events ev AND EPOLLOUT = 0 \<and>
            (ev_events ev AND EPOLLIN \<noteq> 0 \<longrightarrow> event_serviceable (s\<lparr>kern := k\<rparr>) (ev_ptr ev) fd)))"
proof -
  from ok have inv: "sys_inv s" and mild: "mild (kern s)" by (simp_all add: sys_ok_def)
  have ok': "sys_ok (s\<lparr>kern := k\<rparr>)" if "file_at k = file_at (kern s)" "k_fault k = k_fault (kern s)"
    using inv mild sys_inv_kern [OF shape_file_at [OF that(1)]] that(2) by (simp add: sys_ok_def mild_def)
  show ?thesis
  proof (rule epoll_report [OF w])
    assume "n \<le> 0" "evs = []" "file_at k = file_at (kern s)" "k_fault k = k_fault (kern s)"
    with ok' show ?thesis by simp
  next
    fix ep fds
    assume e: "file_at (kern s) (gp_epfd p) = Some ep" "distinct fds" "gp_ee p \<noteq> NULL" "n \<le> gp_maxe p"
      "n = int (length evs)" "list_all2 (\<lambda>ev fd. epoll_ready (kern s) ep (snd rdy) fd = Some ev) evs fds"
      "file_at k = file_at (kern s)" "k_fault k = k_fault (kern s)"
    have facts: "\<exists>gev fn f. gevents s (ev_ptr ev) = Some gev \<and> ge_efd gev = fd \<and> op_read (ge_ops gev) = Some fn \<and>
      ev_events ev AND EPOLLOUT = 0 \<and> file_at (kern s) fd = Some f \<and> (fn = FN_datanet_ops_read \<longrightarrow> stream (f_kind f)) \<and>
      (ev_events ev AND EPOLLIN \<noteq> 0 \<longrightarrow> readable f)" if "(ev, fd) \<in> set (zip evs fds)" for ev fd
      using that e(6) epoll_ready_facts [OF _ sys_invD(2) [OF inv] e(1)] by (auto simp: list_all2_iff)
    have len: "length fds = length evs" using e(6) by (simp add: list_all2_lengthD)
    have "distinct (map ev_ptr evs)"
    proof (subst distinct_conv_nth, intro allI impI notI)
      fix i j
      assume ij: "i < length (map ev_ptr evs)" "j < length (map ev_ptr evs)" "i \<noteq> j"
        "map ev_ptr evs ! i = map ev_ptr evs ! j"
      then have z: "(evs ! i, fds ! i) \<in> set (zip evs fds)" "(evs ! j, fds ! j) \<in> set (zip evs fds)"
        using len by (auto simp: set_zip)
      from facts [OF z(1)] facts [OF z(2)] ij have "fds ! i = fds ! j" by auto
      with e(2) ij len show False by (simp add: nth_eq_iff_index_eq)
    qed
    moreover have "\<forall>(ev, fd) \<in> set (zip evs fds). ev_events ev AND EPOLLOUT = 0 \<and>
        (ev_events ev AND EPOLLIN \<noteq> 0 \<longrightarrow> event_serviceable (s\<lparr>kern := k\<rparr>) (ev_ptr ev) fd)"
      using facts e(7) by (fastforce simp: event_serviceable_def)
    moreover have "\<exists>sz. blocks s (gp_ee p) = Some sz \<and> n * sizeof_epoll_event \<le> sz"
      using sys_invD(4) [OF inv] p e(3,4) by (force simp: buffers_ok_def sizeof_epoll_event_def)
    ultimately show ?thesis using ok' e(2,7,8) len by blast
  qed
qed

lemma sys_handles:
  assumes ok: "sys_ok s" and sv: "event_serviceable s ge fd" and g: "gevents s ge = Some gev"
    "op_read (ge_ops gev) = Some fn"
  shows "\<exists>r s'. ops_call fn ge s = Some (r, s') \<and> sys_ok s' \<and> (r < 0 \<longrightarrow> gevents s' ge \<noteq> None) \<and>
    (\<forall>ge' fd'. ge' \<noteq> ge \<longrightarrow> fd' \<noteq> fd \<longrightarrow> event_serviceable s ge' fd' \<longrightarrow> event_serviceable s' ge' fd')"
proof -
  from ok have inv: "sys_inv s" and mild: "mild (kern s)" by (simp_all add: sys_ok_def)
  have "\<exists>r s'. ops_call fn ge s = Some (r, s') \<and> sys_inv s' \<and> k_fault (kern s') = k_fault (kern s) \<and>
      (r < 0 \<longrightarrow> gevents s' ge \<noteq> None) \<and> (\<forall>a. a \<noteq> ge \<longrightarrow> gevents s a \<noteq> None \<longrightarrow> gevents s' a = gevents s a) \<and>
      (\<forall>a. a \<noteq> fd \<longrightarrow> carries (kern s) (kern s') a)"
  proof (cases fn)
    case FN_signal_ops_read
    show ?thesis using g(1)
      by (rule_tac signal_read_ok [OF inv sv]) (simp add: ops_call_def FN_signal_ops_read)
  next
    case FN_network_ops_read
    show ?thesis using g(1)
      by (rule_tac network_read_ok [OF inv sv]) (simp add: ops_call_def FN_network_ops_read)
  next
    case FN_datanet_ops_read
    show ?thesis using g(1)
      by (rule_tac datanet_read_ok [OF inv sv mild g [unfolded FN_datanet_ops_read]])
        (simp add: ops_call_def FN_datanet_ops_read)
  qed
  then obtain r s' where s': "ops_call fn ge s = Some (r, s')" "sys_inv s'" "k_fault (kern s') = k_fault (kern s)"
    "r < 0 \<longrightarrow> gevents s' ge \<noteq> None" "\<forall>a. a \<noteq> ge \<longrightarrow> gevents s a \<noteq> None \<longrightarrow> gevents s' a = gevents s a"
    "\<forall>a. a \<noteq> fd \<longrightarrow> carries (kern s) (kern s') a" by blast
  have "event_serviceable s' ge' fd'" if "ge' \<noteq> ge" "fd' \<noteq> fd" "event_serviceable s ge' fd'" for ge' fd'
    using that s'(5,6) by (intro serviceable_carries [OF that(3)]) (auto simp: event_serviceable_def)
  with s' mild show ?thesis by (auto simp: sys_ok_def mild_def)
qed

interpretation el: event_loop ops_call sys_ok event_serviceable
proof
  show "\<exists>gev fn. gevents s ge = Some gev \<and> ge_efd gev = fd \<and> op_read (ge_ops gev) = Some fn"
    if "event_serviceable s ge fd" for s ge fd
    using that by (auto simp: event_serviceable_def)
  show "sys_ok (GT_ERROR_LOG md fmt a s)" if "sys_ok s" for md fmt a s
    using that by (simp add: sys_ok_def mild_def)
  show "event_serviceable (GT_ERROR_LOG md fmt a s) ge fd" if "event_serviceable s ge fd" for s ge fd md fmt a
    using that by (simp add: event_serviceable_def)
qed (rule sys_handles sys_report; assumption)+

end
