(* ===== verification/GT_System.thy ===== *)
theory GT_System
  imports GT_Events
begin

text \<open>
  The running system: start-up functions, thread initialisation, poller rounds, signal handlers and
  the environment as steps of one machine, with the system invariant of \<open>GT_Events\<close>, and the
  properties of the handlers that span the kernel, the pollers and the network module.
\<close>

subsection \<open>Poller initialisation\<close>

lemma poller_init_effect:
  assumes gp: "gpollers s gp = Some p" and r: "gt_poller_init maxe tmo gp s = Some (r, s')"
  shows "gevents s' = gevents s \<and> k_fault (kern s') = k_fault (kern s) \<and>
    (shape (kern s') = shape (kern s) \<or>
     (\<exists>a. shape (kern s) a = None \<and> shape (kern s') = (shape (kern s))(a \<mapsto> (FK_epoll, Map.empty)))) \<and>
    (\<exists>p'. gpollers s' = (gpollers s)(gp \<mapsto> p') \<and> gp_maxe p' = maxe \<and>
       ((gp_ee p' = gp_ee p \<or> gp_ee p' = NULL) \<and> blocks s' = blocks s \<or>
        blocks s (gp_ee p') = None \<and> gevents s (gp_ee p') = None \<and>
        blocks s' = (blocks s)(gp_ee p' \<mapsto> maxe * sizeof_epoll_event)))"
proof -
  obtain epfd k1 where k1: "sys_epoll_create (maxe + 1) (kern s) = (epfd, k1)" by fastforce
  let ?p1 = "p\<lparr>gp_maxe := maxe, gp_timeout := tmo, gp_epfd := epfd\<rparr>"
  let ?s1 = "s\<lparr>kern := k1, gpollers := (gpollers s)(gp \<mapsto> ?p1)\<rparr>"
  have kf: "k_fault k1 = k_fault (kern s) \<and> (epfd < 0 \<longrightarrow> shape k1 = shape (kern s)) \<and>
      (0 \<le> epfd \<longrightarrow> shape (kern s) epfd = None \<and> shape k1 = (shape (kern s))(epfd \<mapsto> (FK_epoll, Map.empty)))"
  proof (cases "fault_now (kern s) = None \<and> 0 < maxe + 1")
    case True
    with k1 have al: "alloc_fd (new_file FK_epoll) (next_call (kern s)) = (epfd, k1)"
      by (simp add: sys_epoll_create_def syscall_def)
    from shape_alloc [OF al] alloc_fd_spec(5) [OF al] show ?thesis by (simp add: new_file_def)
  next
    case False
    with k1 show ?thesis
      by (cases "fault_now (kern s)") (auto simp: sys_epoll_create_def syscall_def sys_fail_def)
  qed
  show ?thesis
  proof (cases "epfd < 0")
    case True
    with r gp k1 have "s' = GT_ERROR_LOG GT_MOD_CORE ''Failed to epoll_ctl to epfd[%d]! errno:%d, %s''
        [AInt epfd, AInt (gt_errno ?s1), AErrstr (gt_errno ?s1)] ?s1"
      by (simp add: gt_poller_init_def lift_k_def Let_def)
    with True kf show ?thesis by (auto intro!: exI [of _ ?p1])
  next
    case False
    obtain ee s2 where m: "gt_malloc_mem GT_MOD_CORE GT_MEM_TYPE_HEAP (maxe * sizeof_epoll_event) ?s1 = (ee, s2)"
      by fastforce
    let ?s3 = "s2\<lparr>gpollers := (gpollers s2)(gp \<mapsto> ?p1\<lparr>gp_ee := ee\<rparr>)\<rparr>"
    from m show ?thesis
    proof (cases rule: malloc_cases)
      case null
      with r gp k1 False m have "\<exists>md fmt a. s' = GT_ERROR_LOG md fmt a ?s3"
        by (auto simp: gt_poller_init_def lift_k_def Let_def)
      with null False kf show ?thesis by auto
    next
      case fresh
      with r gp k1 False m obtain h where "s' = ?s3\<lparr>lists := h\<rparr>"
        by (auto simp: gt_poller_init_def lift_k_def Let_def fresh_block_def bind_eq_Some_conv)
      with fresh False kf show ?thesis by (auto simp: fresh_block_def)
    qed
  qed
qed

lemma sys_inv_init:
  assumes inv: "sys_inv s" and gp: "gpollers s gp \<noteq> None"
  shows "\<exists>r s'. gt_poller_init (maxe_of gp) tmo gp s = Some (r, s') \<and> sys_inv s' \<and>
    k_fault (kern s') = k_fault (kern s) \<and> statics s' = statics s"
proof -
  note I = sys_invD [OF inv]
  from gp obtain p where p: "gpollers s gp = Some p" by auto
  have pos: "0 \<le> maxe_of gp" by (simp add: maxe_of_def GT_CORE_MAXEVENT_def GT_NETWORKER_MAXEVENT_def)
  from poller_init_ok [OF I(1) p pos, of tmo] obtain r s' where
    s': "gt_poller_init (maxe_of gp) tmo gp s = Some (r, s')" "poller_inv s'" by blast
  note E = poller_init_effect [OF p s'(1)]
  have st: "statics s' = statics s" using s'(1) by (rule statics_poller_init)
  have "entries_ok (shape (kern s')) (gevents s')"
    using E I(2) entries_alloc by fastforce
  moreover have "buffers_ok s'"
  proof -
    from E obtain p' where p': "gpollers s' = (gpollers s)(gp \<mapsto> p')" "gp_maxe p' = maxe_of gp"
      "(gp_ee p' = gp_ee p \<or> gp_ee p' = NULL) \<and> blocks s' = blocks s \<or>
        blocks s (gp_ee p') = None \<and> gevents s (gp_ee p') = None \<and>
        blocks s' = (blocks s)(gp_ee p' \<mapsto> maxe_of gp * sizeof_epoll_event)" by blast
    have "gevents s' = gevents s" using E by simp
    moreover have "gp_ee q \<noteq> gp_ee p'" if "gpollers s a = Some q" "gp_ee q \<noteq> NULL" "blocks s (gp_ee p') = None" for a q
      using I(4) that by (fastforce simp: buffers_ok_def)
    ultimately show ?thesis using p' I(4) p unfolding buffers_ok_def by (auto split: if_splits)
  qed
  moreover have "tables_ok s'" using E I(5) statics_eqD(7) [OF st] by (auto simp: tables_ok_def)
  ultimately have "sys_inv s'" using s'(2) I(3) E by (simp add: sys_inv_def)
  with s'(1) E st show ?thesis by blast
qed

subsection \<open>The start-up functions\<close>

text \<open>A descriptor that no set refers to, as every freshly created one.\<close>

definition unregistered :: "kernel \<Rightarrow> fd \<Rightarrow> bool" where
  "unregistered k fd \<longleftrightarrow> (\<forall>ep kd m. shape k ep = Some (kd, m) \<longrightarrow> m fd = None)"

lemma sys_inv_new_fd:
  assumes inv: "sys_inv s" and al: "alloc_fd (new_file kd) (next_call (kern s)) = (a, k)"
  shows "sys_inv (s\<lparr>kern := k\<rparr>)" "unregistered k a" "shape k a = Some (kd, Map.empty)" "0 \<le> a"
proof -
  note S = shape_alloc [OF al, simplified]
  from S(1,2) sys_invD(2) [OF inv] show "sys_inv (s\<lparr>kern := k\<rparr>)"
    by (intro sys_inv_entries [OF inv]) (simp add: new_file_def entries_alloc)
  show "shape k a = Some (kd, Map.empty)" "0 \<le> a" using S by (simp_all add: new_file_def)
  have "m a = None" if "shape (kern s) ep = Some (kd', m)" for ep kd' m
  proof (rule ccontr)
    assume "m a \<noteq> None"
    then obtain ev where "m a = Some ev" by auto
    with S(1) show False by (rule_tac entries_okD [OF sys_invD(2) [OF inv] that]) auto
  qed
  with S(2) show "unregistered k a" by (auto simp: unregistered_def new_file_def)
qed

lemma listen_effect:
  "shape (snd (sys_listen fd bl k)) = shape k \<or>
   (\<exists>kd m. shape k fd = Some (kd, m) \<and> shape (snd (sys_listen fd bl k)) = (shape k)(fd \<mapsto> (FK_listen, m)))"
proof (cases "fault_now k")
  case None
  show ?thesis
  proof (cases "file_at k fd")
    case (Some f)
    with None have "shape (snd (sys_listen fd bl k)) = (shape k)(fd \<mapsto> (FK_listen, f_interest f))"
      by (auto simp: sys_listen_def syscall_def with_open_def shape_def file_at_put_fun fun_eq_iff)
    with Some show ?thesis by (auto simp: shape_def)
  qed (use None in \<open>simp add: sys_listen_def syscall_def with_open_def\<close>)
qed (simp add: sys_listen_def syscall_def)

lemma sys_inv_listen:
  assumes "sys_inv s" "unregistered (kern s) fd"
  shows "sys_inv (s\<lparr>kern := snd (sys_listen fd bl (kern s))\<rparr>)"
proof (rule sys_inv_entries [OF assms(1)])
  from listen_effect [of fd bl "kern s"]
  show "entries_ok (shape (snd (sys_listen fd bl (kern s)))) (gevents s)"
  proof
    assume "shape (snd (sys_listen fd bl (kern s))) = shape (kern s)"
    with sys_invD(2) [OF assms(1)] show ?thesis by simp
  next
    assume "\<exists>kd m. shape (kern s) fd = Some (kd, m) \<and>
        shape (snd (sys_listen fd bl (kern s))) = (shape (kern s))(fd \<mapsto> (FK_listen, m))"
    then obtain kd m where m: "shape (kern s) fd = Some (kd, m)"
      "shape (snd (sys_listen fd bl (kern s))) = (shape (kern s))(fd \<mapsto> (FK_listen, m))" by blast
    have "n fd = None" if "shape (kern s) ep = Some (k, n)" for ep k n
      using assms(2) that by (auto simp: unregistered_def)
    with entries_listen [of "shape (kern s)" "gevents s" fd kd m FK_listen] sys_invD(2) [OF assms(1)] m
    show ?thesis by simp
  qed
qed

text \<open>
  What every step of the start-up gives: it returns, keeps the invariant, the fault plan and the
  phase table.
\<close>

definition keeps_sys :: "gt_state \<Rightarrow> (int \<times> gt_state) option \<Rightarrow> bool" where
  "keeps_sys s res \<longleftrightarrow> (\<exists>r s'. res = Some (r, s') \<and> sys_inv s' \<and> k_fault (kern s') = k_fault (kern s) \<and>
     g_gt_phase s' = g_gt_phase s)"

lemma keeps_sysI:
  "sys_inv s' \<Longrightarrow> k_fault (kern s') = k_fault (kern s) \<Longrightarrow> g_gt_phase s' = g_gt_phase s \<Longrightarrow>
   keeps_sys s (Some (r, s'))"
  by (simp add: keeps_sys_def)

lemma launch_keeps:
  assumes inv: "sys_inv s" and gp: "gpollers s gp \<noteq> None" and fn: "fn \<noteq> FN_datanet_ops_read"
  obtains (null) s1 where "gt_poller_gevent_create efd gp s = Some (NULL, s1)" "keeps_sys s (Some (0, s1))"
  | (new) ge s1 r s2 where "gt_poller_gevent_create efd gp s = Some (ge, s1)" "ge \<noteq> NULL"
      "gevents s1 ge = Some (created_event efd gp)"
      "gt_poller_event_start EPOLLIN ge (put_event ge (with_reader fn (created_event efd gp)) s1) = Some (r, s2)"
      "keeps_sys s (Some (0, s2))"
proof -
  have link: "link_ok (shape (kern s)) efd fn" using fn by (simp add: link_ok_def)
  show ?thesis
  proof (cases rule: launch_ok [OF inv gp link, case_names null new])
    case (null s1)
    with statics_eqD(2) [OF null(4)] that(1) show ?thesis by (simp add: keeps_sys_def keeps_def)
  next
    case (new ge s1 r s2)
    with statics_eqD(2) [OF new(7)] that(2) show ?thesis by (simp add: keeps_sys_def keeps_def)
  qed
qed

lemma keeps_sys_log:
  "keeps_sys s (Some (r, t)) \<Longrightarrow> keeps_sys s (Some (r', GT_ERROR_LOG md fmt a t))"
  "keeps_sys s (Some (r, t)) \<Longrightarrow> keeps_sys s (Some (r', GT_INFO_LOG md fmt a t))"
  "keeps_sys s (Some (r, t)) \<Longrightarrow> keeps_sys s (Some (r', t))"
  by (simp_all add: keeps_sys_def)

lemma signal_phase1_ok:
  assumes inv: "sys_inv s"
  shows "keeps_sys s (gt_signal_phase1_func s)"
proof -
  have gp: "gpollers s g_gt_core_poller \<noteq> None"
    using sys_invD(5) [OF inv] by (simp add: tables_ok_def static_pollers_def)
  have fn: "FN_signal_ops_read \<noteq> FN_datanet_ops_read" by simp
  show ?thesis
  proof (cases rule: launch_keeps [OF inv gp fn, where efd = "fst (g_signal_pipefd s)", case_names null new])
    case (null s1)
    then show ?thesis by (simp add: gt_signal_phase1_func_def) (rule keeps_sys_log)
  next
    case (new ge s1 r s2)
    then show ?thesis
      by (cases "r = GT_OK") (simp_all add: gt_signal_phase1_func_def with_reader_def keeps_sys_log(3))
  qed
qed

lemma core_phase0_ok:
  assumes inv: "sys_inv s"
  shows "keeps_sys s (gt_core_phase0_func s)"
proof -
  have gp: "gpollers s g_gt_core_poller \<noteq> None"
    using sys_invD(5) [OF inv] by (simp add: tables_ok_def static_pollers_def)
  from sys_inv_init [OF inv gp, of GT_CORE_EPWAIT_TIMEOUT] obtain r s' where
    "gt_poller_init GT_CORE_MAXEVENT GT_CORE_EPWAIT_TIMEOUT g_gt_core_poller s = Some (r, s')" "sys_inv s'"
    "k_fault (kern s') = k_fault (kern s)" "statics s' = statics s" by (auto simp: maxe_of_def)
  with statics_eqD(2) [of s' s] show ?thesis by (simp add: gt_core_phase0_func_def keeps_sys_def)
qed

lemma keeps_sys_kern:
  assumes "sys_inv s" "shape k = shape (kern s)" "k_fault k = k_fault (kern s)"
  shows "keeps_sys s (Some (r, s\<lparr>kern := k\<rparr>))"
  using assms by (simp add: keeps_sys_def sys_inv_kern)

lemma keeps_sys_close:
  "keeps_sys s (Some (r, t)) \<Longrightarrow> keeps_sys s (Some (r', t\<lparr>kern := snd (sys_close fd (kern t))\<rparr>))"
  by (simp add: keeps_sys_def sys_inv_close frame_simps)

lemma keeps_sys_trans: "keeps_sys s (Some (r, t)) \<Longrightarrow> keeps_sys t res \<Longrightarrow> keeps_sys s res"
  by (auto simp: keeps_sys_def)

lemma plans_sock [frame_simps]:
  "k_fault (snd (sys_bind fd ip port k)) = k_fault k" "k_fault (snd (sys_listen fd bl k)) = k_fault k"
  by (auto simp: sys_bind_def sys_listen_def syscall_def with_open_def sys_fail_def split: option.splits)

text \<open>The configuration calls on a new socket keep the invariant and register nothing.\<close>

lemma unregistered_shape: "shape k' = shape k \<Longrightarrow> unregistered k' fd = unregistered k fd"
  by (simp add: unregistered_def)

lemma listen_launch_ok:
  assumes inv: "sys_inv s"
  shows "keeps_sys s (do {
        (ge, s) \<leftarrow> gt_poller_gevent_create lfd g_gt_network_poller s;
        if ge = NULL then
          Some (GT_ERROR, GT_ERROR_LOG GT_MOD_CORE ''Failed to create gt_event for network[%d].''
                            [AInt lfd] s)
        else do {
          gev \<leftarrow> gevents s ge;
          let s = put_event ge (gev\<lparr>ge_ops := (ge_ops gev)\<lparr>op_read := Some FN_network_ops_read\<rparr>\<rparr>) s;
          (ret, s) \<leftarrow> gt_poller_event_start EPOLLIN ge s;
          if ret \<noteq> GT_OK then
            Some (GT_ERROR, GT_ERROR_LOG GT_MOD_CORE ''Failed to start poller event to lfd[%d]''
                              [AInt lfd] s)
          else Some (GT_OK, GT_INFO_LOG GT_MOD_CORE ''Start listenning...'' [] s) } })"
proof -
  have gp: "gpollers s g_gt_network_poller \<noteq> None"
    using sys_invD(5) [OF inv] by (simp add: tables_ok_def static_pollers_def)
  have fn: "FN_network_ops_read \<noteq> FN_datanet_ops_read" by simp
  show ?thesis
  proof (cases rule: launch_keeps [OF inv gp fn, where efd = lfd, case_names null new])
    case (null s1)
    then show ?thesis by simp (rule keeps_sys_log)
  next
    case (new ge s1 r s2)
    then show ?thesis
      by (cases "r = GT_OK") (simp_all add: with_reader_def keeps_sys_log [OF new(5)])
  qed
qed

lemma listenning_ok:
  assumes inv: "sys_inv s"
  shows "keeps_sys s (gt_network_listenning ip port s)"
proof -
  obtain lfd k0 where so: "sys_socket (kern s) = (lfd, k0)" by fastforce
  let ?k1 = "snd (sys_setsockopt lfd k0)"
  let ?k2 = "snd (sys_bind lfd (htonl ip) (htons (ucast port)) ?k1)"
  let ?k3 = "snd (sys_listen lfd GT_NETWORKER_MAXEVENT ?k2)"
  note D = gt_network_listenning_def lift_k_eq so case_prod_unfold
  show ?thesis
  proof (cases "fault_now (kern s)")
    case (Some e)
    with so have "lfd = -1" "k0 = (next_call (kern s))\<lparr>k_errno := e\<rparr>"
      by (simp_all add: sys_socket_def syscall_def sys_fail_def)
    with inv show ?thesis by (simp add: D Let_def) (rule keeps_sys_log, rule keeps_sys_kern, simp_all)
  next
    case None
    with so have al: "alloc_fd (new_file FK_sock) (next_call (kern s)) = (lfd, k0)"
      by (simp add: sys_socket_def syscall_def)
    note N = sys_inv_new_fd [OF inv al]
    have k0: "keeps_sys s (Some (0, s\<lparr>kern := k0\<rparr>))"
      using N(1) alloc_fd_spec(5) [OF al] by (simp add: keeps_sys_def)
    have k1: "keeps_sys s (Some (0, s\<lparr>kern := ?k1\<rparr>))"
      using keeps_sys_trans [OF k0] keeps_sys_kern [OF N(1), of ?k1] by (simp add: frame_simps)
    then have "sys_inv (s\<lparr>kern := ?k1\<rparr>)" by (simp add: keeps_sys_def)
    from keeps_sys_kern [OF this, of ?k2] have k2: "keeps_sys s (Some (0, s\<lparr>kern := ?k2\<rparr>))"
      using keeps_sys_trans [OF k1] by (simp add: frame_simps)
    have "unregistered ?k2 lfd" using N(2) unregistered_shape [of ?k2 k0] by simp
    with sys_inv_listen [of "s\<lparr>kern := ?k2\<rparr>" lfd GT_NETWORKER_MAXEVENT] k2
    have k3: "keeps_sys s (Some (0, s\<lparr>kern := ?k3\<rparr>))" by (simp add: keeps_sys_def frame_simps)
    then have i3: "sys_inv (s\<lparr>kern := ?k3\<rparr>)" by (simp add: keeps_sys_def)
    note close = keeps_sys_close [OF keeps_sys_log(1)]
    have pos: "\<not> lfd < 0" using N(4) by simp
    consider "fst (sys_setsockopt lfd k0) = -1"
      | "fst (sys_setsockopt lfd k0) \<noteq> -1" "fst (sys_bind lfd (htonl ip) (htons (ucast port)) ?k1) = -1"
      | "fst (sys_setsockopt lfd k0) \<noteq> -1" "fst (sys_bind lfd (htonl ip) (htons (ucast port)) ?k1) \<noteq> -1"
          "fst (sys_listen lfd GT_NETWORKER_MAXEVENT ?k2) = -1"
      | "fst (sys_setsockopt lfd k0) \<noteq> -1" "fst (sys_bind lfd (htonl ip) (htons (ucast port)) ?k1) \<noteq> -1"
          "fst (sys_listen lfd GT_NETWORKER_MAXEVENT ?k2) \<noteq> -1" by blast
    then show ?thesis
    proof cases
      case 1
      with pos close [OF k1] show ?thesis by (simp add: D Let_def)
    next
      case 2
      with pos close [OF k2] show ?thesis by (simp add: D Let_def)
    next
      case 3
      with pos close [OF k3] show ?thesis by (simp add: D Let_def)
    next
      case 4
      with pos keeps_sys_trans [OF k3 listen_launch_ok [OF i3, of lfd]] show ?thesis
        by (simp add: D Let_def cong: if_cong)
    qed
  qed
qed

lemma network_phase1_ok:
  assumes inv: "sys_inv s"
  shows "keeps_sys s (gt_network_phase1_func s)"
proof -
  have gp: "gpollers s g_gt_network_poller \<noteq> None"
    using sys_invD(5) [OF inv] by (simp add: tables_ok_def static_pollers_def)
  have m: "maxe_of g_gt_network_poller = GT_NETWORKER_MAXEVENT"
    by (simp add: maxe_of_def g_gt_network_poller_def g_gt_core_poller_def)
  from sys_inv_init [OF inv gp, of GT_NETWORKER_EPWAIT_TIMEOUT] obtain r s1 where
    s1: "gt_poller_init GT_NETWORKER_MAXEVENT GT_NETWORKER_EPWAIT_TIMEOUT g_gt_network_poller s = Some (r, s1)"
      "sys_inv s1" "k_fault (kern s1) = k_fault (kern s)" "statics s1 = statics s" by (auto simp: m)
  have k1: "keeps_sys s (Some (r, s1))" using s1 statics_eqD(2) [OF s1(4)] by (simp add: keeps_sys_def)
  from keeps_sys_trans [OF k1 listenning_ok [OF s1(2), of "g_gt_server_ip s1" "ucast (g_gt_server_port s1)"]]
  obtain r2 s2 where s2: "gt_network_listenning (g_gt_server_ip s1) (ucast (g_gt_server_port s1)) s1 = Some (r2, s2)"
    and k2: "keeps_sys s (Some (r2, s2))" by (auto simp: keeps_sys_def)
  show ?thesis
    using s1(1) s2 k1 k2 keeps_sys_log [OF k2]
    by (simp add: gt_network_phase1_func_def)
qed

lemma network_phase2_ok:
  assumes inv: "sys_inv s"
  shows "keeps_sys s (gt_network_phase2_func s)"
proof -
  obtain r s1 where s1: "gt_create_datanet_pthread s = (r, s1)" by fastforce
  then have "create_rows DatanetRow [0..<GT_DATANET_PTHREAD_NUM] s = (r, s1)"
    by (simp add: gt_create_datanet_pthread_def)
  from create_rows_spec [OF this] have c: "memory s1 = memory s" "rows_data s1 = rows_data s"
    "file_at (kern s1) = file_at (kern s)" "g_gt_phase s1 = g_gt_phase s" "k_fault (kern s1) = k_fault (kern s)"
    by simp_all
  note M = memory_eqD [OF c(1)] shape_file_at [OF c(3)]
  have "map (\<lambda>r. snd (pt_routine r, pt_data r)) (g_gt_datanet_pthread s1) =
        map (\<lambda>r. snd (pt_routine r, pt_data r)) (g_gt_datanet_pthread s)"
    using arg_cong [OF c(2), of "\<lambda>x. map snd (snd x)"] by (simp add: rows_data_def comp_def)
  with inv M have "sys_inv s1"
    by (simp add: sys_inv_def buffers_ok_def tables_ok_def poller_inv_frame [of s s1])
  with c have k1: "keeps_sys s (Some (r, s1))" by (simp add: keeps_sys_def)
  show ?thesis
    using s1 k1 keeps_sys_log [OF k1] by (simp add: gt_network_phase2_func_def)
qed

lemma phase_call_ok: "sys_inv s \<Longrightarrow> keeps_sys s (phase_call fn s)"
  by (cases fn) (simp_all add: phase_call_def core_phase0_ok signal_phase1_ok network_phase1_ok network_phase2_ok)

subsection \<open>The phase table is not touched at start-up\<close>

lemma statics_listenning:
  "gt_network_listenning ip port s = Some (r, s') \<Longrightarrow> statics s' = statics s"
  by (auto simp: gt_network_listenning_def lift_k_eq Let_def bind_eq_Some_conv split: if_splits prod.splits
      dest!: statics_ops)

lemma statics_signal_phase1: "gt_signal_phase1_func s = Some (r, s') \<Longrightarrow> statics s' = statics s"
  by (auto simp: gt_signal_phase1_func_def Let_def bind_eq_Some_conv split: if_splits dest!: statics_ops)

lemma statics_core_phase0: "gt_core_phase0_func s = Some (r, s') \<Longrightarrow> statics s' = statics s"
  by (auto simp: gt_core_phase0_func_def bind_eq_Some_conv split: if_splits dest!: statics_ops)

lemma statics_network_phase1: "gt_network_phase1_func s = Some (r, s') \<Longrightarrow> statics s' = statics s"
  by (auto simp: gt_network_phase1_func_def bind_eq_Some_conv split: if_splits
      dest!: statics_ops statics_listenning)

lemma table_network_phase2:
  assumes "gt_network_phase2_func s = Some (r, s')"
  shows "g_gt_phase s' = g_gt_phase s"
proof -
  obtain r1 s1 where s1: "create_rows DatanetRow [0..<GT_DATANET_PTHREAD_NUM] s = (r1, s1)" by fastforce
  with create_rows_spec [OF s1] assms show ?thesis
    by (auto simp: gt_network_phase2_func_def gt_create_datanet_pthread_def split: if_splits)
qed

interpretation ps: phase_system phase_call sys_inv
proof
  show "g_gt_phase s' = g_gt_phase s" if "phase_call fn s = Some (r, s')" for fn s r s'
    using that
    by (cases fn) (auto simp: phase_call_def intro: statics_eqD(2) statics_core_phase0 statics_signal_phase1
        statics_network_phase1 table_network_phase2)
  show "\<exists>r s'. phase_call fn s = Some (r, s') \<and> sys_inv s'" if "sys_inv s" for s fn
    using phase_call_ok [OF that, of fn] by (auto simp: keeps_sys_def)
qed simp

subsection \<open>Signal handlers\<close>

lemma plans_write [frame_simps]: "k_fault (snd (sys_write fd bs k)) = k_fault k"
  by (auto simp: sys_write_def syscall_def sys_fail_def split: option.splits fkind.splits)

text \<open>A step that only talks to the kernel and leaves kinds, sets and fault plan as they are.\<close>

definition kernel_only :: "gt_state \<Rightarrow> gt_state \<Rightarrow> bool" where
  "kernel_only s s' \<longleftrightarrow> (\<exists>k. s' = s\<lparr>kern := k\<rparr> \<and> shape k = shape (kern s) \<and> k_fault k = k_fault (kern s))"

lemma kernel_onlyI: "shape k = shape (kern s) \<Longrightarrow> k_fault k = k_fault (kern s) \<Longrightarrow> kernel_only s (s\<lparr>kern := k\<rparr>)"
  by (auto simp: kernel_only_def)

lemma kernel_only_refl [simp]: "kernel_only s s"
  unfolding kernel_only_def by (rule exI [of _ "kern s"]) simp

lemma kernel_only_trans: "kernel_only s s1 \<Longrightarrow> kernel_only s1 s2 \<Longrightarrow> kernel_only s s2"
  by (auto simp: kernel_only_def)

lemma kernel_only_io [simp]:
  "kernel_only s (GT_ERROR_LOG md fmt a s)" "kernel_only s (GT_INFO_LOG md fmt a s)"
  "kernel_only s (dprintf fd str s)" "kernel_only s (snd (lift_k (sys_write fd bs) s))"
  "kernel_only s (s\<lparr>kern := (kern s)\<lparr>k_errno := e\<rparr>\<rparr>)"
  by (auto simp: GT_ERROR_LOG_def GT_INFO_LOG_def dprintf_def lift_k_eq frame_simps intro!: kernel_onlyI)

lemma kernel_only_deliver [simp]: "kernel_only s (gt_signal_deliver sig s)"
  using kernel_only_io(4) [of s] kernel_only_trans [OF kernel_only_io(4) kernel_only_io(1)]
  by (simp add: gt_signal_deliver_def Let_def case_prod_unfold)

lemma kernel_only_frames: "print_frames strs frame s = Some s' \<Longrightarrow> kernel_only s s'"
proof (induction strs frame s rule: print_frames.induct)
  case (2 str strs frame s)
  then show ?case
    by (fastforce simp: bind_eq_Some_conv intro: kernel_only_trans [OF kernel_only_io(3)])
qed simp

lemma kernel_only_routine:
  assumes "gt_signal_routine strs sig s = Some s'"
  shows "kernel_only s s'"
proof -
  from assms obtain s1 where s1: "s1 = s \<or> gt_backtrace_print strs sig s = Some s1"
    "s' = (gt_signal_deliver sig s1)\<lparr>kern := (kern (gt_signal_deliver sig s1))\<lparr>k_errno := gt_errno s\<rparr>\<rparr>"
    by (auto simp: gt_signal_routine_def Let_def bind_eq_Some_conv split: if_splits)
  have "kernel_only s s1"
    using s1(1) by (auto simp: gt_backtrace_print_def Let_def bind_eq_Some_conv
        intro: kernel_only_trans [OF kernel_only_io(3) kernel_only_frames])
  then have "kernel_only s (gt_signal_deliver sig s1)" by (rule kernel_only_trans) simp
  then show ?thesis unfolding s1(2) by (rule kernel_only_trans) simp
qed

lemma kernel_only_sys_ok: "kernel_only s s' \<Longrightarrow> sys_ok s \<Longrightarrow> sys_ok s'"
  by (auto simp: kernel_only_def sys_ok_def sys_inv_kern mild_def)

subsection \<open>The machine\<close>

text \<open>
  Steps of the running program, in any order and interleaving of whole operations: a start-up
  function, the initialisation of a poller by its thread, one round of a poller on any readiness
  report, a signal handler, and the environment (data, connections and hang-ups arriving), which
  may change the files but not their kinds and sets.
\<close>

inductive sys_step :: "gt_state \<Rightarrow> gt_state \<Rightarrow> bool" where
  phase: "phase_call fn s = Some (r, s') \<Longrightarrow> sys_step s s'"
| thread_init: "gp \<in> set static_pollers \<Longrightarrow> gt_poller_init (maxe_of gp) tmo gp s = Some (r, s') \<Longrightarrow> sys_step s s'"
| round: "gt_poller_epoll_wait ops_call rdy gp s = Some s' \<Longrightarrow> sys_step s s'"
| signal: "gt_signal_routine strs sig s = Some s' \<Longrightarrow> sys_step s s'"
| environment: "shape k = shape (kern s) \<Longrightarrow> k_fault k = k_fault (kern s) \<Longrightarrow> sys_step s (s\<lparr>kern := k\<rparr>)"

inductive sys_reachable :: "gt_state \<Rightarrow> bool" where
  boot: "mild (boot_kernel fault alloc) \<Longrightarrow> sys_reachable (boot_state (boot_kernel fault alloc))"
| step: "sys_reachable s \<Longrightarrow> sys_step s s' \<Longrightarrow> sys_reachable s'"

lemma sys_step_ok: "sys_step s s' \<Longrightarrow> sys_ok s \<Longrightarrow> sys_ok s'"
proof (induction rule: sys_step.induct)
  case (phase fn s r s')
  with phase_call_ok [of s fn] show ?case by (auto simp: sys_ok_def keeps_sys_def mild_def)
next
  case (thread_init gp tmo s r s')
  then have "gpollers s gp \<noteq> None" by (auto simp: sys_ok_def sys_inv_def tables_ok_def)
  with thread_init sys_inv_init [of s gp tmo] show ?case by (auto simp: sys_ok_def mild_def)
next
  case (round rdy gp s s')
  then have "gpollers s gp \<noteq> None" by (cases "gpollers s gp") (auto simp: gt_poller_epoll_wait_def)
  with round el.epoll_wait_safe [of s gp rdy] show ?case by auto
next
  case (signal strs sig s s')
  then show ?case by (blast intro: kernel_only_sys_ok kernel_only_routine)
next
  case (environment k s)
  then show ?case by (auto intro: kernel_only_sys_ok [OF kernel_onlyI])
qed

lemma sys_reachable_ok: "sys_reachable s \<Longrightarrow> sys_ok s"
proof (induction rule: sys_reachable.induct)
  case (boot fault alloc)
  then show ?case using sys_inv_boot by (simp add: sys_ok_def boot_state_def mild_def)
qed (blast intro: sys_step_ok)

subsection \<open>Properties\<close>

text \<open>
  C6: in every state the running system can reach with transient failures only, every epoll set
  holds pointers to live events of the registered descriptor that have a read handler, and a round
  of any poller on any readiness report comes back: no dangling pointer is followed, no null
  handler called, no overflow of the report buffer, no blocking read.
\<close>

theorem sys_reachable_safe:
  assumes "sys_reachable s"
  shows "(\<forall>ep f fd ev. file_at (kern s) ep = Some f \<longrightarrow> f_interest f fd = Some ev \<longrightarrow>
      (\<exists>gev. gevents s (ev_ptr ev) = Some gev \<and> ge_efd gev = fd \<and> op_read (ge_ops gev) \<noteq> None)) \<and>
    (\<forall>gp rdy. gp \<in> set static_pollers \<longrightarrow> gt_poller_epoll_wait ops_call rdy gp s \<noteq> None)"
proof -
  from assms have ok: "sys_ok s" by (rule sys_reachable_ok)
  then have inv: "sys_inv s" by (simp add: sys_ok_def)
  have "\<exists>gev. gevents s (ev_ptr ev) = Some gev \<and> ge_efd gev = fd \<and> op_read (ge_ops gev) \<noteq> None"
    if "file_at (kern s) ep = Some f" "f_interest f fd = Some ev" for ep f fd ev
    by (rule entries_okD [OF sys_invD(2) [OF inv], of ep "f_kind f" "f_interest f" fd ev])
      (use that in \<open>auto simp: shape_def\<close>)
  moreover have "gt_poller_epoll_wait ops_call rdy gp s \<noteq> None" if "gp \<in> set static_pollers" for gp rdy
    using el.epoll_wait_safe [OF ok, of gp rdy] sys_invD(5) [OF inv] that by (auto simp: tables_ok_def)
  ultimately show ?thesis by blast
qed

lemma demo_mild: "mild demo_kernel"
  by (simp add: mild_def demo_kernel_def boot_kernel_def)

definition demo_listening :: gt_state where
  "demo_listening = (case phase_call FN_network_phase1_func (boot_state demo_kernel) of
     Some (r, s) \<Rightarrow> s | None \<Rightarrow> boot_state demo_kernel)"

lemma demo_listening_reachable: "sys_reachable demo_listening"
proof -
  have "sys_reachable (boot_state demo_kernel)"
    using sys_reachable.boot demo_mild unfolding demo_kernel_def by blast
  then show ?thesis
    by (auto simp: demo_listening_def intro: sys_reachable.step [OF _ sys_step.phase] split: option.splits)
qed

theorem sys_reachable_safe_witness:
  "gt_poller_epoll_wait ops_call ([4], \<lambda>_. EPOLLIN) g_gt_network_poller demo_listening \<noteq> None"
  using sys_reachable_safe [OF demo_listening_reachable] by (simp add: static_pollers_def)

text \<open>
  C23: from any state that satisfies the system invariant, and with any failures of the system
  calls, \<open>gt_phase_run\<close> returns; it calls exactly the registered functions, each once, in
  ascending order of phase and submodule, and stops at the first that fails.
\<close>

theorem phase_run_ordered:
  assumes "phase_table_ok s" "sys_inv s"
  shows "gt_phase_run phase_call s = run_schedule phase_call (schedule s) s \<and>
    gt_phase_run phase_call s \<noteq> None \<and>
    sorted_wrt (<) (map (\<lambda>(p, c, f). (p, c)) (schedule s)) \<and>
    (\<forall>ph cm fn. (ph, cm, fn) \<in> set (schedule s) \<longleftrightarrow>
       ph \<noteq> GT_PHASE_MAX \<and> cm \<noteq> GT_CMOD_MAX \<and> registered s ph cm = Some fn)"
  using ps.phase_run [OF assms(1)] ps.phase_run_returns [OF assms] schedule_sorted set_schedule by auto

theorem phase_run_ordered_witness:
  "gt_phase_run phase_call (boot_state demo_kernel) =
   run_schedule phase_call (schedule (boot_state demo_kernel)) (boot_state demo_kernel)"
  using phase_run_ordered [OF phase_table_ok_boot, of demo_kernel] sys_inv_boot
  unfolding demo_kernel_def by blast

subsubsection \<open>Broken connections\<close>

lemma datanet_drop:
  assumes inv: "sys_inv s" and g: "gevents s ge = Some gev" "op_read (ge_ops gev) = Some FN_datanet_ops_read"
    and f: "file_at (kern s) (ge_efd gev) = Some f" "stream (f_kind f)"
    and rd: "sys_read (ge_efd gev) 127 (kern s) = Some (r, bs, k)" "r \<le> 0" "k_errno k \<noteq> EAGAIN"
  shows "\<exists>s'. gt_datanet_ops_read ge s = Some (r, s') \<and> gevents s' = (gevents s)(ge := None) \<and>
    file_at (kern s') (ge_efd gev) = None"
proof -
  let ?s = "s\<lparr>kern := k\<rparr>"
  let ?t = "GT_INFO_LOG GT_MOD_CORE ''Failed to read fd:%d, errno:%d'' [AInt (ge_efd gev), AInt (gt_errno ?s)] ?s"
  note sh = shape_read [OF rd(1)]
  have "shape (kern ?t) (ge_efd gev) = Some (f_kind f, f_interest f)" using sh f(1) by (simp add: shape_def)
  then have t: "link_ok (shape (kern ?t)) (ge_efd gev) FN_datanet_ops_read"
    "file_at (kern ?t) (ge_efd gev) \<noteq> None" using f(2) by (auto simp: link_ok_def shape_def)
  have it: "sys_inv ?t" "gevents ?t ge = Some gev" using inv sh g by (simp_all add: sys_inv_kern)
  obtain r1 s1 s2 where s2: "gt_poller_event_stop EPOLLIN ge ?t = Some (r1, s1)"
    "gt_poller_gevent_destroy ge s1 = Some s2" "sys_inv s2" "gevents s2 = (gevents ?t)(ge := None)"
    "file_at (kern s2) (ge_efd gev) = None" "k_fault (kern s2) = k_fault (kern ?t)"
    "\<And>a. a \<noteq> ge_efd gev \<Longrightarrow> carries (kern ?t) (kern s2) a"
    by (rule stop_destroy_ok [OF it g(2) t]) (rule that)
  have "gt_datanet_ops_read ge s = Some (r, s2)"
    using rd g s2(1,2) by (simp add: gt_datanet_ops_read_def gt_errno_def Let_def)
  with s2(4,5) show ?thesis by simp
qed

text \<open>
  C24: a read error other than \<open>EAGAIN\<close> on a data connection is a use after free: the handler
  destroys the event and returns the negative result, and \<open>gt_poller_epoll_wait\<close> then reads the
  descriptor of the freed event for its log message.
\<close>

theorem datanet_error_use_after_free:
  assumes inv: "sys_inv s" and sv: "event_serviceable s ge fd"
    and g: "gevents s ge = Some gev" "op_read (ge_ops gev) = Some FN_datanet_ops_read"
    and fault: "fault_now (kern s) = Some e" "e \<noteq> EAGAIN"
    and ev: "ev_ptr ev = ge" "ev_events ev AND EPOLLIN \<noteq> 0"
  shows "(\<exists>s'. ops_call FN_datanet_ops_read ge s = Some (-1, s') \<and> gevents s' ge = None) \<and>
    epoll_dispatch_one ops_call ev s = None"
proof -
  from sv g obtain f where f: "file_at (kern s) (ge_efd gev) = Some f" "stream (f_kind f)"
    by (auto simp: event_serviceable_def)
  have "sys_read (ge_efd gev) 127 (kern s) = Some (-1, [], (next_call (kern s))\<lparr>k_errno := e\<rparr>)"
    using fault by (simp add: sys_read_def Let_def)
  from datanet_drop [OF inv g f this] fault(2) obtain s' where
    s': "gt_datanet_ops_read ge s = Some (-1, s')" "gevents s' ge = None" by auto
  with g ev show ?thesis by (auto simp: ops_call_def epoll_dispatch_one_def)
qed

text \<open>
  A concrete run: the data poller 2 is initialised, a connection arrives on the listening
  descriptor 4, a round of the network poller accepts it as descriptor 6, and the peer hangs up.
\<close>

definition poke :: "fd \<Rightarrow> (ofile \<Rightarrow> ofile) \<Rightarrow> gt_state \<Rightarrow> gt_state" where
  "poke fd g s = (case file_at (kern s) fd of Some f \<Rightarrow> s\<lparr>kern := put_file fd (g f) (kern s)\<rparr> | None \<Rightarrow> s)"

definition demo_init :: "gt_state option" where
  "demo_init = map_option snd (gt_poller_init GT_NETWORKER_MAXEVENT 50 (g_gt_datanet_poller 2) demo_listening)"

definition demo_conn :: "gt_state option" where
  "demo_conn = do {
     s \<leftarrow> demo_init;
     s \<leftarrow> gt_poller_epoll_wait ops_call ([4], \<lambda>_. EPOLLIN) g_gt_network_poller (poke 4 (f_pending_update (\<lambda>_. 1)) s);
     Some (poke 6 (f_eof_update (\<lambda>_. True)) s) }"

lemma poke_reachable:
  assumes "sys_reachable s" "\<And>f. f_kind (g f) = f_kind f \<and> f_interest (g f) = f_interest f"
  shows "sys_reachable (poke fd g s)"
proof (cases "file_at (kern s) fd")
  case (Some f)
  have "sys_step s (s\<lparr>kern := put_file fd (g f) (kern s)\<rparr>)"
    using assms(2) by (intro sys_step.environment) (simp_all add: shape_put_same [OF Some])
  with Some assms(1) show ?thesis by (auto simp: poke_def intro: sys_reachable.step)
qed (simp add: poke_def assms(1))

lemma demo_init_reachable: "demo_init = Some s \<Longrightarrow> sys_reachable s"
proof -
  assume "demo_init = Some s"
  then obtain r where "gt_poller_init (maxe_of (g_gt_datanet_poller 2)) 50 (g_gt_datanet_poller 2) demo_listening = Some (r, s)"
    by (auto simp: demo_init_def maxe_of_def g_gt_core_poller_def g_gt_datanet_poller_def)
  moreover have "g_gt_datanet_poller 2 \<in> set static_pollers"
    by (simp add: static_pollers_def GT_DATANET_PTHREAD_NUM_def)
  ultimately show ?thesis
    using demo_listening_reachable sys_reachable.step sys_step.thread_init by blast
qed

lemma demo_conn_reachable:
  assumes "demo_conn = Some s"
  shows "sys_reachable s"
proof -
  from assms obtain s0 s1 where s: "demo_init = Some s0"
    "gt_poller_epoll_wait ops_call ([4], \<lambda>_. EPOLLIN) g_gt_network_poller (poke 4 (f_pending_update (\<lambda>_. 1)) s0) = Some s1"
    "s = poke 6 (f_eof_update (\<lambda>_. True)) s1"
    by (auto simp: demo_conn_def bind_eq_Some_conv)
  from demo_init_reachable [OF s(1)] have "sys_reachable (poke 4 (f_pending_update (\<lambda>_. 1)) s0)"
    by (rule poke_reachable) simp
  then have "sys_reachable s1" using s(2) by (blast intro: sys_reachable.step sys_step.round)
  then show ?thesis unfolding s(3) by (rule poke_reachable) simp
qed

definition demo_check :: bool where
  "demo_check = (case demo_conn of None \<Rightarrow> False | Some s \<Rightarrow>
     (case (gevents s 0x801000, file_at (kern s) 6) of
        (Some gev, Some f) \<Rightarrow> ge_efd gev = 6 \<and> op_read (ge_ops gev) = Some FN_datanet_ops_read \<and>
          f_kind f = FK_sock \<and> f_rx f = [] \<and> f_eof f \<and> k_errno (kern s) = 0 \<and> fault_now (kern s) = None
      | _ \<Rightarrow> False))"

lemma demo_conn_facts:
  obtains s gev f where "demo_conn = Some s" "gevents s 0x801000 = Some gev" "ge_efd gev = 6"
    "op_read (ge_ops gev) = Some FN_datanet_ops_read" "file_at (kern s) 6 = Some f" "f_kind f = FK_sock"
    "f_rx f = []" "f_eof f" "k_errno (kern s) = 0" "fault_now (kern s) = None" "sys_inv s"
    "event_serviceable s 0x801000 6"
proof -
  have "demo_check" by code_simp
  then obtain s gev f where s: "demo_conn = Some s" "gevents s 0x801000 = Some gev" "ge_efd gev = 6"
    "op_read (ge_ops gev) = Some FN_datanet_ops_read" "file_at (kern s) 6 = Some f" "f_kind f = FK_sock"
    "f_rx f = []" "f_eof f" "k_errno (kern s) = 0" "fault_now (kern s) = None"
    by (auto simp: demo_check_def split: option.splits)
  moreover have "sys_inv s" using sys_reachable_ok [OF demo_conn_reachable [OF s(1)]] by (simp add: sys_ok_def)
  moreover have "event_serviceable s 0x801000 6"
    using s by (simp add: event_serviceable_def readable_def stream_def)
  ultimately show ?thesis using that by blast
qed

text \<open>The run goes on with a reset of the connection.\<close>

definition reset_plan :: "gt_state \<Rightarrow> gt_state" where
  "reset_plan s = s\<lparr>kern := (kern s)\<lparr>k_fault := (\<lambda>_. Some ECONNRESET)\<rparr>\<rparr>"

theorem datanet_error_use_after_free_witness:
  "\<exists>s. demo_conn = Some s \<and> epoll_dispatch_one ops_call \<lparr>ev_events = EPOLLIN, ev_ptr = 0x801000\<rparr> (reset_plan s) = None"
proof -
  obtain s gev f where s: "demo_conn = Some s" "gevents s 0x801000 = Some gev" "ge_efd gev = 6"
    "op_read (ge_ops gev) = Some FN_datanet_ops_read" "file_at (kern s) 6 = Some f" "f_kind f = FK_sock"
    "f_rx f = []" "f_eof f" "k_errno (kern s) = 0" "fault_now (kern s) = None" "sys_inv s"
    "event_serviceable s 0x801000 6"
    by (rule demo_conn_facts)
  have fa: "file_at (kern (reset_plan s)) = file_at (kern s)"
    by (simp add: reset_plan_def file_at_def fun_eq_iff)
  have "sys_inv (reset_plan s)"
    unfolding reset_plan_def
    by (subst sys_inv_kern) (use s(11) fa in \<open>auto simp: reset_plan_def intro: shape_file_at\<close>)
  moreover have "event_serviceable (reset_plan s) 0x801000 6"
    using s(12) fa by (simp add: event_serviceable_def reset_plan_def)
  moreover have "gevents (reset_plan s) 0x801000 = Some gev" "fault_now (kern (reset_plan s)) = Some ECONNRESET"
    "ECONNRESET \<noteq> EAGAIN" "EPOLLIN AND EPOLLIN \<noteq> 0"
    using s(2) by (simp_all add: reset_plan_def fault_now_def ECONNRESET_def EAGAIN_def EPOLLIN_def)
  ultimately have "epoll_dispatch_one ops_call \<lparr>ev_events = EPOLLIN, ev_ptr = 0x801000\<rparr> (reset_plan s) = None"
    using datanet_error_use_after_free [of "reset_plan s" "0x801000" 6 gev ECONNRESET
        "\<lparr>ev_events = EPOLLIN, ev_ptr = 0x801000\<rparr>"] s(4) by simp
  with s(1) show ?thesis by blast
qed

text \<open>
  C25: when the peer has closed the connection, the handler destroys the event and closes the
  descriptor, unless \<open>errno\<close> still holds \<open>EAGAIN\<close> from an earlier call: \<open>read\<close> returns 0
  without setting it, and then the handler returns \<open>GT_OK\<close> with nothing done, so the descriptor
  stays ready and the event loop spins on it.
\<close>

theorem datanet_eof_stale_errno:
  assumes inv: "sys_inv s" and g: "gevents s ge = Some gev" "op_read (ge_ops gev) = Some FN_datanet_ops_read"
    and f: "file_at (kern s) (ge_efd gev) = Some f" "stream (f_kind f)" "f_rx f = []" "f_eof f"
    and nf: "fault_now (kern s) = None"
  shows "if k_errno (kern s) = EAGAIN
    then gt_datanet_ops_read ge s = Some (GT_OK, s\<lparr>kern := next_call (kern s)\<rparr>)
    else \<exists>s'. gt_datanet_ops_read ge s = Some (0, s') \<and> gevents s' = (gevents s)(ge := None) \<and>
              file_at (kern s') (ge_efd gev) = None"
proof -
  have rd: "sys_read (ge_efd gev) 127 (kern s) = Some (0, [], next_call (kern s))"
    using f nf by (simp add: sys_read_def Let_def stream_def)
  show ?thesis
  proof (cases "k_errno (kern s) = EAGAIN")
    case True
    with rd g show ?thesis by (simp add: gt_datanet_ops_read_def gt_errno_def Let_def)
  next
    case False
    with datanet_drop [OF inv g f(1,2) rd] show ?thesis by simp
  qed
qed

theorem datanet_eof_stale_errno_witness:
  "\<exists>s s'. demo_conn = Some s \<and> gt_datanet_ops_read 0x801000 s = Some (0, s') \<and> gevents s' 0x801000 = None"
proof -
  obtain s gev f where s: "demo_conn = Some s" "gevents s 0x801000 = Some gev" "ge_efd gev = 6"
    "op_read (ge_ops gev) = Some FN_datanet_ops_read" "file_at (kern s) 6 = Some f" "f_kind f = FK_sock"
    "f_rx f = []" "f_eof f" "k_errno (kern s) = 0" "fault_now (kern s) = None" "sys_inv s"
    "event_serviceable s 0x801000 6"
    by (rule demo_conn_facts)
  from datanet_eof_stale_errno [OF s(11,2,4), of f] s(3,5-10) have
    "\<exists>s'. gt_datanet_ops_read 0x801000 s = Some (0, s') \<and> gevents s' = (gevents s)(0x801000 := None)"
    by (auto simp: stream_def EAGAIN_def)
  with s(1) show ?thesis by auto
qed

subsubsection \<open>Handing out connections\<close>

text \<open>An initialised poller starts with an empty epoll set.\<close>

lemma poller_init_entry:
  assumes gp: "gpollers s gp = Some p" and r: "gt_poller_init maxe tmo gp s = Some (r, s')" and g: "ge_gpoller gev = gp"
  shows "kernel_entry s' gev = None"
proof -
  obtain epfd k1 where k1: "sys_epoll_create (maxe + 1) (kern s) = (epfd, k1)" by fastforce
  have none: "\<And>f. file_at k1 epfd = Some f \<Longrightarrow> f_interest f = Map.empty"
  proof (cases "fault_now (kern s) = None \<and> 0 < maxe + 1")
    case True
    with k1 have "alloc_fd (new_file FK_epoll) (next_call (kern s)) = (epfd, k1)"
      by (simp add: sys_epoll_create_def syscall_def)
    from alloc_fd_spec(3) [OF this] show "\<And>f. file_at k1 epfd = Some f \<Longrightarrow> f_interest f = Map.empty"
      by (auto simp: new_file_def)
  next
    case False
    with k1 have "epfd = -1" by (cases "fault_now (kern s)") (auto simp: sys_epoll_create_def syscall_def sys_fail_def)
    then show "\<And>f. file_at k1 epfd = Some f \<Longrightarrow> f_interest f = Map.empty" by (simp add: file_at_def)
  qed
  obtain p' where "gpollers s' gp = Some p'" "gp_epfd p' = epfd" "file_at (kern s') = file_at k1"
  proof -
    have "(\<exists>p'. gpollers s' gp = Some p' \<and> gp_epfd p' = epfd) \<and> file_at (kern s') = file_at k1"
      using r gp k1
      by (auto simp: gt_poller_init_def gt_malloc_mem_def lift_k_eq Let_def bind_eq_Some_conv split: if_splits option.splits)
    with that show ?thesis by blast
  qed
  with none g show ?thesis by (cases "file_at k1 epfd") (simp_all add: kernel_entry_def)
qed

lemma round_dispatch_row:
  assumes "tables_ok s" "i = nat (sockfd mod int GT_DATANET_PTHREAD_NUM)"
  shows "i < GT_DATANET_PTHREAD_NUM" "length (g_gt_datanet_pthread s) = GT_DATANET_PTHREAD_NUM"
    "nth_opt (g_gt_datanet_pthread s) i = Some (g_gt_datanet_pthread s ! i)"
    "pt_data (g_gt_datanet_pthread s ! i) = g_gt_datanet_poller i"
    "gpollers s (g_gt_datanet_poller i) \<noteq> None"
proof -
  show i: "i < GT_DATANET_PTHREAD_NUM"
    using assms(2) by (simp add: GT_DATANET_PTHREAD_NUM_def nat_less_iff)
  from datanet_row [OF assms(1) i] show "length (g_gt_datanet_pthread s) = GT_DATANET_PTHREAD_NUM"
    "pt_data (g_gt_datanet_pthread s ! i) = g_gt_datanet_poller i" "gpollers s (g_gt_datanet_poller i) \<noteq> None"
    by simp_all
  with i show "nth_opt (g_gt_datanet_pthread s) i = Some (g_gt_datanet_pthread s ! i)" by (simp add: nth_opt_def)
qed

text \<open>What a dispatch does when no call fails.\<close>

lemma round_dispatch_state:
  assumes inv: "sys_inv s" and nf: "no_faults (kern s)"
    and al: "fresh_block (k_alloc (kern s) (k_calls (kern s))) s"
    and gp: "gp = g_gt_datanet_poller (nat (sockfd mod 4))" "gpollers s gp = Some p"
    and ep: "file_at (kern s) (gp_epfd p) = Some f" "f_kind f = FK_epoll" "f_interest f sockfd = None"
    and sk: "file_at (kern s) sockfd = Some g" "f_kind g = FK_sock" "sockfd \<noteq> gp_epfd p"
  shows "\<exists>ge gev s'. gt_network_round_dispatch sockfd s = Some (GT_OK, s') \<and> gevents s' ge = Some gev \<and>
    ge_efd gev = sockfd \<and> ge_gpoller gev = gp \<and> op_read (ge_ops gev) = Some FN_datanet_ops_read \<and>
    gpollers s' = gpollers s \<and> file_at (kern s') = (file_at (kern s))(gp_epfd p \<mapsto>
      f\<lparr>f_interest := (f_interest f)(sockfd \<mapsto> \<lparr>ev_events = EPOLLIN, ev_ptr = ge\<rparr>)\<rparr>)"
proof -
  define i where "i = nat (sockfd mod int GT_DATANET_PTHREAD_NUM)"
  note row = round_dispatch_row [OF sys_invD(5) [OF inv] i_def]
  have gi: "gp = g_gt_datanet_poller i" using gp(1) by (simp add: i_def GT_DATANET_PTHREAD_NUM_def)
  have now: "fault_now (kern s) = None" using nf by simp
  let ?ge = "k_alloc (kern s) (k_calls (kern s))"
  from demo_create [OF sys_invD(1) [OF inv] row(5) now al, of sockfd] obtain s1 where
    c: "gt_poller_gevent_create sockfd gp s = Some (?ge, s1)" unfolding gi by blast
  have nn: "?ge \<noteq> NULL" using al by (simp add: fresh_block_def)
  from gevent_create_ok [OF sys_invD(1) [OF inv] row(5), of sockfd] c nn
  have s1: "gevents s1 ?ge = Some (created_event sockfd gp)" "gpollers s1 = gpollers s"
    "file_at (kern s1) = file_at (kern s)" "k_fault (kern s1) = k_fault (kern s)" unfolding gi by auto
  let ?gev = "with_reader FN_datanet_ops_read (created_event sockfd gp)"
  let ?s2 = "put_event ?ge ?gev s1" and ?ev = "\<lparr>ev_events = EPOLLIN, ev_ptr = ?ge\<rparr>"
  have g2: "gevents ?s2 ?ge = Some ?gev" "gpollers ?s2 (ge_gpoller ?gev) = Some p"
    "ev_events (ge_e ?gev) = 0" "ge_efd ?gev = sockfd"
    using s1 gp(2) by (simp_all add: put_event_def with_reader_def)
  let ?k = "put_file (gp_epfd p) (f\<lparr>f_interest := (f_interest f)(sockfd \<mapsto> ?ev)\<rparr>) (next_call (kern s1))"
  have "fault_now (kern s1) = None" using nf s1(4) by (simp add: no_faults_def fault_now_def)
  then have k: "sys_epoll_ctl (gp_epfd p) EPOLL_CTL_ADD sockfd ?ev (kern s1) = (0, ?k)"
    using ep sk s1(3) by (intro epoll_ctl_ok) auto
  let ?s3 = "(put_event ?ge (?gev\<lparr>ge_e := ?ev\<rparr>) ?s2)\<lparr>kern := ?k\<rparr>"
  have st: "gt_poller_event_start EPOLLIN ?ge ?s2 = Some (GT_OK, ?s3)"
    using event_start_eval [OF g2(1,2), of EPOLLIN EPOLL_CTL_ADD ?ev 0 ?k ?s3] g2(3,4) k
    by (simp add: GT_OK_def put_event_def)
  have "gt_network_round_dispatch sockfd s = Some (GT_OK, ?s3)"
    using c nn s1(1) st row i_def gi
    by (simp add: gt_network_round_dispatch_def with_reader_def Let_def)
  moreover have "file_at (kern ?s3) = (file_at (kern s))(gp_epfd p \<mapsto> f\<lparr>f_interest := (f_interest f)(sockfd \<mapsto> ?ev)\<rparr>)"
    using s1 ep(1) by (simp add: put_event_def file_at_put_fun)
  ultimately show ?thesis using s1(2)
    by (intro exI [of _ ?ge] exI [of _ "?gev\<lparr>ge_e := ?ev\<rparr>"] exI [of _ ?s3])
      (simp add: put_event_def with_reader_def)
qed

text \<open>
  A new connection goes to the poller whose index is the descriptor modulo four. When that
  poller is initialised and no call fails, afterwards a live event for the descriptor, with the
  data handler, is registered for input in that poller's epoll set under the event's own address.
\<close>

theorem round_dispatch_registers:
  assumes inv: "sys_inv s" and nf: "no_faults (kern s)"
    and al: "fresh_block (k_alloc (kern s) (k_calls (kern s))) s"
    and gp: "gp = g_gt_datanet_poller (nat (sockfd mod 4))" "gpollers s gp = Some p"
    and ep: "file_at (kern s) (gp_epfd p) = Some f" "f_kind f = FK_epoll" "f_interest f sockfd = None"
    and sk: "file_at (kern s) sockfd = Some g" "f_kind g = FK_sock" "sockfd \<noteq> gp_epfd p"
  shows "\<exists>ge gev s'. gt_network_round_dispatch sockfd s = Some (GT_OK, s') \<and> gevents s' ge = Some gev \<and>
    ge_efd gev = sockfd \<and> ge_gpoller gev = gp \<and> op_read (ge_ops gev) = Some FN_datanet_ops_read \<and>
    kernel_entry s' gev = Some \<lparr>ev_events = EPOLLIN, ev_ptr = ge\<rparr>"
proof -
  from round_dispatch_state [OF assms] obtain ge gev s' where
    s': "gt_network_round_dispatch sockfd s = Some (GT_OK, s')" "gevents s' ge = Some gev" "ge_efd gev = sockfd"
      "ge_gpoller gev = gp" "op_read (ge_ops gev) = Some FN_datanet_ops_read" "gpollers s' = gpollers s"
      "file_at (kern s') = (file_at (kern s))(gp_epfd p \<mapsto>
        f\<lparr>f_interest := (f_interest f)(sockfd \<mapsto> \<lparr>ev_events = EPOLLIN, ev_ptr = ge\<rparr>)\<rparr>)" by blast
  then have "kernel_entry s' gev = Some \<lparr>ev_events = EPOLLIN, ev_ptr = ge\<rparr>" using gp(2) by (simp add: kernel_entry_def)
  with s'(1-5) show ?thesis by blast
qed

text \<open>The concrete run before its first connection, with a socket accepted as descriptor 6.\<close>

definition demo_accepted :: "gt_state option" where
  "demo_accepted = map_option (\<lambda>s. s\<lparr>kern := snd (alloc_fd (new_file FK_sock) (kern s))\<rparr>) demo_init"

lemma demo_init_no_faults:
  assumes "demo_init = Some s"
  shows "no_faults (kern s)"
proof -
  have b: "sys_inv (boot_state demo_kernel)" "no_faults (kern (boot_state demo_kernel))"
    using sys_inv_boot unfolding demo_kernel_def by (simp_all add: boot_state_def no_faults_def boot_kernel_def)
  from phase_call_ok [OF b(1), of FN_network_phase1_func] b(2) have l: "no_faults (kern demo_listening)"
    by (auto simp: keeps_sys_def demo_listening_def no_faults_def)
  have il: "sys_inv demo_listening"
    using sys_reachable_ok [OF demo_listening_reachable] by (simp add: sys_ok_def)
  from assms obtain r where r: "gt_poller_init GT_NETWORKER_MAXEVENT 50 (g_gt_datanet_poller 2) demo_listening = Some (r, s)"
    by (auto simp: demo_init_def)
  then obtain p where "gpollers demo_listening (g_gt_datanet_poller 2) = Some p"
    by (auto simp: gt_poller_init_def bind_eq_Some_conv)
  from poller_init_effect [OF this r] l show ?thesis by (simp add: no_faults_def)
qed

definition dispatch_check :: bool where
  "dispatch_check = (case demo_accepted of None \<Rightarrow> False | Some s \<Rightarrow>
     (case (gpollers s (g_gt_datanet_poller 2), file_at (kern s) 5, file_at (kern s) 6) of
        (Some p, Some f, Some g) \<Rightarrow> gp_epfd p = 5 \<and> f_kind f = FK_epoll \<and> f_interest f 6 = None \<and>
          f_kind g = FK_sock \<and> fresh_block (k_alloc (kern s) (k_calls (kern s))) s
      | _ \<Rightarrow> False))"

lemma demo_accepted_facts:
  assumes "demo_accepted = Some s"
  shows "sys_inv s" "no_faults (kern s)"
proof -
  from assms obtain s0 where s0: "demo_init = Some s0" and
    s: "s = s0\<lparr>kern := snd (alloc_fd (new_file FK_sock) (kern s0))\<rparr>" by (auto simp: demo_accepted_def)
  have i: "sys_inv s0" using sys_reachable_ok [OF demo_init_reachable [OF s0]] by (simp add: sys_ok_def)
  obtain a k where al: "alloc_fd (new_file FK_sock) (kern s0) = (a, k)" by fastforce
  from shape_alloc [OF al] entries_alloc [OF sys_invD(2) [OF i]] show "sys_inv s"
    unfolding s al by (intro sys_inv_entries [OF i]) (simp add: new_file_def)
  show "no_faults (kern s)"
    using demo_init_no_faults [OF s0] alloc_fd_spec(5) [OF al] by (simp add: s al no_faults_def)
qed

theorem round_dispatch_registers_witness:
  "\<exists>s ge gev s'. demo_accepted = Some s \<and> gt_network_round_dispatch 6 s = Some (GT_OK, s') \<and>
     gevents s' ge = Some gev \<and> ge_efd gev = 6 \<and> ge_gpoller gev = g_gt_datanet_poller 2 \<and>
     kernel_entry s' gev = Some \<lparr>ev_events = EPOLLIN, ev_ptr = ge\<rparr>"
proof -
  have dispatch_check by code_simp
  then obtain s p f g where s: "demo_accepted = Some s" "gpollers s (g_gt_datanet_poller 2) = Some p"
    "file_at (kern s) 5 = Some f" "file_at (kern s) 6 = Some g" "gp_epfd p = 5" "f_kind f = FK_epoll"
    "f_interest f 6 = None" "f_kind g = FK_sock" "fresh_block (k_alloc (kern s) (k_calls (kern s))) s"
    by (auto simp: dispatch_check_def split: option.splits)
  from round_dispatch_registers [OF demo_accepted_facts [OF s(1)] s(9), of "g_gt_datanet_poller 2" 6 p f g] s
  show ?thesis by auto
qed

text \<open>
  When the event cannot be allocated, \<open>gt_network_round_dispatch\<close> reports \<open>GT_OK\<close>, and
  the accepted descriptor stays open although no event refers to it: it is never read or closed.
\<close>

theorem round_dispatch_leak:
  assumes inv: "sys_inv s" and oom: "fault_now (kern s) \<noteq> None"
  shows "\<exists>s'. gt_network_round_dispatch sockfd s = Some (GT_OK, s') \<and> gevents s' = gevents s \<and>
    file_at (kern s') = file_at (kern s)"
proof -
  define i where "i = nat (sockfd mod int GT_DATANET_PTHREAD_NUM)"
  note row = round_dispatch_row [OF sys_invD(5) [OF inv] i_def]
  from gevent_create_ok [OF sys_invD(1) [OF inv] row(5), of sockfd] obtain r s1 where
    c: "gt_poller_gevent_create sockfd (g_gt_datanet_poller i) s = Some (r, s1)"
      "file_at (kern s1) = file_at (kern s)" "r = NULL \<longrightarrow> gevents s1 = gevents s" by auto
  from gevent_create_addr [OF c(1)] oom have "r = NULL" by (simp add: gt_malloc_mem_def Let_def)
  with c row i_def show ?thesis by (simp add: gt_network_round_dispatch_def Let_def)
qed

theorem round_dispatch_leak_witness:
  "\<exists>s'. gt_network_round_dispatch 1 (boot_state (boot_kernel (\<lambda>_. Some ENOMEM) (\<lambda>_. 0))) = Some (GT_OK, s') \<and>
        gevents s' = Map.empty"
proof -
  let ?s = "boot_state (boot_kernel (\<lambda>_. Some ENOMEM) (\<lambda>_. 0))"
  have "fault_now (kern ?s) \<noteq> None" "gevents ?s = Map.empty"
    by (simp_all add: boot_state_def boot_kernel_def fault_now_def)
  with round_dispatch_leak [OF sys_inv_boot, of "\<lambda>_. Some ENOMEM" "\<lambda>_. 0" 1] show ?thesis by auto
qed

end
