(* ===== verification/GT_Threads.thy ===== *)
theory GT_Threads
  imports GT_System
begin

text \<open>
  The thread routines of \<open>user/core/gt_worker.c\<close> and the machine they make together with the main
  thread. A routine is cut at the points where another thread can run in between: taking the
  mutex, waiting for the condition (which releases the mutex), taking it again after a wake-up,
  releasing it, and each round of its endless loop. Who holds \<open>gt_pthread_mutex\<close> is read off the
  threads: the one between a lock and the following wait or unlock.
\<close>

subsection \<open>Rows and positions\<close>

definition row_of :: "pthread_ref \<Rightarrow> gt_state \<Rightarrow> gt_pthread option" where
  "row_of ref s = (case ref of
       BusinessRow i \<Rightarrow> nth_opt (g_gt_business_pthread s) i
     | DatanetRow i \<Rightarrow> nth_opt (g_gt_datanet_pthread s) i)"

definition set_pid :: "pthread_ref \<Rightarrow> int \<Rightarrow> gt_state \<Rightarrow> gt_state" where
  "set_pid ref v s = (case ref of
       BusinessRow i \<Rightarrow> s\<lparr>g_gt_business_pthread := (g_gt_business_pthread s)[i := (g_gt_business_pthread s ! i)\<lparr>pt_pid := v\<rparr>]\<rparr>
     | DatanetRow i \<Rightarrow> s\<lparr>g_gt_datanet_pthread := (g_gt_datanet_pthread s)[i := (g_gt_datanet_pthread s ! i)\<lparr>pt_pid := v\<rparr>]\<rparr>)"

definition put_pc :: "nat \<Rightarrow> thread_pc \<Rightarrow> gt_state \<Rightarrow> gt_state" where
  "put_pc i pc s = s\<lparr>threads := (threads s)[i := (fst (threads s ! i), pc)]\<rparr>"

definition holds_mutex :: "thread_pc \<Rightarrow> bool" where
  "holds_mutex pc \<longleftrightarrow> pc = PC_locked \<or> pc = PC_owner"

definition mutex_free :: "gt_state \<Rightarrow> bool" where
  "mutex_free s \<longleftrightarrow> list_all (\<lambda>(_, pc). \<not> holds_mutex pc) (threads s)"

text \<open>A thread that waits for the mutex or for the condition, or that has ended, cannot run.\<close>

definition runnable :: "thread_pc \<Rightarrow> gt_state \<Rightarrow> bool" where
  "runnable pc s = (case pc of
       PC_lock \<Rightarrow> mutex_free s
     | PC_woken \<Rightarrow> mutex_free s
     | PC_waiting \<Rightarrow> False
     | PC_exited \<Rightarrow> False
     | _ \<Rightarrow> True)"

subsection \<open>The routines\<close>

text \<open>
  The part all three routines share: store the thread id in the row (\<open>tid\<close> is the answer of
  \<open>gettid\<close>), lock, wait, unlock; \<open>next\<close> is what follows the unlock. The argument of a routine is
  the row's address, so the null test at its start never holds.
\<close>

definition wait_section :: "int \<Rightarrow> nat \<Rightarrow> pthread_ref \<Rightarrow> thread_pc \<Rightarrow> thread_pc \<Rightarrow> gt_state \<Rightarrow> gt_state option" where
  "wait_section tid i ref pc next s = (case pc of
       PC_start \<Rightarrow> Some (put_pc i PC_lock (set_pid ref tid s))
     | PC_lock \<Rightarrow> Some (put_pc i PC_locked s)
     | PC_locked \<Rightarrow> Some (put_pc i PC_waiting s)
     | PC_woken \<Rightarrow> Some (put_pc i PC_owner s)
     | PC_owner \<Rightarrow> Some (put_pc i next s)
     | _ \<Rightarrow> None)"

definition gt_network_pthread_routine ::
  "readiness \<Rightarrow> int \<Rightarrow> nat \<Rightarrow> pthread_ref \<Rightarrow> gt_pthread \<Rightarrow> thread_pc \<Rightarrow> gt_state \<Rightarrow> gt_state option" where
  "gt_network_pthread_routine rdy tid i ref row pc s =
     (let gpoller = pt_data row in
      if pc = PC_loop then gt_poller_epoll_wait ops_call rdy gpoller s
      else wait_section tid i ref pc PC_loop s)"

definition gt_business_pthread_routine ::
  "int \<Rightarrow> nat \<Rightarrow> pthread_ref \<Rightarrow> thread_pc \<Rightarrow> gt_state \<Rightarrow> gt_state option" where
  "gt_business_pthread_routine tid i ref pc s =
     (if pc = PC_loop then Some s else wait_section tid i ref pc PC_loop s)"

definition gt_datanet_pthread_routine ::
  "readiness \<Rightarrow> int \<Rightarrow> nat \<Rightarrow> pthread_ref \<Rightarrow> gt_pthread \<Rightarrow> thread_pc \<Rightarrow> gt_state \<Rightarrow> gt_state option" where
  "gt_datanet_pthread_routine rdy tid i ref row pc s =
     (let gpoller = pt_data row in
      if pc = PC_init then do {
        (ret, s) \<leftarrow> gt_poller_init GT_NETWORKER_MAXEVENT GT_NETWORKER_EPWAIT_TIMEOUT gpoller s;
        if ret \<noteq> GT_OK then Some (put_pc i PC_exited (GT_ERROR_LOG GT_MOD_CORE ''Failed to init poller.'' [] s))
        else Some (put_pc i PC_loop s) }
      else if pc = PC_loop then gt_poller_epoll_wait ops_call rdy gpoller s
      else wait_section tid i ref pc PC_init s)"

definition thread_run :: "readiness \<Rightarrow> int \<Rightarrow> nat \<Rightarrow> gt_state \<Rightarrow> gt_state option" where
  "thread_run rdy tid i s = do {
     (ref, pc) \<leftarrow> nth_opt (threads s) i;
     row \<leftarrow> row_of ref s;
     (case pt_routine row of
        FN_business_routine \<Rightarrow> gt_business_pthread_routine tid i ref pc s
      | FN_network_routine \<Rightarrow> gt_network_pthread_routine rdy tid i ref row pc s
      | FN_datanet_routine \<Rightarrow> gt_datanet_pthread_routine rdy tid i ref row pc s) }"

subsection \<open>The machine\<close>

datatype label = L_run nat | L_spurious nat | L_create | L_wakeup | L_phase | L_main | L_signal | L_env

inductive world_step :: "label \<Rightarrow> gt_state \<Rightarrow> gt_state \<Rightarrow> bool" where
  run: "nth_opt (threads s) i = Some (ref, pc) \<Longrightarrow> runnable pc s \<Longrightarrow> thread_run rdy tid i s = Some s' \<Longrightarrow>
    world_step (L_run i) s s'"
| spurious: "nth_opt (threads s) i = Some (ref, PC_waiting) \<Longrightarrow> world_step (L_spurious i) s (put_pc i PC_woken s)"
| create: "gt_create_pthread s = (r, s') \<Longrightarrow> world_step L_create s s'"
| wakeup: "gt_wakeup_pthread s = (r, s') \<Longrightarrow> world_step L_wakeup s s'"
| phase: "phase_call fn s = Some (r, s') \<Longrightarrow> world_step L_phase s s'"
| main_round: "gt_poller_epoll_wait ops_call rdy g_gt_core_poller s = Some s' \<Longrightarrow> world_step L_main s s'"
| signal: "gt_signal_routine strs sig s = Some s' \<Longrightarrow> world_step L_signal s s'"
| environment: "shape k = shape (kern s) \<Longrightarrow> k_fault k = k_fault (kern s) \<Longrightarrow> world_step L_env s (s\<lparr>kern := k\<rparr>)"

inductive world_reachable :: "gt_state \<Rightarrow> bool" where
  boot: "mild (boot_kernel fault alloc) \<Longrightarrow> world_reachable (boot_state (boot_kernel fault alloc))"
| step: "world_reachable s \<Longrightarrow> world_step l s s' \<Longrightarrow> world_reachable s'"

subsection \<open>Rounds leave the threads alone\<close>

lemma statics_threads: "statics s' = statics s \<Longrightarrow> threads s' = threads s \<and> rows_data s' = rows_data s"
  by (simp add: statics_def rows_data_def)

lemma statics_signal_read: "gt_signal_ops_read ge s = Some (r, s') \<Longrightarrow> statics s' = statics s"
  by (auto simp: gt_signal_ops_read_def bind_eq_Some_conv Let_def gt_process_snap_def gt_process_dump_def
      split: if_splits)

lemma statics_datanet_read: "gt_datanet_ops_read ge s = Some (r, s') \<Longrightarrow> statics s' = statics s"
  by (auto simp: gt_datanet_ops_read_def bind_eq_Some_conv Let_def split: if_splits dest!: statics_ops)

lemma statics_round_dispatch: "gt_network_round_dispatch fd s = Some (r, s') \<Longrightarrow> statics s' = statics s"
  by (auto simp: gt_network_round_dispatch_def bind_eq_Some_conv Let_def split: if_splits dest!: statics_ops)

lemma statics_network_read: "gt_network_ops_read ge s = Some (r, s') \<Longrightarrow> statics s' = statics s"
  by (auto simp: gt_network_ops_read_def bind_eq_Some_conv Let_def lift_k_eq split: if_splits prod.splits
      dest!: statics_round_dispatch)

lemma statics_ops_call: "ops_call fn ge s = Some (r, s') \<Longrightarrow> statics s' = statics s"
  by (cases fn) (simp_all add: ops_call_def statics_signal_read statics_datanet_read statics_network_read)

lemma statics_dispatch: "epoll_dispatch_one ops_call ev s = Some s' \<Longrightarrow> statics s' = statics s"
  by (auto simp: epoll_dispatch_one_def Let_def bind_eq_Some_conv split: if_splits dest!: statics_ops_call)

lemma statics_fold:
  "fold_opt (epoll_dispatch_one ops_call) evs s = Some s' \<Longrightarrow> statics s' = statics s"
  by (induction evs arbitrary: s) (auto simp: bind_eq_Some_conv dest!: statics_dispatch)

lemma statics_round: "gt_poller_epoll_wait ops_call rdy gp s = Some s' \<Longrightarrow> statics s' = statics s"
  by (auto simp: gt_poller_epoll_wait_def bind_eq_Some_conv Let_def case_prod_unfold split: if_splits dest!: statics_fold)


subsection \<open>The invariant of the threads\<close>

definition is_datanet :: "pthread_ref \<Rightarrow> bool" where
  "is_datanet ref = (case ref of BusinessRow i \<Rightarrow> False | DatanetRow i \<Rightarrow> True)"

definition ref_ok :: "pthread_ref \<Rightarrow> bool" where
  "ref_ok ref = (case ref of BusinessRow i \<Rightarrow> i < GT_BUSINESS_PTHREAD_NUM | DatanetRow i \<Rightarrow> i < GT_DATANET_PTHREAD_NUM)"

definition rows_init :: "(routine_fn \<times> addr) list \<times> (routine_fn \<times> addr) list" where
  "rows_init = (map (\<lambda>r. (pt_routine r, pt_data r)) business_pthread_init,
                map (\<lambda>r. (pt_routine r, pt_data r)) datanet_pthread_init)"

definition routine_of :: "pthread_ref \<Rightarrow> routine_fn \<times> addr" where
  "routine_of ref = (case ref of
       BusinessRow i \<Rightarrow> if i = 4 then (FN_network_routine, g_gt_network_poller) else (FN_business_routine, NULL)
     | DatanetRow i \<Rightarrow> (FN_datanet_routine, g_gt_datanet_poller i))"

lemma rows_init_business: "length (fst rows_init) = 5" "i < 5 \<Longrightarrow> fst rows_init ! i = routine_of (BusinessRow i)"
  by (auto simp: rows_init_def business_pthread_init_def routine_of_def less_Suc_eq numeral_eq_Suc)

lemma rows_init_datanet: "length (snd rows_init) = 4" "i < 4 \<Longrightarrow> snd rows_init ! i = routine_of (DatanetRow i)"
  by (auto simp: rows_init_def datanet_pthread_init_def routine_of_def less_Suc_eq numeral_eq_Suc)

lemma map_nth_opt: "map f xs = ys \<Longrightarrow> i < length ys \<Longrightarrow> \<exists>x. nth_opt xs i = Some x \<and> f x = ys ! i"
  by (auto simp: nth_opt_def)

lemma row_known:
  assumes "rows_data s = rows_init" "ref_ok ref"
  obtains row where "row_of ref s = Some row" "pt_routine row = fst (routine_of ref)" "pt_data row = snd (routine_of ref)"
proof -
  have b: "map (\<lambda>r. (pt_routine r, pt_data r)) (g_gt_business_pthread s) = fst rows_init"
    and d: "map (\<lambda>r. (pt_routine r, pt_data r)) (g_gt_datanet_pthread s) = snd rows_init"
    using assms(1) by (simp_all flip: assms(1) add: rows_data_def)
  have "\<exists>row. row_of ref s = Some row \<and> (pt_routine row, pt_data row) = routine_of ref"
    using assms(2) map_nth_opt [OF b] map_nth_opt [OF d] rows_init_business rows_init_datanet
    by (cases ref) (auto simp: ref_ok_def row_of_def GT_BUSINESS_PTHREAD_NUM_def GT_DATANET_PTHREAD_NUM_def)
  then obtain row where "row_of ref s = Some row" "(pt_routine row, pt_data row) = routine_of ref" by blast
  with that [of row] show ?thesis by (metis fst_conv snd_conv)
qed

text \<open>The successor of a position in the routine of a row.\<close>

inductive pc_next :: "pthread_ref \<Rightarrow> thread_pc \<Rightarrow> thread_pc \<Rightarrow> bool" for ref where
  "pc_next ref PC_start PC_lock"
| "pc_next ref PC_lock PC_locked"
| "pc_next ref PC_locked PC_waiting"
| "pc_next ref PC_woken PC_owner"
| "\<not> is_datanet ref \<Longrightarrow> pc_next ref PC_owner PC_loop"
| "is_datanet ref \<Longrightarrow> pc_next ref PC_owner PC_init"
| "pc_next ref PC_init PC_loop"
| "pc_next ref PC_init PC_exited"
| "pc_next ref PC_loop PC_loop"

inductive_cases pc_nextE: "pc_next ref pc pc'"

definition thread_ok :: "pthread_ref \<times> thread_pc \<Rightarrow> bool" where
  "thread_ok t \<longleftrightarrow> ref_ok (fst t) \<and> (snd t = PC_init \<or> snd t = PC_exited \<longrightarrow> is_datanet (fst t))"

lemma sys_inv_rows:
  assumes "sys_inv s" "memory s' = memory s" "rows_data s' = rows_data s" "shape (kern s') = shape (kern s)"
  shows "sys_inv s'"
proof -
  note M = memory_eqD [OF assms(2)] assms(4)
  have "map (\<lambda>r. snd (pt_routine r, pt_data r)) (g_gt_datanet_pthread s') =
        map (\<lambda>r. snd (pt_routine r, pt_data r)) (g_gt_datanet_pthread s)"
    using arg_cong [OF assms(3), of "\<lambda>x. map snd (snd x)"] by (simp add: rows_data_def comp_def)
  with assms(1) M show ?thesis
    by (simp add: sys_inv_def buffers_ok_def tables_ok_def poller_inv_frame [of s s'])
qed

lemma sys_ok_rows:
  assumes "sys_ok s" "memory s' = memory s" "rows_data s' = rows_data s" "shape (kern s') = shape (kern s)"
    "k_fault (kern s') = k_fault (kern s)"
  shows "sys_ok s'"
  using assms sys_inv_rows [of s s'] by (simp add: sys_ok_def mild_def)

lemma put_pc_fields [simp]:
  "kern (put_pc i pc s) = kern s" "memory (put_pc i pc s) = memory s" "rows_data (put_pc i pc s) = rows_data s"
  "threads (put_pc i pc s) = (threads s)[i := (fst (threads s ! i), pc)]"
  by (simp_all add: put_pc_def memory_def)

lemma set_pid_fields [simp]:
  "kern (set_pid ref v s) = kern s" "memory (set_pid ref v s) = memory s" "rows_data (set_pid ref v s) = rows_data s"
  "threads (set_pid ref v s) = threads s"
  by (auto simp: set_pid_def memory_def rows_data_def map_upd_id split: pthread_ref.splits)

lemma put_pc_ok: "sys_ok s \<Longrightarrow> sys_ok (put_pc i pc s)"
  by (rule sys_ok_rows) simp_all

lemma set_pid_ok: "sys_ok s \<Longrightarrow> sys_ok (set_pid ref v s)"
  by (rule sys_ok_rows) simp_all

lemma static_poller_live: "sys_ok s \<Longrightarrow> gp \<in> set static_pollers \<Longrightarrow> gpollers s gp \<noteq> None"
  by (auto simp: sys_ok_def sys_inv_def tables_ok_def)

lemma round_ok:
  assumes "sys_ok s" "gp \<in> set static_pollers"
  obtains s' where "gt_poller_epoll_wait ops_call rdy gp s = Some s'" "sys_ok s'" "statics s' = statics s"
  using el.epoll_wait_safe [of s gp rdy] static_poller_live [OF assms] assms(1) statics_round by blast

lemma datanet_poller_static: "i < GT_DATANET_PTHREAD_NUM \<Longrightarrow> g_gt_datanet_poller i \<in> set static_pollers"
  by (simp add: static_pollers_def)

lemma network_poller_static: "g_gt_network_poller \<in> set static_pollers" "g_gt_core_poller \<in> set static_pollers"
  by (simp_all add: static_pollers_def)

lemma datanet_not_core:
  assumes "i < GT_DATANET_PTHREAD_NUM"
  shows "g_gt_datanet_poller i \<noteq> g_gt_core_poller"
proof -
  from assms consider "i = 0" | "i = 1" | "i = 2" | "i = 3" by (simp add: GT_DATANET_PTHREAD_NUM_def) linarith
  then show ?thesis by cases (simp_all add: g_gt_datanet_poller_def g_gt_core_poller_def)
qed

subsection \<open>What a thread does\<close>

lemma wait_section_spec:
  assumes "sys_ok s" "fst (threads s ! i) = ref" "runnable pc s" "pc \<noteq> PC_init" "pc \<noteq> PC_loop"
    "is_datanet ref \<longleftrightarrow> next = PC_init" "next = PC_init \<or> next = PC_loop"
  shows "\<exists>s' pc'. wait_section tid i ref pc next s = Some s' \<and> pc_next ref pc pc' \<and> sys_ok s' \<and>
    rows_data s' = rows_data s \<and> threads s' = (threads s)[i := (ref, pc')]"
  using assms
  by (cases pc) (auto simp: wait_section_def runnable_def put_pc_ok set_pid_ok intro: pc_next.intros)

lemma datanet_init_spec:
  assumes ok: "sys_ok s" and ref: "ref = DatanetRow j" "j < GT_DATANET_PTHREAD_NUM" and i: "fst (threads s ! i) = ref"
    and row: "pt_data row = g_gt_datanet_poller j"
  shows "\<exists>s' pc'. gt_datanet_pthread_routine rdy tid i ref row PC_init s = Some s' \<and> pc_next ref PC_init pc' \<and>
    sys_ok s' \<and> rows_data s' = rows_data s \<and> threads s' = (threads s)[i := (ref, pc')]"
proof -
  let ?gp = "g_gt_datanet_poller j"
  have "maxe_of ?gp = GT_NETWORKER_MAXEVENT" using datanet_not_core [OF ref(2)] by (simp add: maxe_of_def)
  moreover have "gpollers s ?gp \<noteq> None" by (rule static_poller_live [OF ok datanet_poller_static [OF ref(2)]])
  ultimately obtain r s1 where s1: "gt_poller_init GT_NETWORKER_MAXEVENT GT_NETWORKER_EPWAIT_TIMEOUT ?gp s = Some (r, s1)"
    "sys_inv s1" "k_fault (kern s1) = k_fault (kern s)" "statics s1 = statics s"
    using sys_inv_init [of s ?gp GT_NETWORKER_EPWAIT_TIMEOUT] ok by (auto simp: sys_ok_def)
  then have ok1: "sys_ok s1" using ok by (simp add: sys_ok_def mild_def)
  note st = statics_threads [OF s1(4)]
  show ?thesis
  proof (cases "r = GT_OK")
    case True
    with s1(1) row st i put_pc_ok [OF ok1, of i PC_loop] show ?thesis
      by (simp add: gt_datanet_pthread_routine_def) (blast intro: pc_next.intros)
  next
    case False
    let ?s2 = "GT_ERROR_LOG GT_MOD_CORE ''Failed to init poller.'' [] s1"
    have ok2: "sys_ok ?s2" using kernel_only_sys_ok [OF _ ok1] by simp
    have "threads ?s2 = threads s1" "rows_data ?s2 = rows_data s1"
      using statics_threads [OF statics_frame(7) [of _ _ _ s1]] by blast+
    with False s1(1) row st i put_pc_ok [OF ok2, of i PC_exited] show ?thesis
      by (simp add: gt_datanet_pthread_routine_def) (blast intro: pc_next.intros)
  qed
qed

lemma thread_run_spec:
  assumes ok: "sys_ok s" and rows: "rows_data s = rows_init" and i: "nth_opt (threads s) i = Some (ref, pc)"
    and tok: "thread_ok (ref, pc)" and run: "runnable pc s"
  shows "\<exists>s' pc'. thread_run rdy tid i s = Some s' \<and> pc_next ref pc pc' \<and> sys_ok s' \<and>
    rows_data s' = rows_data s \<and> threads s' = (threads s)[i := (ref, pc')]"
proof -
  have fi: "fst (threads s ! i) = ref" and same: "(threads s)[i := (ref, pc)] = threads s"
    using i by (auto simp: nth_opt_def list_update_same_conv split: if_splits)
  from rows tok obtain row where row: "row_of ref s = Some row" "pt_routine row = fst (routine_of ref)"
    "pt_data row = snd (routine_of ref)" using row_known [of s ref] by (auto simp: thread_ok_def)
  have loop: "\<exists>s' pc'. gt_poller_epoll_wait ops_call rdy gp s = Some s' \<and> pc_next ref PC_loop pc' \<and> sys_ok s' \<and>
      rows_data s' = rows_data s \<and> threads s' = (threads s)[i := (ref, pc')]"
    if gp: "gp \<in> set static_pollers" "pc = PC_loop" for gp
  proof -
    obtain s' where "gt_poller_epoll_wait ops_call rdy gp s = Some s'" "sys_ok s'" "statics s' = statics s"
      by (rule round_ok [OF ok gp(1)]) (rule that)
    with statics_threads [of s' s] same gp(2) show ?thesis by (auto intro: pc_next.intros)
  qed
  note W = wait_section_spec [OF ok fi run]
  show ?thesis
  proof (cases ref)
    case (BusinessRow j)
    then have nd: "\<not> is_datanet ref" "pc \<noteq> PC_init" using tok by (auto simp: thread_ok_def is_datanet_def)
    show ?thesis
    proof (cases "j = 4")
      case True
      with row BusinessRow have "pt_routine row = FN_network_routine" "pt_data row = g_gt_network_poller"
        by (simp_all add: routine_of_def)
      with i row(1) loop [OF network_poller_static(1)] W [of PC_loop tid] nd show ?thesis
        by (cases "pc = PC_loop") (simp_all add: thread_run_def gt_network_pthread_routine_def)
    next
      case False
      with row BusinessRow have "pt_routine row = FN_business_routine" by (simp add: routine_of_def)
      with i row(1) W [of PC_loop tid] nd ok same show ?thesis
        by (cases "pc = PC_loop") (auto simp: thread_run_def gt_business_pthread_routine_def intro: pc_next.intros)
    qed
  next
    case (DatanetRow j)
    with tok row have j: "is_datanet ref" "j < GT_DATANET_PTHREAD_NUM" "pt_routine row = FN_datanet_routine"
      "pt_data row = g_gt_datanet_poller j" by (simp_all add: thread_ok_def is_datanet_def ref_ok_def routine_of_def)
    consider "pc = PC_init" | "pc = PC_loop" | "pc \<noteq> PC_init" "pc \<noteq> PC_loop" by blast
    then show ?thesis
    proof cases
      case 1
      with i row(1) j datanet_init_spec [OF ok DatanetRow j(2) fi j(4), of rdy tid] show ?thesis
        by (simp add: thread_run_def)
    next
      case 2
      with i row(1) j loop [OF datanet_poller_static [OF j(2)]] show ?thesis
        by (simp add: thread_run_def gt_datanet_pthread_routine_def)
    next
      case 3
      with i row(1) j W [of PC_init tid] show ?thesis
        by (simp add: thread_run_def gt_datanet_pthread_routine_def)
    qed
  qed
qed

subsection \<open>Preservation\<close>

definition one_holder :: "(pthread_ref \<times> thread_pc) list \<Rightarrow> bool" where
  "one_holder ts \<longleftrightarrow> (\<forall>i < length ts. \<forall>j < length ts. holds_mutex (snd (ts ! i)) \<longrightarrow> holds_mutex (snd (ts ! j)) \<longrightarrow> i = j)"

definition world_inv :: "gt_state \<Rightarrow> bool" where
  "world_inv s \<longleftrightarrow> sys_ok s \<and> rows_data s = rows_init \<and> (\<forall>t \<in> set (threads s). thread_ok t) \<and> one_holder (threads s)"

lemma one_holder_update:
  assumes "one_holder ts" "i < length ts"
    and "holds_mutex pc \<Longrightarrow> holds_mutex (snd (ts ! i)) \<or> (\<forall>t \<in> set ts. \<not> holds_mutex (snd t))"
  shows "one_holder (ts[i := (ref, pc)])"
proof (cases "holds_mutex pc")
  case True
  with assms(3) consider "holds_mutex (snd (ts ! i))" | "\<forall>t \<in> set ts. \<not> holds_mutex (snd t)" by blast
  then show ?thesis
  proof cases
    case 1
    with assms(1,2) show ?thesis unfolding one_holder_def by (metis length_list_update nth_list_update_neq)
  next
    case 2
    then have "\<not> holds_mutex (snd (ts ! j))" if "j < length ts" for j using that nth_mem by blast
    then show ?thesis unfolding one_holder_def by (metis length_list_update nth_list_update_neq)
  qed
next
  case False
  with assms(1,2) show ?thesis unfolding one_holder_def
    by (metis length_list_update nth_list_update_eq nth_list_update_neq snd_conv)
qed

lemma one_holder_grow: "one_holder ts \<Longrightarrow> one_holder (ts @ map (\<lambda>i. (row i, PC_start)) is)"
  by (auto simp: one_holder_def nth_append holds_mutex_def)

lemma one_holder_wake:
  "one_holder (map (\<lambda>(ref, pc). (ref, if pc = PC_waiting then PC_woken else pc)) ts) = one_holder ts"
proof -
  let ?wake = "\<lambda>(ref, pc). (ref, if pc = PC_waiting then PC_woken else pc)"
  have "holds_mutex (snd (?wake t)) = holds_mutex (snd t)" for t :: "pthread_ref \<times> thread_pc"
    by (cases t) (simp add: holds_mutex_def)
  then show ?thesis by (simp add: one_holder_def cong: imp_cong)
qed

lemma world_grow:
  assumes "world_inv s" "memory s' = memory s" "rows_data s' = rows_data s" "shape (kern s') = shape (kern s)"
    "k_fault (kern s') = k_fault (kern s)" "threads s' = threads s @ map (\<lambda>i. (row i, PC_start)) is"
    "\<forall>i \<in> set is. ref_ok (row i)"
  shows "world_inv s'"
  using assms sys_ok_rows [of s s'] one_holder_grow [of "threads s" row "is"]
  by (auto simp: world_inv_def thread_ok_def)

lemma world_statics: "world_inv s \<Longrightarrow> sys_ok s' \<Longrightarrow> statics s' = statics s \<Longrightarrow> world_inv s'"
  using statics_threads [of s' s] by (simp add: world_inv_def)

lemma pthread_call_frame:
  "file_at (snd (pthread_call k)) = file_at k" "k_fault (snd (pthread_call k)) = k_fault k"
  by (simp_all add: pthread_call_def split: option.splits)

lemma create_pthread_frame:
  assumes "gt_create_pthread s = (r, s')"
  shows "memory s' = memory s \<and> rows_data s' = rows_data s \<and> file_at (kern s') = file_at (kern s) \<and>
    k_fault (kern s') = k_fault (kern s) \<and> g_gt_phase s' = g_gt_phase s \<and>
    (\<exists>n \<le> GT_BUSINESS_PTHREAD_NUM. threads s' = threads s @ map (\<lambda>i. (BusinessRow i, PC_start)) [0..<n] \<and>
      (if r = GT_OK then n = GT_BUSINESS_PTHREAD_NUM else n < GT_BUSINESS_PTHREAD_NUM))"
proof -
  define s1 where "s1 = snd (lift_k pthread_call s)"
  define s2 where "s2 = snd (lift_k pthread_call s1)"
  have F: "memory (snd (lift_k pthread_call u)) = memory u" "rows_data (snd (lift_k pthread_call u)) = rows_data u"
    "file_at (kern (snd (lift_k pthread_call u))) = file_at (kern u)"
    "k_fault (kern (snd (lift_k pthread_call u))) = k_fault (kern u)"
    "g_gt_phase (snd (lift_k pthread_call u)) = g_gt_phase u" "threads (snd (lift_k pthread_call u)) = threads u" for u
    by (simp_all add: lift_k_eq pthread_call_frame)
  have L: "threads (GT_ERROR_LOG md fmt a u) = threads u" for md fmt a and u :: gt_state
    using statics_threads [OF statics_frame(7)] by blast
  have T: "\<exists>n \<le> GT_BUSINESS_PTHREAD_NUM. threads u = threads u @ map (\<lambda>i. (BusinessRow i, PC_start)) [0..<n] \<and>
      n < GT_BUSINESS_PTHREAD_NUM" for u :: gt_state
    by (rule exI [of _ 0]) (simp add: GT_BUSINESS_PTHREAD_NUM_def)
  obtain r3 s3 where s3: "create_rows BusinessRow [0..<GT_BUSINESS_PTHREAD_NUM] s2 = (r3, s3)" by fastforce
  have take: "take n [0..<GT_BUSINESS_PTHREAD_NUM] = [0..<n]" if "n \<le> GT_BUSINESS_PTHREAD_NUM" for n using that by simp
  have E: "gt_create_pthread s =
    (if fst (lift_k pthread_call s) \<noteq> GT_OK then (fst (lift_k pthread_call s), GT_ERROR_LOG GT_MOD_CORE ''Failed to init mutex!'' [] s1)
     else if fst (lift_k pthread_call s1) \<noteq> GT_OK then (fst (lift_k pthread_call s1), GT_ERROR_LOG GT_MOD_CORE ''Failed to init cond!'' [] s2)
     else (r3, s3))"
    using s3 by (simp add: gt_create_pthread_def Let_def case_prod_unfold s1_def s2_def)
  note c = create_rows_spec [OF s3]
  have F1: "memory s1 = memory s" "rows_data s1 = rows_data s" "file_at (kern s1) = file_at (kern s)"
    "k_fault (kern s1) = k_fault (kern s)" "g_gt_phase s1 = g_gt_phase s" "threads s1 = threads s"
    unfolding s1_def by (rule F)+
  have F2: "memory s2 = memory s" "rows_data s2 = rows_data s" "file_at (kern s2) = file_at (kern s)"
    "k_fault (kern s2) = k_fault (kern s)" "g_gt_phase s2 = g_gt_phase s" "threads s2 = threads s"
    unfolding s2_def F F1 by (rule refl)+
  show ?thesis
  proof (cases "fst (lift_k pthread_call s) \<noteq> GT_OK \<or> fst (lift_k pthread_call s1) \<noteq> GT_OK")
    case True
    then obtain u msg where u: "s' = GT_ERROR_LOG GT_MOD_CORE msg [] u" "r \<noteq> GT_OK" "u = s1 \<or> u = s2"
      using assms unfolding E by (auto split: if_splits)
    have U: "memory u = memory s" "rows_data u = rows_data s" "file_at (kern u) = file_at (kern s)"
      "k_fault (kern u) = k_fault (kern s)" "g_gt_phase u = g_gt_phase s" "threads u = threads s"
      using u(3) F1 F2 by metis+
    show ?thesis unfolding u(1) L using U T [of s] u(2) by simp
  next
    case False
    with assms E have rs: "r = r3" "s' = s3" by simp_all
    from c obtain n where n: "n \<le> length [0..<GT_BUSINESS_PTHREAD_NUM]"
      "threads s3 = threads s2 @ map (\<lambda>i. (BusinessRow i, PC_start)) (take n [0..<GT_BUSINESS_PTHREAD_NUM])"
      "if r3 = GT_OK then n = length [0..<GT_BUSINESS_PTHREAD_NUM]
       else r3 = GT_ERROR \<and> n < length [0..<GT_BUSINESS_PTHREAD_NUM]" by blast
    then have "n \<le> GT_BUSINESS_PTHREAD_NUM" "threads s3 = threads s @ map (\<lambda>i. (BusinessRow i, PC_start)) [0..<n]"
      "if r3 = GT_OK then n = GT_BUSINESS_PTHREAD_NUM else n < GT_BUSINESS_PTHREAD_NUM"
      using take [of n] F2(6) by (simp_all split: if_splits)
    with c F2(1-5) show ?thesis unfolding rs by metis
  qed
qed


lemma pc_next_ok: "pc_next ref pc pc' \<Longrightarrow> thread_ok (ref, pc) \<Longrightarrow> thread_ok (ref, pc')"
  by (auto simp: thread_ok_def elim: pc_nextE)

lemma mutex_free_iff: "mutex_free s \<longleftrightarrow> (\<forall>t \<in> set (threads s). \<not> holds_mutex (snd t))"
  by (auto simp: mutex_free_def list_all_iff)

lemma pc_next_holder:
  "pc_next ref pc pc' \<Longrightarrow> runnable pc s \<Longrightarrow> holds_mutex pc' \<Longrightarrow> mutex_free s"
  by (auto simp: runnable_def holds_mutex_def elim: pc_nextE)

lemma nth_optD: "nth_opt xs i = Some x \<Longrightarrow> i < length xs \<and> xs ! i = x"
  by (auto simp: nth_opt_def split: if_splits)

lemma world_run:
  assumes inv: "world_inv s" and i: "nth_opt (threads s) i = Some (ref, pc)" and run: "runnable pc s"
  shows "\<exists>s' pc'. thread_run rdy tid i s = Some s' \<and> pc_next ref pc pc' \<and> world_inv s' \<and>
    threads s' = (threads s)[i := (ref, pc')]"
proof -
  have "(ref, pc) \<in> set (threads s)" using nth_optD [OF i] nth_mem by metis
  with inv have tok: "thread_ok (ref, pc)" and ok: "sys_ok s" "rows_data s = rows_init" "one_holder (threads s)"
    and all: "\<forall>t \<in> set (threads s). thread_ok t" by (auto simp: world_inv_def)
  from thread_run_spec [OF ok(1,2) i tok run, of rdy tid] obtain s' pc' where
    s': "thread_run rdy tid i s = Some s'" "pc_next ref pc pc'" "sys_ok s'" "rows_data s' = rows_data s"
      "threads s' = (threads s)[i := (ref, pc')]" by blast
  have "one_holder (threads s')"
    unfolding s'(5) by (rule one_holder_update [OF ok(3)])
      (use nth_optD [OF i] pc_next_holder [OF s'(2) run] in \<open>auto simp: mutex_free_iff\<close>)
  moreover have "\<forall>t \<in> set (threads s'). thread_ok t"
    using all pc_next_ok [OF s'(2) tok] set_update_subset_insert [of "threads s" i "(ref, pc')"] s'(5) by auto
  ultimately have "world_inv s'" using s' ok(2) by (simp add: world_inv_def)
  with s' show ?thesis by blast
qed

lemma wakeup_frame:
  assumes "gt_wakeup_pthread s = (r, s')"
  shows "memory s' = memory s" "rows_data s' = rows_data s" "shape (kern s') = shape (kern s)"
    "k_fault (kern s') = k_fault (kern s)"
    "threads s' = (if r = GT_OK then map (\<lambda>(ref, pc). (ref, if pc = PC_waiting then PC_woken else pc)) (threads s)
       else threads s)"
proof -
  have L: "threads (GT_ERROR_LOG md fmt a u) = threads u" for md fmt a and u :: gt_state
    using statics_threads [OF statics_frame(7)] by blast
  have K: "memory (snd (lift_k pthread_call s)) = memory s" "rows_data (snd (lift_k pthread_call s)) = rows_data s"
    "shape (kern (snd (lift_k pthread_call s))) = shape (kern s)"
    "k_fault (kern (snd (lift_k pthread_call s))) = k_fault (kern s)" "threads (snd (lift_k pthread_call s)) = threads s"
    by (simp_all add: lift_k_eq pthread_call_frame shape_file_at [OF pthread_call_frame(1)])
  have S: "shape (kern (GT_ERROR_LOG md fmt a u)) = shape (kern u)" for md fmt a and u :: gt_state
    by (rule shape_file_at) simp
  show "memory s' = memory s" "rows_data s' = rows_data s" "shape (kern s') = shape (kern s)"
    "k_fault (kern s') = k_fault (kern s)"
    "threads s' = (if r = GT_OK then map (\<lambda>(ref, pc). (ref, if pc = PC_waiting then PC_woken else pc)) (threads s)
       else threads s)"
    using assms K
    by (auto simp: gt_wakeup_pthread_def pthread_cond_broadcast_def Let_def case_prod_unfold GT_OK_def L S split: if_splits)
qed

lemma wake_ok: "thread_ok t \<Longrightarrow> thread_ok (case t of (ref, pc) \<Rightarrow> (ref, if pc = PC_waiting then PC_woken else pc))"
  by (auto simp: thread_ok_def split: prod.splits)

lemma world_step_inv: "world_step l s s' \<Longrightarrow> world_inv s \<Longrightarrow> world_inv s'"
proof (induction rule: world_step.induct)
  case (run s i ref pc rdy tid s')
  from world_run [OF run.prems run.hyps(1,2), of rdy tid] run.hyps(3) show ?case by auto
next
  case (spurious s i ref)
  note i = nth_optD [OF spurious.hyps]
  then have "thread_ok (ref, PC_waiting)" using spurious.prems nth_mem [of i "threads s"] by (auto simp: world_inv_def)
  then have "thread_ok (ref, PC_woken)" by (simp add: thread_ok_def)
  moreover have "one_holder ((threads s)[i := (ref, PC_woken)])"
    using spurious.prems i by (intro one_holder_update) (auto simp: world_inv_def holds_mutex_def)
  ultimately show ?case
    using spurious.prems i put_pc_ok [of s i PC_woken] set_update_subset_insert [of "threads s" i "(ref, PC_woken)"]
    by (auto simp: world_inv_def)
next
  case (create s r s')
  from create_pthread_frame [OF create.hyps] obtain n where
    c: "memory s' = memory s" "rows_data s' = rows_data s" "file_at (kern s') = file_at (kern s)"
      "k_fault (kern s') = k_fault (kern s)" "n \<le> GT_BUSINESS_PTHREAD_NUM"
      "threads s' = threads s @ map (\<lambda>i. (BusinessRow i, PC_start)) [0..<n]" by blast
  show ?case
    by (rule world_grow [OF create.prems c(1,2) shape_file_at [OF c(3)] c(4,6)]) (use c(5) in \<open>simp add: ref_ok_def\<close>)
next
  case (wakeup s r s')
  note w = wakeup_frame [OF wakeup.hyps]
  have "sys_ok s'" using sys_ok_rows [OF _ w(1-4)] wakeup.prems by (simp add: world_inv_def)
  moreover have "one_holder (threads s')" using w(5) wakeup.prems one_holder_wake [of "threads s"] by (simp add: world_inv_def)
  moreover have "\<forall>t \<in> set (threads s'). thread_ok t" using w(5) wakeup.prems wake_ok by (auto simp: world_inv_def split: if_splits)
  ultimately show ?case using w(2) wakeup.prems by (simp add: world_inv_def)
next
  case (phase fn s r s')
  have ok: "sys_ok s'" using phase phase_call_ok [of s fn] by (auto simp: world_inv_def sys_ok_def keeps_sys_def mild_def)
  show ?case
  proof (cases "fn = FN_network_phase2_func")
    case True
    obtain r1 s1 where s1: "create_rows DatanetRow [0..<GT_DATANET_PTHREAD_NUM] s = (r1, s1)" by fastforce
    from create_rows_spec [OF s1] obtain n where
      c: "memory s1 = memory s" "rows_data s1 = rows_data s" "file_at (kern s1) = file_at (kern s)"
        "k_fault (kern s1) = k_fault (kern s)" "n \<le> GT_DATANET_PTHREAD_NUM"
        "threads s1 = threads s @ map (\<lambda>i. (DatanetRow i, PC_start)) (take n [0..<GT_DATANET_PTHREAD_NUM])" by auto
    have "world_inv s1"
      by (rule world_grow [OF phase.prems c(1,2) shape_file_at [OF c(3)] c(4,6)]) (use c(5) in \<open>simp add: ref_ok_def\<close>)
    moreover have "statics s' = statics s1"
      using phase.hyps True s1 by (auto simp: phase_call_def gt_network_phase2_func_def gt_create_datanet_pthread_def split: if_splits)
    ultimately show ?thesis using ok world_statics by blast
  next
    case False
    with phase.hyps have "statics s' = statics s"
      by (cases fn) (auto simp: phase_call_def intro: statics_core_phase0 statics_signal_phase1 statics_network_phase1)
    with ok phase.prems show ?thesis by (blast intro: world_statics)
  qed
next
  case (main_round rdy s s')
  obtain t where "gt_poller_epoll_wait ops_call rdy g_gt_core_poller s = Some t" "sys_ok t" "statics t = statics s"
    by (rule round_ok [OF _ network_poller_static(2)]) (use main_round.prems in \<open>auto simp: world_inv_def\<close>)
  with main_round world_statics show ?case by auto
next
  case (signal strs sig s s')
  have "kernel_only s s'" by (rule kernel_only_routine [OF signal.hyps])
  moreover from this have "sys_ok s'" using signal.prems kernel_only_sys_ok by (auto simp: world_inv_def)
  ultimately show ?case using signal.prems by (auto simp: kernel_only_def intro: world_statics)
next
  case (environment k s)
  then have "sys_ok (s\<lparr>kern := k\<rparr>)" using kernel_only_sys_ok [OF kernel_onlyI] by (auto simp: world_inv_def)
  with environment.prems show ?case by (blast intro: world_statics statics_frame(1))
qed

lemma world_inv_boot: "mild (boot_kernel fault alloc) \<Longrightarrow> world_inv (boot_state (boot_kernel fault alloc))"
  using sys_inv_boot [of fault alloc]
  by (simp add: world_inv_def sys_ok_def one_holder_def rows_data_def rows_init_def boot_state_def)

lemma world_reachable_inv: "world_reachable s \<Longrightarrow> world_inv s"
  by (induction rule: world_reachable.induct) (auto intro: world_inv_boot world_step_inv)

subsection \<open>A thread seen from the others\<close>

definition quiet :: "label \<Rightarrow> bool" where
  "quiet l = (case l of L_wakeup \<Rightarrow> False | L_spurious i \<Rightarrow> False | _ \<Rightarrow> True)"

definition quiet_step :: "gt_state \<Rightarrow> gt_state \<Rightarrow> bool" where
  "quiet_step s s' \<longleftrightarrow> (\<exists>l. quiet l \<and> world_step l s s')"

definition run_step :: "gt_state \<Rightarrow> gt_state \<Rightarrow> bool" where
  "run_step s s' \<longleftrightarrow> (\<exists>i. world_step (L_run i) s s')"

lemma nth_opt_grow: "nth_opt xs i = Some x \<Longrightarrow> nth_opt (xs @ ys) i = Some x"
  by (auto simp: nth_opt_def nth_append split: if_splits)

lemma nth_opt_update: "i < length xs \<Longrightarrow> nth_opt (xs[j := y]) i = (if j = i then Some y else nth_opt xs i)"
  by (simp add: nth_opt_def)

lemma quiet_step_thread:
  assumes inv: "world_inv s" and l: "quiet l" and step: "world_step l s s'"
    and i: "nth_opt (threads s) i = Some (ref, pc)"
  shows "nth_opt (threads s') i = Some (ref, pc) \<or>
    (\<exists>pc'. pc_next ref pc pc' \<and> runnable pc s \<and> nth_opt (threads s') i = Some (ref, pc'))"
  using step
proof (cases rule: world_step.cases)
  case (run j ref' pc' rdy tid)
  from world_run [OF inv run(2,3), of rdy tid] run(4) obtain pc'' where
    "pc_next ref' pc' pc''" "threads s' = (threads s)[j := (ref', pc'')]" by auto
  with run i nth_optD [OF i] show ?thesis by (cases "j = i") (auto simp: nth_opt_update)
next
  case (create r)
  from create_pthread_frame [OF create(2)] i show ?thesis by (auto intro: nth_opt_grow)
next
  case (phase fn r)
  show ?thesis
  proof (cases "fn = FN_network_phase2_func")
    case True
    obtain r1 s1 where s1: "create_rows DatanetRow [0..<GT_DATANET_PTHREAD_NUM] s = (r1, s1)" by fastforce
    have "statics s' = statics s1"
      using phase(2) True s1 by (auto simp: phase_call_def gt_network_phase2_func_def gt_create_datanet_pthread_def split: if_splits)
    with statics_threads [of s' s1] create_rows_spec [OF s1] i show ?thesis by (auto intro: nth_opt_grow)
  next
    case False
    with phase(2) have "statics s' = statics s"
      by (cases fn) (auto simp: phase_call_def intro: statics_core_phase0 statics_signal_phase1 statics_network_phase1)
    with i statics_threads [of s' s] show ?thesis by simp
  qed
next
  case (main_round rdy)
  with i statics_threads [OF statics_round] show ?thesis by simp
next
  case (signal strs sig)
  with i kernel_only_routine [of strs sig s s'] show ?thesis by (auto simp: kernel_only_def)
qed (use l i in \<open>simp_all add: quiet_def\<close>)

subsection \<open>Properties\<close>


text \<open>A schedule as a list of thread numbers, to evaluate examples.\<close>

fun run_threads :: "nat list \<Rightarrow> gt_state \<Rightarrow> gt_state option" where
  "run_threads [] s = Some s"
| "run_threads (i # is) s = (case nth_opt (threads s) i of
     None \<Rightarrow> None
   | Some (ref, pc) \<Rightarrow> if runnable pc s then thread_run ([], \<lambda>_. 0) (100 + int i) i s \<bind> run_threads is else None)"

lemma run_threads_reachable: "world_reachable s \<Longrightarrow> run_threads is s = Some s' \<Longrightarrow> world_reachable s'"
proof (induction "is" s rule: run_threads.induct)
  case (2 i "is" s)
  from "2.prems"(2) obtain ref pc s1 where s1: "nth_opt (threads s) i = Some (ref, pc)" "runnable pc s"
    "thread_run ([], \<lambda>_. 0) (100 + int i) i s = Some s1" "run_threads is s1 = Some s'"
    by (auto simp: bind_eq_Some_conv split: option.splits if_splits prod.splits)
  have "world_reachable s1" by (rule world_reachable.step [OF "2.prems"(1) world_step.run [OF s1(1-3)]])
  with "2.IH" s1 show ?case by blast
qed simp

definition demo_created :: gt_state where
  "demo_created = snd (gt_create_pthread (boot_state demo_kernel))"

lemma demo_created_reachable: "world_reachable demo_created"
proof -
  have "mild (boot_kernel (\<lambda>_. None) (k_alloc demo_kernel)) \<and> demo_kernel = boot_kernel (\<lambda>_. None) (k_alloc demo_kernel)"
    by (simp add: mild_def demo_kernel_def boot_kernel_def)
  then have "world_reachable (boot_state demo_kernel)" using world_reachable.boot by metis
  then show ?thesis unfolding demo_created_def by (rule world_reachable.step) (rule world_step.create [OF surjective_pairing])
qed


text \<open>
  C38: the broadcast is lost on a thread that has not yet reached its wait. Whatever the other
  threads and the main thread do afterwards, without another broadcast and without a spurious
  wake-up that thread never gets past the wait: only the two seconds of sleep before the broadcast
  stand against it.
\<close>

theorem wakeup_lost:
  assumes "world_reachable s" "nth_opt (threads s) i = Some (ref, pc)" "pc \<in> {PC_start, PC_lock, PC_locked}"
    and "gt_wakeup_pthread s = (r, s1)" "quiet_step\<^sup>*\<^sup>* s1 s2"
  shows "\<exists>pc'. nth_opt (threads s2) i = Some (ref, pc') \<and> pc' \<in> {PC_start, PC_lock, PC_locked, PC_waiting}"
proof -
  have inv: "world_inv s1" using world_step_inv [OF world_step.wakeup [OF assms(4)]] world_reachable_inv [OF assms(1)] .
  have i1: "nth_opt (threads s1) i = Some (ref, pc)"
    using wakeup_frame(5) [OF assms(4)] nth_optD [OF assms(2)] assms(3) by (auto simp: nth_opt_def)
  have "world_inv s2 \<and> (\<exists>pc'. nth_opt (threads s2) i = Some (ref, pc') \<and> pc' \<in> {PC_start, PC_lock, PC_locked, PC_waiting})"
    using assms(5)
  proof (induction rule: rtranclp_induct)
    case base
    with inv i1 assms(3) show ?case by auto
  next
    case (step t u)
    then obtain l pc' where l: "quiet l" "world_step l t u" and t: "world_inv t" "nth_opt (threads t) i = Some (ref, pc')"
      "pc' \<in> {PC_start, PC_lock, PC_locked, PC_waiting}" by (auto simp: quiet_step_def)
    from quiet_step_thread [OF t(1) l t(2)] t(3) world_step_inv [OF l(2) t(1)] show ?case
      by (auto simp: runnable_def elim: pc_nextE)
  qed
  then show ?thesis by blast
qed

theorem wakeup_lost_witness:
  "\<exists>s. world_reachable s \<and> nth_opt (threads (snd (gt_wakeup_pthread s))) 0 = Some (BusinessRow 0, PC_woken) \<and>
     nth_opt (threads (snd (gt_wakeup_pthread s))) 1 = Some (BusinessRow 1, PC_lock) \<and>
     \<not> (\<exists>s2. quiet_step\<^sup>*\<^sup>* (snd (gt_wakeup_pthread s)) s2 \<and> nth_opt (threads s2) 1 = Some (BusinessRow 1, PC_loop))"
proof -
  have c: "case run_threads [0, 0, 0, 1] demo_created of None \<Rightarrow> False
    | Some s \<Rightarrow> nth_opt (threads (snd (gt_wakeup_pthread s))) 0 = Some (BusinessRow 0, PC_woken) \<and>
        nth_opt (threads (snd (gt_wakeup_pthread s))) 1 = Some (BusinessRow 1, PC_lock) \<and>
        nth_opt (threads s) 1 = Some (BusinessRow 1, PC_lock)" by code_simp
  then obtain s where s: "run_threads [0, 0, 0, 1] demo_created = Some s"
    "nth_opt (threads (snd (gt_wakeup_pthread s))) 0 = Some (BusinessRow 0, PC_woken)"
    "nth_opt (threads (snd (gt_wakeup_pthread s))) 1 = Some (BusinessRow 1, PC_lock)"
    "nth_opt (threads s) 1 = Some (BusinessRow 1, PC_lock)" by (auto split: option.splits)
  have r: "world_reachable s" by (rule run_threads_reachable [OF demo_created_reachable s(1)])
  from wakeup_lost [OF r s(4) _ surjective_pairing] have
    "nth_opt (threads s2) 1 \<noteq> Some (BusinessRow 1, PC_loop)" if "quiet_step\<^sup>*\<^sup>* (snd (gt_wakeup_pthread s)) s2" for s2
    using that by fastforce
  with r s(2,3) show ?thesis by blast
qed

subsection \<open>Start of the loops\<close>

definition settled :: "thread_pc \<Rightarrow> bool" where
  "settled pc \<longleftrightarrow> pc = PC_loop \<or> pc = PC_exited"

text \<open>The steps a thread that has been woken still needs before its loop.\<close>

definition steps_left :: "thread_pc \<Rightarrow> nat" where
  "steps_left pc = (case pc of PC_woken \<Rightarrow> 3 | PC_owner \<Rightarrow> 2 | PC_init \<Rightarrow> 1 | _ \<Rightarrow> 0)"

definition past_wait :: "gt_state \<Rightarrow> bool" where
  "past_wait s \<longleftrightarrow> (\<forall>t \<in> set (threads s). settled (snd t) \<or> 0 < steps_left (snd t))"

definition total_left :: "gt_state \<Rightarrow> nat" where
  "total_left s = sum_list (map (\<lambda>t. steps_left (snd t)) (threads s))"

lemma past_wait_next:
  assumes "settled pc \<or> 0 < steps_left pc" "pc_next ref pc pc'"
  shows "settled pc' \<or> 0 < steps_left pc'" "\<not> settled pc \<Longrightarrow> steps_left pc' < steps_left pc"
  using assms(2,1) by (cases; simp add: settled_def steps_left_def)+

lemma run_past_wait:
  assumes inv: "world_inv s" and p: "past_wait s" and i: "nth_opt (threads s) i = Some (ref, pc)"
    and n: "pc_next ref pc pc'" and s': "threads s' = (threads s)[i := (ref, pc')]"
  shows "past_wait s'" "map fst (threads s') = map fst (threads s)" "\<not> settled pc \<Longrightarrow> total_left s' < total_left s"
proof -
  from nth_optD [OF i] have l: "i < length (threads s)" "threads s ! i = (ref, pc)" by auto
  then have "settled pc \<or> 0 < steps_left pc" using p nth_mem [OF l(1)] by (auto simp: past_wait_def)
  note N = past_wait_next [OF this n]
  show "past_wait s'"
    unfolding past_wait_def
  proof
    fix t assume "t \<in> set (threads s')"
    then have "t = (ref, pc') \<or> t \<in> set (threads s)"
      using set_update_subset_insert [of "threads s" i "(ref, pc')"] unfolding s' by blast
    with p N(1) show "settled (snd t) \<or> 0 < steps_left (snd t)" unfolding past_wait_def by fastforce
  qed
  have sp: "threads s = take i (threads s) @ (ref, pc) # drop (Suc i) (threads s)" using l id_take_nth_drop by metis
  have sp': "threads s' = take i (threads s) @ (ref, pc') # drop (Suc i) (threads s)"
    using l s' by (simp add: upd_conv_take_nth_drop)
  show "map fst (threads s') = map fst (threads s)" by (subst sp, subst sp') simp
  show "total_left s' < total_left s" if "\<not> settled pc"
    unfolding total_left_def by (subst sp, subst sp') (use N(2) [OF that] in simp)
qed

text \<open>As long as a thread has not settled, one that has not settled can run.\<close>

lemma unsettled_runnable:
  assumes p: "past_wait s" and u: "t \<in> set (threads s)" "\<not> settled (snd t)"
  obtains i ref pc where "nth_opt (threads s) i = Some (ref, pc)" "runnable pc s" "\<not> settled pc"
proof -
  have ex: "\<exists>i. nth_opt (threads s) i = Some t" if "t \<in> set (threads s)" for t
    using that by (auto simp: nth_opt_def in_set_conv_nth)
  show thesis
  proof (cases "mutex_free s")
    case True
    with p u have "runnable (snd t) s"
      by (auto simp: past_wait_def runnable_def settled_def steps_left_def split: thread_pc.splits)
    with ex [OF u(1)] u(2) that show ?thesis by (metis prod.collapse)
  next
    case False
    then obtain h where h: "h \<in> set (threads s)" "holds_mutex (snd h)" by (auto simp: mutex_free_iff)
    then have "runnable (snd h) s" "\<not> settled (snd h)" by (auto simp: runnable_def holds_mutex_def settled_def)
    with ex [OF h(1)] that show ?thesis by (metis prod.collapse)
  qed
qed

lemma settle_all:
  assumes "world_inv s" "past_wait s"
  shows "\<exists>s'. run_step\<^sup>*\<^sup>* s s' \<and> world_inv s' \<and> map fst (threads s') = map fst (threads s) \<and>
    (\<forall>t \<in> set (threads s'). settled (snd t))"
  using assms
proof (induction "total_left s" arbitrary: s rule: less_induct)
  case less
  show ?case
  proof (cases "\<forall>t \<in> set (threads s). settled (snd t)")
    case False
    then obtain i ref pc where i: "nth_opt (threads s) i = Some (ref, pc)" "runnable pc s" "\<not> settled pc"
      using unsettled_runnable [OF less.prems(2)] by blast
    from world_run [OF less.prems(1) i(1,2)] world_step.run [OF i(1,2)] obtain s1 pc1 where
      s1: "run_step s s1" "world_inv s1" "pc_next ref pc pc1" "threads s1 = (threads s)[i := (ref, pc1)]"
      by (fastforce simp: run_step_def)
    note P = run_past_wait [OF less.prems i(1) s1(3,4)]
    from less.hyps [OF P(3) [OF i(3)] s1(2) P(1)] P(2) s1(1) show ?thesis
      by (metis converse_rtranclp_into_rtranclp)
  qed (use less.prems in blast)
qed

lemma run_steps_past_wait:
  assumes "run_step\<^sup>*\<^sup>* s s'" "world_inv s" "past_wait s"
  shows "world_inv s' \<and> past_wait s' \<and> map fst (threads s') = map fst (threads s)"
  using assms
proof (induction rule: rtranclp_induct)
  case (step t u)
  then have t: "world_inv t" "past_wait t" by auto
  from step(2) obtain i where st: "world_step (L_run i) t u" by (auto simp: run_step_def)
  then obtain ref pc rdy tid where r: "nth_opt (threads t) i = Some (ref, pc)" "runnable pc t" "thread_run rdy tid i t = Some u"
    by (auto elim: world_step.cases)
  from world_run [OF t(1) r(1,2), of rdy tid] r(3) obtain pc' where
    "pc_next ref pc pc'" "threads u = (threads t)[i := (ref, pc')]" by auto
  with run_past_wait [OF t r(1)] world_step_inv [OF st t(1)] step show ?case by auto
qed simp

text \<open>
  C15: if all threads have reached their wait when the broadcast succeeds, then all of them start.
  Whatever the threads have done since, without further wake-ups, they are not in each other's way:
  there is still a continuation after which every thread runs its loop, or has ended because its
  poller could not be created, which happens to data-network threads only.
\<close>

theorem wakeup_starts_all:
  assumes "world_reachable s" "\<forall>t \<in> set (threads s). snd t = PC_waiting" "gt_wakeup_pthread s = (GT_OK, s1)"
    and "run_step\<^sup>*\<^sup>* s1 s'"
  shows "\<exists>s2. run_step\<^sup>*\<^sup>* s' s2 \<and> map fst (threads s2) = map fst (threads s) \<and>
    (\<forall>(ref, pc) \<in> set (threads s2). pc = PC_loop \<or> pc = PC_exited \<and> is_datanet ref)"
proof -
  have inv: "world_inv s1" using world_step_inv [OF world_step.wakeup [OF assms(3)]] world_reachable_inv [OF assms(1)] .
  have t: "threads s1 = map (\<lambda>(ref, pc). (ref, if pc = PC_waiting then PC_woken else pc)) (threads s)"
    using wakeup_frame(5) [OF assms(3)] by simp
  have "past_wait s1" using assms(2) unfolding past_wait_def t by (auto simp: steps_left_def)
  note P = run_steps_past_wait [OF assms(4) inv this]
  have m: "map fst (threads s1) = map fst (threads s)" unfolding t by (auto simp: comp_def)
  from settle_all P obtain s2 where s2: "run_step\<^sup>*\<^sup>* s' s2" "world_inv s2" "map fst (threads s2) = map fst (threads s')"
    "\<forall>t \<in> set (threads s2). settled (snd t)" by blast
  then have "\<forall>(ref, pc) \<in> set (threads s2). pc = PC_loop \<or> pc = PC_exited \<and> is_datanet ref"
    by (fastforce simp: settled_def world_inv_def thread_ok_def)
  with s2 m P show ?thesis by auto
qed

theorem wakeup_starts_all_witness:
  "\<exists>s s2. world_reachable s \<and> run_step\<^sup>*\<^sup>* (snd (gt_wakeup_pthread s)) s2 \<and>
     threads s2 = map (\<lambda>i. (BusinessRow i, PC_loop)) [0, 1, 2, 3, 4]"
proof -
  have "case run_threads [0, 1, 2, 3, 4, 0, 0, 2, 2, 1, 1, 4, 4, 3, 3] demo_created of None \<Rightarrow> False
    | Some s \<Rightarrow> threads s = map (\<lambda>i. (BusinessRow i, PC_waiting)) [0, 1, 2, 3, 4] \<and> fst (gt_wakeup_pthread s) = GT_OK"
    by code_simp
  then obtain s where s: "run_threads [0, 1, 2, 3, 4, 0, 0, 2, 2, 1, 1, 4, 4, 3, 3] demo_created = Some s"
    "threads s = map (\<lambda>i. (BusinessRow i, PC_waiting)) [0, 1, 2, 3, 4]" "fst (gt_wakeup_pthread s) = GT_OK"
    by (auto split: option.splits)
  have r: "world_reachable s" by (rule run_threads_reachable [OF demo_created_reachable s(1)])
  have "gt_wakeup_pthread s = (GT_OK, snd (gt_wakeup_pthread s))" using s(3) by (metis prod.collapse)
  from wakeup_starts_all [OF r _ this rtranclp.rtrancl_refl] s(2) obtain s2 where s2: "run_step\<^sup>*\<^sup>* (snd (gt_wakeup_pthread s)) s2"
    "map fst (threads s2) = map BusinessRow [0, 1, 2, 3, 4]"
    "\<forall>(ref, pc) \<in> set (threads s2). pc = PC_loop \<or> pc = PC_exited \<and> is_datanet ref" by auto
  have "threads s2 = map (\<lambda>ref. (ref, PC_loop)) (map fst (threads s2))"
  proof (rule nth_equalityI)
    fix j assume "j < length (threads s2)"
    then have "threads s2 ! j \<in> set (threads s2)" "fst (threads s2 ! j) \<in> set (map fst (threads s2))" by simp_all
    with s2(2,3) show "threads s2 ! j = map (\<lambda>ref. (ref, PC_loop)) (map fst (threads s2)) ! j"
      using \<open>j < length (threads s2)\<close> by (cases "threads s2 ! j") (fastforce simp: is_datanet_def)
  qed simp
  with s2(2) have "threads s2 = map (\<lambda>i. (BusinessRow i, PC_loop)) [0, 1, 2, 3, 4]" by simp
  with r s2(1) show ?thesis by blast
qed

end
