(* ===== verification/GT_Log.thy ===== *)
theory GT_Log
  imports GT_State
begin

text \<open>
  The log engine, \<open>user/core/gt_log.c\<close> and the macros of \<open>gt_log.h\<close>, at the level of the
  bytes of its stack buffer. \<open>GT_Posix.log_call\<close> is the abstract log call the other components
  use; here the text it stands for is assembled in a buffer of 1024 bytes the way
  \<open>gt_log_print\<close> does it, and the abstract call is shown to be refined as long as the text fits.

  The library functions the source calls are written out: \<open>strftime\<close> for the one format used,
  \<open>snprintf\<close> with a size in \<open>size_t\<close> and \<open>vsnprintf\<close> for the conversions that occur in the
  source. A write or a read outside the buffer is \<open>None\<close>. The broken-down time is an argument
  (\<open>None\<close> when \<open>gettimeofday\<close> fails) and so is the text of \<open>strerror\<close>.
\<close>

subsection \<open>Library functions\<close>

record tm =
  tm_year :: int
  tm_mon :: nat
  tm_mday :: nat
  tm_hour :: nat
  tm_min :: nat
  tm_sec :: nat

definition two_dec :: "nat \<Rightarrow> string" where
  "two_dec n = [char_of (48 + n div 10 mod 10), char_of (48 + n mod 10)]"

definition time_text :: "tm \<Rightarrow> string" where
  "time_text t = int_dec (1900 + tm_year t) @ ''-'' @ two_dec (tm_mon t + 1) @ ''-'' @ two_dec (tm_mday t) @ '' '' @
     two_dec (tm_hour t) @ '':'' @ two_dec (tm_min t) @ '':'' @ two_dec (tm_sec t) @ '' ''"

text \<open>The bytes \<open>bs\<close> are stored at \<open>off\<close>; beyond the end of the array there is no result.\<close>

definition store :: "u8 list \<Rightarrow> nat \<Rightarrow> u8 list \<Rightarrow> u8 list option" where
  "store buf off bs = (if off + length bs \<le> length buf
     then Some (take off buf @ bs @ drop (off + length bs) buf) else None)"

definition size_t :: "int \<Rightarrow> nat" where
  "size_t i = unat (word_of_int i :: u64)"

definition snprintf :: "u8 list \<Rightarrow> nat \<Rightarrow> nat \<Rightarrow> string \<Rightarrow> (int \<times> u8 list) option" where
  "snprintf buf off sz text =
     map_option (Pair (int (length text)))
       (if sz = 0 then Some buf else store buf off (to_bytes (take (sz - 1) text) @ [0]))"

text \<open>
  \<open>strftime\<close> returns 0 when the text and its terminator do not fit, and then leaves the array
  indeterminate; the text of a 32-bit year always fits in the sizes used here.
\<close>

definition strftime :: "u8 list \<Rightarrow> nat \<Rightarrow> tm \<Rightarrow> (int \<times> u8 list) option" where
  "strftime buf sz t =
     (if length (time_text t) < sz
      then map_option (Pair (int (length (time_text t)))) (store buf 0 (to_bytes (time_text t) @ [0]))
      else Some (0, buf))"

fun nat_hex :: "nat \<Rightarrow> string" where
  "nat_hex n = (let d = char_of (if n mod 16 < 10 then 48 + n mod 16 else 87 + n mod 16)
     in if n < 16 then [d] else nat_hex (n div 16) @ [d])"

declare nat_hex.simps [simp del]

definition arg_int :: "log_arg \<Rightarrow> int option" where
  "arg_int a = (case a of AInt i \<Rightarrow> Some i | _ \<Rightarrow> None)"

definition arg_text :: "(int \<Rightarrow> string) \<Rightarrow> log_arg \<Rightarrow> string option" where
  "arg_text strerror a = (case a of AStr t \<Rightarrow> Some t | AErrstr e \<Rightarrow> Some (strerror e) | _ \<Rightarrow> None)"

text \<open>One conversion: its text, the arguments left and the format left.\<close>

definition conversion ::
  "(int \<Rightarrow> string) \<Rightarrow> string \<Rightarrow> log_arg list \<Rightarrow> (string \<times> string \<times> log_arg list) option" where
  "conversion strerror fs args =
     (if take 1 fs = ''%'' then Some (''%'', drop 1 fs, args)
      else case args of
        [] \<Rightarrow> None
      | a # as \<Rightarrow>
          if take 1 fs = ''d'' then map_option (\<lambda>i. (int_dec i, drop 1 fs, as)) (arg_int a)
          else if take 1 fs = ''s'' then map_option (\<lambda>t. (t, drop 1 fs, as)) (arg_text strerror a)
          else if take 1 fs = ''u'' then map_option (\<lambda>i. (nat_dec (nat i), drop 1 fs, as)) (arg_int a)
          else if take 2 fs = ''lu'' then map_option (\<lambda>i. (nat_dec (nat i), drop 2 fs, as)) (arg_int a)
          else if take 2 fs = ''#x'' then
            map_option (\<lambda>i. ((if i = 0 then [] else ''0x'') @ nat_hex (nat i), drop 2 fs, as)) (arg_int a)
          else None)"

lemma conversion_shrinks: "conversion e fs args = Some (t, gs, as) \<Longrightarrow> length gs < length fs"
  by (cases fs; cases args) (auto simp: conversion_def split: if_splits)

function vprintf :: "(int \<Rightarrow> string) \<Rightarrow> string \<Rightarrow> log_arg list \<Rightarrow> string option" where
  "vprintf strerror [] args = Some []"
| "vprintf strerror (c # fs) args =
     (if c \<noteq> CHR ''%'' then map_option (Cons c) (vprintf strerror fs args)
      else case conversion strerror fs args of
        None \<Rightarrow> None
      | Some (t, gs, as) \<Rightarrow> map_option (append t) (vprintf strerror gs as))"
  by pat_completeness auto

termination
  by (relation "measure (\<lambda>(_, fs, _). length fs)") (auto dest: conversion_shrinks)

subsection \<open>The log engine\<close>

definition GT_STD_OUTPUT_FD :: fd where "GT_STD_OUTPUT_FD = 1"
definition GT_LOG_BUF_MAX_LEN :: int where "GT_LOG_BUF_MAX_LEN = 1024"
definition GT_LOG_FILE_PATH :: string where "GT_LOG_FILE_PATH = ''/tmp/''"
definition GT_LOG_FILE_NAME :: string where "GT_LOG_FILE_NAME = ''gt_server.log''"

definition g_log_level_str :: "string list" where
  "g_log_level_str = [''INFO'', ''WARN'', ''ERROR'', ''DEBUG'']"

definition level_idx :: "gt_log_level \<Rightarrow> nat" where
  "level_idx l = (case l of GT_LOG_LEVEL_INFO \<Rightarrow> 0 | GT_LOG_LEVEL_WARN \<Rightarrow> 1 | GT_LOG_LEVEL_ERROR \<Rightarrow> 2 |
     GT_LOG_LEVEL_DEBUG \<Rightarrow> 3 | GT_LOG_LEVEL_MAX \<Rightarrow> 4)"

text \<open>
  \<open>msg\<close> is the text \<open>vsnprintf\<close> makes of the format and its arguments. Besides the state the
  result tells what was handed to \<open>write\<close>: \<open>None\<close> after an early return, otherwise the
  descriptor and the bytes.
\<close>

definition gt_log_print ::
  "tm option \<Rightarrow> gt_mod_type \<Rightarrow> bool \<Rightarrow> gt_log_level \<Rightarrow> string \<Rightarrow> gt_state \<Rightarrow>
   ((fd \<times> u8 list) option \<times> gt_state) option" where
  "gt_log_print now md stdfd_flag log_level msg s = (case now of None \<Rightarrow> Some (None, s) | Some t \<Rightarrow> do {
     let buf = replicate (nat GT_LOG_BUF_MAX_LEN) 0;
     (ret_time_len, buf) \<leftarrow> strftime buf (size_t (GT_LOG_BUF_MAX_LEN - 1)) t;
     if ret_time_len < 0 then Some (None, s) else do {
     level \<leftarrow> (if level_idx log_level < length g_log_level_str
               then Some (g_log_level_str ! level_idx log_level) else None);
     (ret_level_len, buf) \<leftarrow> snprintf buf (nat ret_time_len)
        (size_t (GT_LOG_BUF_MAX_LEN - ret_time_len - 1)) (''['' @ level @ ''] '');
     if ret_level_len < 0 then Some (None, s) else do {
     (ret_log_len, buf) \<leftarrow> snprintf buf (nat (ret_time_len + ret_level_len))
        (size_t (GT_LOG_BUF_MAX_LEN - ret_time_len - ret_level_len - 1)) msg;
     if ret_log_len < 0 then Some (None, s) else do {
     let log_length =
        (if GT_LOG_BUF_MAX_LEN - ret_time_len - ret_level_len - 1 > ret_log_len
         then ret_time_len + ret_level_len + ret_log_len
         else ret_time_len + ret_level_len + ret_log_len - 1);
     (ret_end_len, buf) \<leftarrow> snprintf buf (nat log_length) (size_t (GT_LOG_BUF_MAX_LEN - log_length - 1)) [CHR 0x0A];
     if ret_end_len < 0 then Some (None, s) else do {
     let fd = (if stdfd_flag then GT_STD_OUTPUT_FD else g_gt_log_fd s);
     if log_length + ret_end_len \<le> int (length buf) then do {
       let bytes = take (nat (log_length + ret_end_len)) buf;
       let (ret_written_len, s) = lift_k (sys_write fd bytes) s;
       Some (Some (fd, bytes), s) }
     else None } } } } })"

definition gt_log_init :: "gt_state \<Rightarrow> int \<times> gt_state" where
  "gt_log_init s =
     (let (fd, s) = lift_k sys_open s;
          s = s\<lparr>g_gt_log_fd := fd\<rparr>
      in if 0 > g_gt_log_fd s then
           (let errnum = gt_errno s in
            (GT_ERROR, GT_STD_ERROR_LOG GT_MOD_CORE ''Failed to open log-file: %s%s! errno:%d, %s''
               [AStr GT_LOG_FILE_PATH, AStr GT_LOG_FILE_NAME, AInt errnum, AErrstr errnum] s))
         else (GT_OK, s))"

text \<open>The text of a log macro used in function \<open>fn\<close> at line \<open>line\<close>.\<close>

definition log_macro_text :: "(int \<Rightarrow> string) \<Rightarrow> string \<Rightarrow> int \<Rightarrow> string \<Rightarrow> log_arg list \<Rightarrow> string option" where
  "log_macro_text strerror fn line fmt args = vprintf strerror (''[%s:%d] '' @ fmt) (AStr fn # AInt line # args)"

subsection \<open>The buffer\<close>

lemma size_t_nat: "0 \<le> i \<Longrightarrow> i < 2 ^ 63 \<Longrightarrow> size_t i = nat i"
  by (simp add: size_t_def unat_eq_nat_uint uint_word_of_int)

lemma snprintf_zeros:
  assumes "0 < sz" "min (sz - 1) (length text) < m"
  shows "snprintf (P @ replicate m 0) (length P) sz text =
    Some (int (length text), P @ to_bytes (take (sz - 1) text) @ replicate (m - min (sz - 1) (length text)) 0)"
proof -
  define k where "k = min (sz - 1) (length text)"
  have k: "length (to_bytes (take (sz - 1) text) @ [0 :: u8]) = Suc k" by (simp add: k_def min.commute)
  have km: "k < m" using assms by (simp add: k_def)
  have "replicate (m - k) (0 :: u8) = 0 # drop (Suc k) (replicate m 0)"
    using km Suc_diff_Suc [OF km] by (simp flip: replicate_Suc)
  with assms k km show ?thesis by (simp add: snprintf_def store_def k_def [symmetric] del: One_nat_def)
qed

definition log_prefix :: "tm \<Rightarrow> gt_log_level \<Rightarrow> string" where
  "log_prefix t lvl = time_text t @ ''['' @ g_log_level_str ! level_idx lvl @ ''] ''"

text \<open>The characters of a message that fit, its terminator included.\<close>

definition log_room :: "tm \<Rightarrow> gt_log_level \<Rightarrow> nat" where
  "log_room t lvl = 1023 - length (log_prefix t lvl)"

definition sane_year :: "tm \<Rightarrow> bool" where
  "sane_year t \<longleftrightarrow> 1000 \<le> 1900 + tm_year t \<and> 1900 + tm_year t \<le> 9999"

lemma time_text_length: "sane_year t \<Longrightarrow> length (time_text t) = 20"
  using nat_dec_length_four [of "nat (1900 + tm_year t)"]
  by (auto simp: sane_year_def time_text_def int_dec_def two_dec_def nat_less_iff le_nat_iff)

lemma level_known:
  "lvl \<noteq> GT_LOG_LEVEL_MAX \<Longrightarrow> level_idx lvl < length g_log_level_str \<and> length (g_log_level_str ! level_idx lvl) \<in> {4, 5}"
  by (cases lvl) (simp_all add: level_idx_def g_log_level_str_def)

lemma log_prefix_length:
  "sane_year t \<Longrightarrow> lvl \<noteq> GT_LOG_LEVEL_MAX \<Longrightarrow> length (log_prefix t lvl) \<in> {27, 28}"
  using level_known [of lvl] by (auto simp: log_prefix_def time_text_length)

definition log_fd :: "bool \<Rightarrow> gt_state \<Rightarrow> fd" where
  "log_fd std s = (if std then GT_STD_OUTPUT_FD else g_gt_log_fd s)"

lemma log_print_eval:
  assumes t: "sane_year t" and l: "lvl \<noteq> GT_LOG_LEVEL_MAX"
  defines "P \<equiv> length (log_prefix t lvl)" and "room \<equiv> log_room t lvl"
  shows "gt_log_print (Some t) md std lvl msg s =
    (let L = (if length msg < room then P + length msg else P + length msg - 1) in
     snprintf (to_bytes (log_prefix t lvl @ take (room - 1) msg) @ replicate (1024 - P - min (room - 1) (length msg)) 0)
       L (size_t (1023 - int L)) [CHR 0x0A] \<bind>
     (\<lambda>(_, buf). if L + 1 \<le> length buf
        then Some (Some (log_fd std s, take (L + 1) buf), snd (lift_k (sys_write (log_fd std s) (take (L + 1) buf)) s)) else None))"
proof -
  let ?lev = "''['' @ g_log_level_str ! level_idx lvl @ ''] ''" and ?tt = "time_text t"
  have P: "P = 20 + length ?lev" "P = 27 \<or> P = 28" "room = 1023 - P"
    using log_prefix_length [OF t l] by (auto simp: P_def room_def log_room_def log_prefix_def time_text_length [OF t])
  have 1: "strftime (replicate 1024 0) (size_t 1023) t = Some (20, to_bytes ?tt @ replicate 1004 0)"
  proof -
    have "snprintf ([] @ replicate 1024 0) (length ([] :: u8 list)) 1023 ?tt = Some (20, to_bytes ?tt @ replicate 1004 0)"
      by (subst snprintf_zeros) (simp_all add: time_text_length [OF t])
    then show ?thesis by (simp add: strftime_def snprintf_def time_text_length [OF t] size_t_nat)
  qed
  have 2: "snprintf (to_bytes ?tt @ replicate 1004 0) 20 (size_t 1003) ?lev =
      Some (int (length ?lev), to_bytes (log_prefix t lvl) @ replicate (1024 - P) 0)"
    using snprintf_zeros [of 1003 ?lev 1004 "to_bytes ?tt"] P(1,2)
    by (auto simp: time_text_length [OF t] size_t_nat log_prefix_def)
  have 3: "snprintf (to_bytes (log_prefix t lvl) @ replicate (1024 - P) 0) P (size_t (1003 - int (length ?lev))) msg =
      Some (int (length msg), to_bytes (log_prefix t lvl @ take (room - 1) msg) @
        replicate (1024 - P - min (room - 1) (length msg)) 0)"
    using snprintf_zeros [of room msg "1024 - P" "to_bytes (log_prefix t lvl)"] P
    by (auto simp: size_t_nat P_def [symmetric] nat_diff_distrib)
  define buf where "buf = to_bytes (log_prefix t lvl @ take (room - 1) msg) @
        replicate (1024 - P - min (room - 1) (length msg)) 0"
  define n where "n = length (g_log_level_str ! level_idx lvl)"
  have n: "n = 4 \<or> n = 5" "P = n + 23" "length ?lev = n + 3"
    using level_known [OF l] P(1) by (auto simp: n_def)
  have "gt_log_print (Some t) md std lvl msg s =
    (let L = int (if length msg < room then P + length msg else P + length msg - 1) in
     snprintf buf (nat L) (size_t (1023 - L)) [CHR 0x0A] \<bind>
     (\<lambda>(e, buf). if e < 0 then Some (None, s) else if L + e \<le> int (length buf)
        then Some (Some (log_fd std s, take (nat (L + e)) buf), snd (lift_k (sys_write (log_fd std s) (take (nat (L + e)) buf)) s)) else None))"
    using n(1)
  proof
    assume 4: "n = 4"
    with n(2,3) P(3) have "P = 27" "length ?lev = 7" "room = 996" by simp_all
    with 1 2 3 level_known [OF l] n_def 4 show ?thesis unfolding buf_def [symmetric]
      by (simp add: gt_log_print_def GT_LOG_BUF_MAX_LEN_def log_fd_def Let_def case_prod_unfold algebra_simps nat_add_distrib cong: if_cong)
  next
    assume 5: "n = 5"
    with n(2,3) P(3) have "P = 28" "length ?lev = 8" "room = 995" by simp_all
    with 1 2 3 level_known [OF l] n_def 5 show ?thesis unfolding buf_def [symmetric]
      by (simp add: gt_log_print_def GT_LOG_BUF_MAX_LEN_def log_fd_def Let_def case_prod_unfold algebra_simps nat_add_distrib cong: if_cong)
  qed
  moreover define L where "L = (if length msg < room then P + length msg else P + length msg - 1)"
  moreover have "snprintf buf L sz [CHR 0x0A] = None \<or> (\<exists>b. snprintf buf L sz [CHR 0x0A] = Some (1, b))" for sz
    by (auto simp: snprintf_def split: if_splits)
  note this [of "size_t (1023 - int L)"]
  ultimately show ?thesis unfolding buf_def [symmetric] L_def [symmetric] Let_def
    by (auto simp: nat_add_distrib)
qed

definition log_write :: "bool \<Rightarrow> u8 list \<Rightarrow> gt_state \<Rightarrow> ((fd \<times> u8 list) option \<times> gt_state) option" where
  "log_write std bytes s = Some (Some (log_fd std s, bytes), snd (lift_k (sys_write (log_fd std s) bytes) s))"


lemma snprintf_newline:
  assumes "0 < sz" "1 < m"
  shows "snprintf (B @ replicate m 0) (length B) sz [CHR 0x0A] =
    Some (1, B @ (if 1 < sz then 10 # replicate (m - 1) 0 else replicate m 0))"
proof (cases "1 < sz")
  case True
  then have "take (sz - 1) [CHR 0x0A] = [CHR 0x0A]" by (cases "sz - 1") auto
  with snprintf_zeros [of sz "[CHR 0x0A]" m B] True assms show ?thesis by (simp add: to_bytes_def)
next
  case False
  with assms(1) have "sz = 1" by simp
  with snprintf_zeros [of sz "[CHR 0x0A]" m B] assms show ?thesis by (simp add: to_bytes_def)
qed

lemma log_print_cases:
  assumes t: "sane_year t" and l: "lvl \<noteq> GT_LOG_LEVEL_MAX"
  shows "length msg + 2 \<le> log_room t lvl \<Longrightarrow>
      gt_log_print (Some t) md std lvl msg s = log_write std (to_bytes (log_prefix t lvl @ msg @ [CHR 0x0A])) s"
    "length msg + 1 = log_room t lvl \<or> length msg = log_room t lvl \<Longrightarrow>
      gt_log_print (Some t) md std lvl msg s = log_write std (to_bytes (log_prefix t lvl @ take (log_room t lvl - 1) msg) @ [0]) s"
    "length msg = log_room t lvl + 1 \<Longrightarrow>
      gt_log_print (Some t) md std lvl msg s = log_write std (to_bytes (log_prefix t lvl @ take (log_room t lvl - 1) msg) @ [0, 0]) s"
    "log_room t lvl + 2 \<le> length msg \<Longrightarrow> gt_log_print (Some t) md std lvl msg s = None"
proof -
  let ?r = "length msg" and ?pre = "log_prefix t lvl" and ?room = "log_room t lvl"
  have P: "length ?pre = 27 \<or> length ?pre = 28" "?room = 1023 - length ?pre"
    using log_prefix_length [OF t l] by (auto simp: log_room_def)
  note E = log_print_eval [OF t l, of md std msg s]
  { assume r: "?r + 2 \<le> ?room"
    have sz: "size_t (1023 - int (length ?pre + ?r)) = ?room - ?r"
      using r P by (simp add: size_t_nat nat_diff_distrib nat_add_distrib)
    have N: "snprintf (to_bytes (?pre @ msg) @ replicate (1024 - length ?pre - ?r) 0) (length ?pre + ?r) (?room - ?r) [CHR 0x0A] =
        Some (1, to_bytes (?pre @ msg) @ 10 # replicate (1024 - length ?pre - ?r - 1) 0)"
      using snprintf_newline [of "?room - ?r" "1024 - length ?pre - ?r" "to_bytes (?pre @ msg)"] r P by simp
    have M: "take (?room - 1) msg = msg" "min (?room - 1) ?r = ?r" "?r < ?room" "[10] = to_bytes [CHR 0x0A]"
      using r by (simp_all add: to_bytes_def)
    show "gt_log_print (Some t) md std lvl msg s = log_write std (to_bytes (?pre @ msg @ [CHR 0x0A])) s"
      unfolding E M(1,2) Let_def if_P [OF M(3)] sz N by (simp add: log_write_def M(4))
  }
  have K: "1024 - length ?pre - min (?room - 1) ?r = 2" "length (?pre @ take (?room - 1) msg) = 1022" if "?room - 1 \<le> ?r"
    using that P by auto
  have T: "take 1023 (B @ replicate 2 0) = B @ [0 :: u8]" if "length B = 1022" for B
    using that by (simp add: numeral_2_eq_2)
  { assume r: "?r + 1 = ?room \<or> ?r = ?room"
    have L: "(if ?r < ?room then length ?pre + ?r else length ?pre + ?r - 1) = 1022" using r P by auto
    have sz: "size_t (1023 - int 1022) = 1" by (simp add: size_t_def)
    have "?room - 1 \<le> ?r" using r by auto
    note k = K [OF this]
    have N: "snprintf (to_bytes (?pre @ take (?room - 1) msg) @ replicate 2 0) 1022 1 [CHR 0x0A] =
        Some (1, to_bytes (?pre @ take (?room - 1) msg) @ replicate 2 0)"
      using snprintf_newline [of 1 2 "to_bytes (?pre @ take (?room - 1) msg)"] k(2) by simp
    show "gt_log_print (Some t) md std lvl msg s = log_write std (to_bytes (?pre @ take (?room - 1) msg) @ [0]) s"
      unfolding E Let_def L k(1) sz N using T [of "to_bytes (?pre @ take (?room - 1) msg)"] k(2) by (simp add: log_write_def del: to_bytes_simps(2,3))
  }
  { assume r: "?r = ?room + 1"
    have L: "(if ?r < ?room then length ?pre + ?r else length ?pre + ?r - 1) = 1023" using r P by auto
    have sz: "size_t (1023 - int 1023) = 0" by (simp add: size_t_def)
    have "?room - 1 \<le> ?r" using r by auto
    note k = K [OF this]
    have N: "snprintf B 1023 0 [CHR 0x0A] = Some (1, B)" for B by (simp add: snprintf_def)
    show "gt_log_print (Some t) md std lvl msg s = log_write std (to_bytes (?pre @ take (?room - 1) msg) @ [0, 0]) s"
      unfolding E Let_def L k(1) sz N using k(2) by (simp add: log_write_def numeral_2_eq_2 del: to_bytes_simps(2,3))
  }
  { assume r: "?room + 2 \<le> ?r"
    have len: "length b = length a" if "snprintf a i sz tx = Some (e, b)" for a i sz tx e b
      using that by (auto simp: snprintf_def store_def split: if_splits)
    have L: "1025 \<le> Suc (if ?r < ?room then length ?pre + ?r else length ?pre + ?r - 1)" using r P by auto
    show "gt_log_print (Some t) md std lvl msg s = None"
      using E r K L by (auto simp: Let_def dest: len split: bind_splits)
  }
qed

text \<open>
  C12: a message that leaves room for a newline is written in full, after the time and the level
  and followed by a newline. A message up to three characters longer is cut if needed
  and ends in zero bytes instead of a newline. A message longer than that makes
  \<open>gt_log_print\<close> store the newline behind its buffer: the remaining size becomes negative and
  is passed as a huge \<open>size_t\<close>.
\<close>

theorem log_print_layout:
  assumes "sane_year t" "lvl \<noteq> GT_LOG_LEVEL_MAX"
  shows "gt_log_print (Some t) md std lvl msg s =
    (if length msg + 2 \<le> log_room t lvl then log_write std (to_bytes (log_prefix t lvl @ msg @ [CHR 0x0A])) s
     else if length msg \<le> log_room t lvl then
       log_write std (to_bytes (log_prefix t lvl @ take (log_room t lvl - 1) msg) @ [0]) s
     else if length msg = log_room t lvl + 1 then
       log_write std (to_bytes (log_prefix t lvl @ take (log_room t lvl - 1) msg) @ [0, 0]) s
     else None)"
proof -
  let ?r = "length msg" and ?m = "log_room t lvl"
  consider "?r + 2 \<le> ?m" | "?r + 1 = ?m \<or> ?r = ?m" | "?r = ?m + 1" | "?m + 2 \<le> ?r" by linarith
  then show ?thesis by cases (simp_all add: log_print_cases [OF assms], auto)
qed

definition demo_tm :: tm where
  "demo_tm = \<lparr>tm_year = 115, tm_mon = 10, tm_mday = 22, tm_hour = 8, tm_min = 5, tm_sec = 0\<rparr>"

definition demo_log_state :: gt_state where
  "demo_log_state = boot_state (boot_kernel (\<lambda>_. None) (\<lambda>_. 0))"

theorem log_print_layout_witness:
  "log_prefix demo_tm GT_LOG_LEVEL_WARN = ''2015-11-22 08:05:00 [WARN] '' \<and>
   gt_log_print (Some demo_tm) GT_MOD_CORE True GT_LOG_LEVEL_WARN ''x'' demo_log_state =
     log_write True (to_bytes (''2015-11-22 08:05:00 [WARN] x'' @ [CHR 0x0A])) demo_log_state \<and>
   gt_log_print (Some demo_tm) GT_MOD_CORE True GT_LOG_LEVEL_WARN (replicate 998 CHR ''x'') demo_log_state = None"
proof -
  have y: "sane_year demo_tm" by (simp add: sane_year_def demo_tm_def)
  have p: "log_prefix demo_tm GT_LOG_LEVEL_WARN = ''2015-11-22 08:05:00 [WARN] ''" by code_simp
  have "log_room demo_tm GT_LOG_LEVEL_WARN = 996" by (simp add: log_room_def p)
  then show ?thesis
    using log_print_layout [OF y, of GT_LOG_LEVEL_WARN GT_MOD_CORE True "''x''" demo_log_state]
      log_print_layout [OF y, of GT_LOG_LEVEL_WARN GT_MOD_CORE True "replicate 998 CHR ''x''" demo_log_state] p by simp
qed

subsection \<open>Refinement of the abstract log call\<close>

text \<open>A descriptor \<open>write\<close> accepts, or a system call that fails for another reason.\<close>

definition log_usable :: "bool \<Rightarrow> gt_state \<Rightarrow> bool" where
  "log_usable std s \<longleftrightarrow> fault_now (kern s) \<noteq> None \<or>
     (case file_at (kern s) (log_fd std s) of None \<Rightarrow> False | Some f \<Rightarrow> f_kind f = FK_file)"

definition record_log :: "log_entry \<Rightarrow> gt_state \<Rightarrow> gt_state" where
  "record_log e s = s\<lparr>kern := (kern s)\<lparr>k_log := k_log (kern s) @ [e]\<rparr>\<rparr>"

lemma log_write_refines:
  assumes "log_usable std s"
  shows "record_log \<lparr>l_mod = md, l_std = std, l_level = lvl, l_format = fmt, l_args = args\<rparr>
      (snd (lift_k (sys_write (log_fd std s) bytes) s)) = s\<lparr>kern := log_call md std lvl fmt args (kern s)\<rparr>"
  using assms
  by (auto simp: log_usable_def record_log_def lift_k_eq sys_write_def syscall_def log_call_def Let_def sys_fail_def
      next_call_def split: option.splits)



subsection \<open>Received data\<close>

lemma int_dec_length: "- (2 ^ 31) \<le> i \<Longrightarrow> i < 2 ^ 31 \<Longrightarrow> length (int_dec i) \<le> 11"
  using nat_dec_length [of "nat (- i)" 10] nat_dec_length [of "nat i" 10]
  by (cases "i < 0") (simp_all add: int_dec_def nat_less_iff)

lemma data_message_text:
  "log_macro_text strerror ''gt_datanet_ops_read'' 98 ''CFD[%d]: %s'' [AInt efd, AStr text] =
     Some (''[gt_datanet_ops_read:98] CFD['' @ int_dec efd @ '']: '' @ text)"
proof -
  have "int_dec 98 = ''98''" by code_simp
  then show ?thesis
    by (simp add: log_macro_text_def conversion_def arg_int_def arg_text_def)
qed

lemma data_message_logged:
  assumes "sane_year t" "log_usable False s" "- (2 ^ 31) \<le> efd" "efd < 2 ^ 31" "length text \<le> 127"
  defines "msg \<equiv> ''[gt_datanet_ops_read:98] CFD['' @ int_dec efd @ '']: '' @ text"
  shows "\<exists>s'. gt_log_print (Some t) GT_MOD_CORE False GT_LOG_LEVEL_INFO msg s =
      Some (Some (g_gt_log_fd s, to_bytes (log_prefix t GT_LOG_LEVEL_INFO @ msg @ [CHR 0x0A])), s') \<and>
    record_log \<lparr>l_mod = GT_MOD_CORE, l_std = False, l_level = GT_LOG_LEVEL_INFO, l_format = ''CFD[%d]: %s'',
        l_args = [AInt efd, AStr text]\<rparr> s' =
      GT_INFO_LOG GT_MOD_CORE ''CFD[%d]: %s'' [AInt efd, AStr text] s"
proof -
  have l: "GT_LOG_LEVEL_INFO \<noteq> GT_LOG_LEVEL_MAX" by simp
  have "length msg + 2 \<le> log_room t GT_LOG_LEVEL_INFO"
    using int_dec_length [OF assms(3,4)] assms(5) log_prefix_length [OF assms(1) l]
    by (auto simp: msg_def log_room_def)
  from log_print_cases(1) [OF assms(1) l this] log_write_refines [OF assms(2)] show ?thesis
    by (simp add: log_write_def log_fd_def GT_INFO_LOG_def)
qed

end
