(* ===== verification/GT_Params.thy ===== *)
theory GT_Params
  imports GT_State
begin

text \<open>
  The command line: \<open>gt_parse_parameters\<close> of \<open>user/main/main.c\<close> with the functions of the C
  library it calls. \<open>inet_aton\<close> takes one to four numbers separated by dots, each decimal, octal
  or hexadecimal; all but the last are one byte, the last fills the rest; text after a white space
  is ignored. \<open>atoi\<close> is \<open>strtol\<close> cut to an \<open>int\<close>.
\<close>

subsection \<open>Numbers\<close>

text \<open>The value of a digit; 99 for any other character.\<close>

definition dig :: "char \<Rightarrow> nat" where
  "dig c = (let n = of_char c :: nat in
     if 48 \<le> n \<and> n \<le> 57 then n - 48
     else if 97 \<le> n \<and> n \<le> 102 then n - 87
     else if 65 \<le> n \<and> n \<le> 70 then n - 55
     else 99)"

definition digits :: "nat \<Rightarrow> string \<Rightarrow> string" where
  "digits base s = takeWhile (\<lambda>c. dig c < base) s"

definition number :: "nat \<Rightarrow> string \<Rightarrow> nat" where
  "number base ds = foldl (\<lambda>v c. base * v + dig c) 0 ds"

definition is_space :: "char \<Rightarrow> bool" where
  "is_space c \<longleftrightarrow> c \<in> set [CHR '' '', CHR 0x09, CHR 0x0A, CHR 0x0B, CHR 0x0C, CHR 0x0D]"

text \<open>\<open>strtoul\<close> with base 0 on a text that starts with a digit: the value and the text left.\<close>

definition strtoul :: "string \<Rightarrow> nat \<times> string" where
  "strtoul s =
     (let (base, t) =
        (if take 1 s = ''0'' then
           (if (take 1 (drop 1 s) = ''x'' \<or> take 1 (drop 1 s) = ''X'') \<and> digits 16 (drop 2 s) \<noteq> []
            then (16, drop 2 s) else (8, s))
         else (10, s))
      in (number base (digits base t), drop (length (digits base t)) t))"

lemma strtoul_shrinks: "length (snd (strtoul s)) \<le> length s"
  by (simp add: strtoul_def Let_def split: if_splits)

function inet_numbers :: "nat list \<Rightarrow> string \<Rightarrow> (nat list \<times> nat \<times> string) option" where
  "inet_numbers parts s =
     (if s = [] \<or> 10 \<le> dig (hd s) then None
      else let (v, rest) = strtoul s in
        if rest \<noteq> [] \<and> hd rest = CHR ''.'' then
          (if 3 \<le> length parts \<or> 255 < v then None else inet_numbers (parts @ [v]) (tl rest))
        else Some (parts, v, rest))"
  by pat_completeness auto

termination
proof (relation "measure (\<lambda>(_, s). length s)")
  fix parts s p v rest
  assume a: "\<not> (s = [] \<or> 10 \<le> dig (hd s))" "p = strtoul s" "(v, rest) = p" "rest \<noteq> [] \<and> hd rest = CHR ''.''"
  then have "length rest \<le> length s" using strtoul_shrinks [of s] by (metis snd_conv)
  moreover have "length (tl rest) < length rest" using a by simp
  ultimately show "((parts @ [v], tl rest), (parts, s)) \<in> measure (\<lambda>(_, s). length s)" by simp
qed simp

declare inet_numbers.simps [simp del]

text \<open>The address in host order; the library stores it in network order.\<close>

definition inet_aton :: "string \<Rightarrow> u32 option" where
  "inet_aton s = (case inet_numbers [] s of
       None \<Rightarrow> None
     | Some (parts, v, rest) \<Rightarrow>
         if (rest = [] \<or> is_space (hd rest)) \<and> v < 256 ^ (4 - length parts)
         then Some (htonl (of_nat (foldl (\<lambda>a b. 256 * a + b) 0 parts * 256 ^ (4 - length parts) + v)))
         else None)"

definition strtol :: "string \<Rightarrow> int" where
  "strtol s = (let t = dropWhile is_space s;
                   u = (if take 1 t = ''-'' \<or> take 1 t = ''+'' then drop 1 t else t);
                   n = int (number 10 (digits 10 u));
                   v = (if take 1 t = ''-'' then - n else n)
               in max (- (2 ^ 63)) (min (2 ^ 63 - 1) v))"

definition atoi :: "string \<Rightarrow> int" where
  "atoi s = sint (word_of_int (strtol s) :: u32)"

subsection \<open>The parameters\<close>

definition gt_parse_parameters :: "string list \<Rightarrow> gt_state \<Rightarrow> (int \<times> gt_state) option" where
  "gt_parse_parameters argv s =
     (if length argv < 3 then
        (case argv of
           [] \<Rightarrow> None
         | prog # _ \<Rightarrow> Some (GT_ERROR, GT_ERROR_LOG GT_MOD_CORE
              ''Invalid Parameters. Usage: %s [ip] [port]'' [AStr prog] s))
      else case inet_aton (argv ! 1) of
        None \<Rightarrow> Some (GT_ERROR, GT_ERROR_LOG GT_MOD_CORE
              ''Invalid ip[%s]. Usage: %s [ip] [port]'' [AStr (argv ! 1), AStr (argv ! 0)] s)
      | Some s_addr \<Rightarrow>
          Some (GT_OK, s\<lparr>g_gt_server_ip := ntohl s_addr, g_gt_server_port := word_of_int (atoi (argv ! 2))\<rparr>))"

subsection \<open>Printing and parsing\<close>

lemma dig_char: "d < 10 \<Longrightarrow> dig (char_of (48 + d)) = d"
  by (simp add: dig_def)

lemma zero_char: "dig CHR ''0'' = 0" "char_of (48 :: nat) = CHR ''0''"
  by (simp add: dig_def) code_simp

lemma nat_dec_digits: "\<forall>c \<in> set (nat_dec n). dig c < 10"
proof (induction n rule: nat_dec.induct)
  case (1 n)
  then show ?case by (simp add: nat_dec.simps [of n] dig_char)
qed

lemma number_nat_dec: "number 10 (nat_dec n) = n"
proof (induction n rule: nat_dec.induct)
  case (1 n)
  then show ?case by (simp add: nat_dec.simps [of n] number_def dig_char)
qed

lemma nat_dec_head: "0 < n \<Longrightarrow> hd (nat_dec n) \<noteq> CHR ''0'' \<and> nat_dec n \<noteq> []"
proof (induction n rule: nat_dec.induct)
  case (1 n)
  show ?case
  proof (cases "n < 10")
    case True
    have "char_of (48 + n) \<noteq> CHR ''0''" using dig_char [OF True] zero_char(1) \<open>0 < n\<close> by force
    with True show ?thesis by (simp add: nat_dec.simps [of n])
  next
    case False
    then have "0 < n div 10" by simp
    with 1 False show ?thesis by (simp add: nat_dec.simps [of n])
  qed
qed

text \<open>A decimal number up to a character that is no digit is read back.\<close>

definition ends_number :: "string \<Rightarrow> bool" where
  "ends_number t \<longleftrightarrow> t = [] \<or> 99 \<le> dig (hd t)"

lemma digits_dec:
  assumes "ends_number t"
  shows "digits 10 (nat_dec n @ t) = nat_dec n"
proof -
  have "digits 10 t = []" using assms by (cases t) (auto simp: ends_number_def digits_def)
  then show ?thesis using nat_dec_digits [of n] by (simp add: digits_def)
qed

lemma strtoul_dec:
  assumes "ends_number t" "take 1 t \<noteq> ''x''" "take 1 t \<noteq> ''X''"
  shows "strtoul (nat_dec n @ t) = (n, t)"
proof (cases "n = 0")
  case True
  have "digits 8 t = []" using assms(1) by (cases t) (auto simp: ends_number_def digits_def)
  then have "digits 8 (CHR ''0'' # t) = ''0''" by (simp add: digits_def dig_def)
  with True assms(2,3) show ?thesis by (simp add: strtoul_def nat_dec.simps [of 0] number_def zero_char)
next
  case False
  then have "take 1 (nat_dec n @ t) \<noteq> ''0''" using nat_dec_head [of n] by (cases "nat_dec n") auto
  with digits_dec [OF assms(1), of n] show ?thesis by (simp add: strtoul_def number_nat_dec)
qed


lemma nat_dec_start: "nat_dec n \<noteq> []" "dig (hd (nat_dec n @ t)) < 10"
proof -
  show ne: "nat_dec n \<noteq> []" by (simp add: nat_dec.simps [of n])
  then have "hd (nat_dec n) \<in> set (nat_dec n)" by simp
  with nat_dec_digits [of n] ne show "dig (hd (nat_dec n @ t)) < 10" by auto
qed

lemma inet_numbers_dot:
  assumes "a < 256" "length parts < 3"
  shows "inet_numbers parts (nat_dec a @ ''.'' @ t) = inet_numbers (parts @ [a]) t"
proof -
  have "strtoul (nat_dec a @ ''.'' @ t) = (a, ''.'' @ t)"
    by (rule strtoul_dec) (simp_all add: ends_number_def dig_def)
  with assms nat_dec_start [of a] nat_dec_start(2) [of a "''.'' @ t"] show ?thesis
    by (simp add: inet_numbers.simps [of parts "nat_dec a @ _"])
qed

lemma inet_numbers_last: "inet_numbers parts (nat_dec a) = Some (parts, a, [])"
proof -
  have "strtoul (nat_dec a @ []) = (a, [])" by (rule strtoul_dec) (simp_all add: ends_number_def)
  with nat_dec_start(1) [of a] nat_dec_start(2) [of a "[]"] show ?thesis by (simp add: inet_numbers.simps [of parts])
qed

definition dotted :: "nat \<Rightarrow> nat \<Rightarrow> nat \<Rightarrow> nat \<Rightarrow> string" where
  "dotted a b c d = nat_dec a @ ''.'' @ nat_dec b @ ''.'' @ nat_dec c @ ''.'' @ nat_dec d"

lemma inet_aton_dotted:
  assumes "a < 256" "b < 256" "c < 256" "d < 256"
  shows "inet_aton (dotted a b c d) = Some (htonl (of_nat (2 ^ 24 * a + 2 ^ 16 * b + 2 ^ 8 * c + d)))"
proof -
  have "inet_numbers [] (dotted a b c d) = Some ([a, b, c], d, [])"
    using assms by (simp add: dotted_def inet_numbers_dot [simplified] inet_numbers_last)
  with assms show ?thesis by (simp add: inet_aton_def algebra_simps)
qed

lemma dig_not_special: "dig c < 10 \<Longrightarrow> \<not> is_space c \<and> c \<noteq> CHR ''-'' \<and> c \<noteq> CHR ''+''"
  by (auto simp: is_space_def dig_def)

lemma strtol_dec:
  assumes "- (2 ^ 63) \<le> p" "p < 2 ^ 63"
  shows "strtol (int_dec p) = p"
proof -
  have N: "dropWhile is_space (nat_dec n) = nat_dec n" "take 1 (nat_dec n) \<noteq> ''-''" "take 1 (nat_dec n) \<noteq> ''+''"
    "number 10 (digits 10 (nat_dec n)) = n" for n
  proof -
    obtain c cs where c: "nat_dec n = c # cs" using nat_dec_start(1) by (cases "nat_dec n") auto
    then have "dig c < 10" using nat_dec_digits [of n] by simp
    with dig_not_special [of c] c show "dropWhile is_space (nat_dec n) = nat_dec n" "take 1 (nat_dec n) \<noteq> ''-''"
      "take 1 (nat_dec n) \<noteq> ''+''" by auto
    show "number 10 (digits 10 (nat_dec n)) = n"
      using digits_dec [of "[]" n] by (simp add: ends_number_def number_nat_dec)
  qed
  show ?thesis
  proof (cases "p < 0")
    case True
    with assms N [of "nat (- p)"] show ?thesis by (simp add: strtol_def int_dec_def is_space_def)
  next
    case False
    with assms N [of "nat p"] show ?thesis by (simp add: strtol_def int_dec_def)
  qed
qed

lemma port_of_dec:
  assumes "- (2 ^ 63) \<le> p" "p < 2 ^ 63"
  shows "(word_of_int (atoi (int_dec p)) :: u16) = word_of_int p"
proof -
  have "(word_of_int (atoi (int_dec p)) :: u16) = ucast (word_of_int p :: u32)"
    by (simp add: atoi_def strtol_dec [OF assms]) (rule bit_word_eqI, simp add: bit_simps)
  also have "\<dots> = word_of_int p" by (rule bit_word_eqI) (simp add: bit_simps)
  finally show ?thesis .
qed

text \<open>
  C14: a dotted quad and a decimal port are read back: the globals hold the address in host order
  and the port modulo \<open>2 ^ 16\<close>, without any check of its range. Every command line with fewer than two
  arguments or an address \<open>inet_aton\<close> rejects is refused and leaves both globals alone.
\<close>

theorem parse_parameters_roundtrip:
  assumes "a < 256" "b < 256" "c < 256" "d < 256" "- (2 ^ 63) \<le> p" "p < 2 ^ 63"
  shows "gt_parse_parameters (prog # dotted a b c d # int_dec p # rest) s =
      Some (GT_OK, s\<lparr>g_gt_server_ip := of_nat (2 ^ 24 * a + 2 ^ 16 * b + 2 ^ 8 * c + d), g_gt_server_port := word_of_int p\<rparr>) \<and>
    (\<forall>argv. argv \<noteq> [] \<longrightarrow> length argv < 3 \<or> inet_aton (argv ! 1) = None \<longrightarrow>
      (\<exists>s'. gt_parse_parameters argv s = Some (GT_ERROR, s') \<and>
        g_gt_server_ip s' = g_gt_server_ip s \<and> g_gt_server_port s' = g_gt_server_port s))"
proof -
  have "gt_parse_parameters (prog # dotted a b c d # int_dec p # rest) s =
      Some (GT_OK, s\<lparr>g_gt_server_ip := of_nat (2 ^ 24 * a + 2 ^ 16 * b + 2 ^ 8 * c + d), g_gt_server_port := word_of_int p\<rparr>)"
    using inet_aton_dotted [OF assms(1-4)] port_of_dec [OF assms(5,6)] by (simp add: gt_parse_parameters_def)
  moreover have "g_gt_server_ip (GT_ERROR_LOG md fmt l s) = g_gt_server_ip s \<and>
      g_gt_server_port (GT_ERROR_LOG md fmt l s) = g_gt_server_port s" for md fmt l
    by (simp add: GT_ERROR_LOG_def)
  ultimately show ?thesis by (auto simp: gt_parse_parameters_def split: list.splits)
qed

theorem parse_parameters_roundtrip_witness:
  "\<exists>s'. gt_parse_parameters [''gt'', ''192.168.0.10'', ''-1''] (boot_state (boot_kernel (\<lambda>_. None) (\<lambda>_. 0))) = Some (GT_OK, s') \<and>
     g_gt_server_ip s' = 0xC0A8000A \<and> g_gt_server_port s' = 65535"
proof -
  have e: "dotted 192 168 0 10 = ''192.168.0.10''" "int_dec (- 1) = ''-1''" by code_simp+
  have "gt_parse_parameters (''gt'' # dotted 192 168 0 10 # int_dec (- 1) # []) s =
      Some (GT_OK, s\<lparr>g_gt_server_ip := of_nat (2 ^ 24 * 192 + 2 ^ 16 * 168 + 2 ^ 8 * 0 + 10), g_gt_server_port := word_of_int (- 1)\<rparr>)" for s
    using parse_parameters_roundtrip [of 192 168 0 10 "- 1" "''gt''" "[]" s] by simp
  then show ?thesis unfolding e by simp
qed

end
