(* ===== verification/GT_Main.thy ===== *)
theory GT_Main
  imports GT_Threads GT_Log GT_Params
begin

text \<open>
  The main program, \<open>user/main/main.c\<close>: daemonisation, the initialisation sequence, the endless
  loop and \<open>main\<close> itself. \<open>umask\<close>, \<open>setsid\<close>, \<open>chdir\<close>, \<open>prctl\<close> and \<open>sleep\<close> have no
  effect on the state that is modelled; during the two seconds of sleep before the broadcast the
  other threads run, which is the argument \<open>others\<close>.
\<close>

subsection \<open>Operations\<close>

datatype process = Exits int gt_state | Returns int gt_state

text \<open>\<open>pid1\<close> and \<open>pid2\<close> are what the two calls of \<open>fork\<close> answer to this process.\<close>

definition gt_daemonize_process :: "int \<Rightarrow> int \<Rightarrow> gt_state \<Rightarrow> process" where
  "gt_daemonize_process pid1 pid2 s =
     (if 0 < pid1 then Exits 0 s
      else if 0 > pid1 then Returns GT_ERROR s
      else if 0 < pid2 then Exits 0 s
      else if 0 > pid2 then Returns GT_ERROR s
      else
        (let (_, s) = lift_k (sys_close 0) s;
             (_, s) = lift_k (sys_close 1) s;
             (_, s) = lift_k (sys_close 2) s;
             (fd0, s) = lift_k sys_open s;
             (_, s) = lift_k (sys_dup2 fd0 1) s;
             (_, s) = lift_k (sys_dup2 fd0 2) s
         in Returns GT_OK s))"

definition gt_init_system :: "(gt_state \<Rightarrow> gt_state) \<Rightarrow> gt_state \<Rightarrow> (int \<times> gt_state) option" where
  "gt_init_system others s = do {
     let (ret, s) = gt_log_init s;
     if ret \<noteq> GT_OK then Some (ret, GT_ERROR_LOG GT_MOD_CORE ''Failed to init log!'' [] s) else do {
     (ret, s) \<leftarrow> gt_signals_init s;
     if ret \<noteq> GT_OK then Some (ret, GT_ERROR_LOG GT_MOD_CORE ''Failed to init signals!'' [] s) else do {
     (ret, s) \<leftarrow> gt_core_init s;
     if ret \<noteq> GT_OK then Some (ret, GT_ERROR_LOG GT_MOD_CORE ''Failed to init poller.'' [] s) else do {
     (ret, s) \<leftarrow> gt_network_init s;
     if ret \<noteq> GT_OK then Some (ret, GT_ERROR_LOG GT_MOD_CORE ''Failed to init network.'' [] s) else do {
     let (ret, s) = gt_create_pthread s;
     if ret \<noteq> GT_OK then Some (ret, GT_ERROR_LOG GT_MOD_CORE ''Failed to create pthread!'' [] s) else do {
     (ret, s) \<leftarrow> gt_phase_run phase_call s;
     if ret \<noteq> GT_OK then Some (ret, GT_ERROR_LOG GT_MOD_CORE ''Failed to run phase!'' [] s) else do {
     let s = others s;
     let (ret, s) = gt_wakeup_pthread s;
     if ret \<noteq> GT_OK then Some (ret, GT_ERROR_LOG GT_MOD_CORE ''Failed to wakeup pthread!'' [] s)
     else Some (GT_OK, s) } } } } } } }"

text \<open>The rounds of the main loop on the given readiness reports; the loop itself does not end.\<close>

fun gt_do_run :: "readiness list \<Rightarrow> gt_state \<Rightarrow> gt_state option" where
  "gt_do_run [] s = Some s"
| "gt_do_run (rdy # rdys) s = gt_poller_epoll_wait ops_call rdy g_gt_core_poller s \<bind> gt_do_run rdys"

datatype outcome = Exited int gt_state | Running gt_state

definition gt_main ::
  "string list \<Rightarrow> int \<Rightarrow> int \<Rightarrow> (gt_state \<Rightarrow> gt_state) \<Rightarrow> readiness list \<Rightarrow> gt_state \<Rightarrow> outcome option" where
  "gt_main argv pid1 pid2 others rdys s = do {
     (ret, s) \<leftarrow> gt_parse_parameters argv s;
     if ret \<noteq> GT_OK then Some (Exited ret (GT_ERROR_LOG GT_MOD_CORE ''Failed to parse paramters!'' [] s)) else
     (case gt_daemonize_process pid1 pid2 s of
        Exits code s \<Rightarrow> Some (Exited code s)
      | Returns ret s \<Rightarrow>
          if ret \<noteq> GT_OK then Some (Exited ret (GT_ERROR_LOG GT_MOD_CORE ''Failed to daemonize process!'' [] s)) else do {
          (ret, s) \<leftarrow> gt_init_system others s;
          if ret \<noteq> GT_OK then Some (Exited ret (GT_ERROR_LOG GT_MOD_CORE ''Failed to init process!'' [] s)) else do {
          s \<leftarrow> gt_do_run rdys s;
          Some (Running s) } }) }"

subsection \<open>What the initialisation leaves alone\<close>

definition init_frame :: "gt_state \<Rightarrow> gt_state \<Rightarrow> bool" where
  "init_frame s s' \<longleftrightarrow> (sys_inv s \<longrightarrow> sys_inv s') \<and> k_fault (kern s') = k_fault (kern s) \<and>
     threads s' = threads s \<and> rows_data s' = rows_data s"

lemma init_frame_refl [simp]: "init_frame s s"
  by (simp add: init_frame_def)

lemma init_frame_trans: "init_frame s t \<Longrightarrow> init_frame t u \<Longrightarrow> init_frame s u"
  by (simp add: init_frame_def)

lemma init_frame_world: "init_frame s s' \<Longrightarrow> world_inv s \<Longrightarrow> world_inv s'"
  by (auto simp: init_frame_def world_inv_def sys_ok_def mild_def)

lemma init_frame_kernel: "kernel_only s s' \<Longrightarrow> init_frame s s'"
  by (auto simp: kernel_only_def init_frame_def sys_inv_kern)

lemma init_frame_log: "init_frame s (GT_ERROR_LOG md fmt a s)" "init_frame s (GT_INFO_LOG md fmt a s)"
  by (rule init_frame_kernel, simp)+

lemma init_frame_globals:
  "init_frame s (s\<lparr>g_gt_phase := t\<rparr>)" "init_frame s (s\<lparr>g_signal_pipefd := p\<rparr>)" "init_frame s (s\<lparr>g_gt_log_fd := fd\<rparr>)"
  "init_frame s (s\<lparr>g_gt_server_ip := ip, g_gt_server_port := port\<rparr>)"
  by (auto simp: init_frame_def rows_data_def memory_def intro!: sys_inv_rows [of s])

lemma init_frame_kern:
  "entries_ok (shape k) (gevents s) \<or> shape k = shape (kern s) \<Longrightarrow> k_fault k = k_fault (kern s) \<Longrightarrow> init_frame s (s\<lparr>kern := k\<rparr>)"
  by (auto simp: init_frame_def sys_inv_kern sys_inv_entries)

lemma init_frame_close: "init_frame s (snd (lift_k (sys_close fd) s))"
  by (simp add: init_frame_def lift_k_eq sys_inv_close frame_simps)

lemma init_frame_open: "init_frame s (snd (lift_k sys_open s))"
proof (cases "fault_now (kern s)")
  case None
  obtain a k where al: "alloc_fd (new_file FK_file) (next_call (kern s)) = (a, k)" by fastforce
  have "k_fault k = k_fault (kern s)" using al by (auto simp: alloc_fd_def Let_def)
  with sys_inv_new_fd(1) [OF _ al] None al show ?thesis
    by (auto simp: init_frame_def lift_k_eq sys_open_def syscall_def)
qed (auto simp: lift_k_eq sys_open_def syscall_def sys_fail_def intro!: init_frame_kern)


lemma file_at_cong: "k_fds k' = k_fds k \<Longrightarrow> file_at k' = file_at k"
  by (simp add: file_at_def fun_eq_iff)

lemma file_at_pad:
  assumes "0 \<le> new"
  shows "file_at (k\<lparr>k_fds := (fs @ replicate (Suc (nat new) - length fs) None)[nat new := Some f]\<rparr>) =
    (file_at (k\<lparr>k_fds := fs\<rparr>))(new \<mapsto> f)"
proof (rule ext)
  fix x
  have ne: "nat x \<noteq> nat new" if "0 \<le> x" "x \<noteq> new" using that assms by simp
  consider "x = new" | "x < 0" | "0 \<le> x" "x \<noteq> new" "nat x < length fs" | "0 \<le> x" "x \<noteq> new" "\<not> nat x < length fs" by linarith
  then show "file_at (k\<lparr>k_fds := (fs @ replicate (Suc (nat new) - length fs) None)[nat new := Some f]\<rparr>) x =
    ((file_at (k\<lparr>k_fds := fs\<rparr>))(new \<mapsto> f)) x"
  proof cases
    case 3
    with ne have "nat x \<noteq> nat new" by blast
    with 3 show ?thesis by (simp add: file_at_def nth_append)
  next
    case 4
    with ne have "nat x \<noteq> nat new" by blast
    have "file_at (k\<lparr>k_fds := (fs @ replicate (Suc (nat new) - length fs) None)[nat new := Some f]\<rparr>) x = None"
    proof (cases "nat x < length fs + (Suc (nat new) - length fs)")
      case True
      then have "replicate (Suc (nat new) - length fs) (None :: ofile option) ! (nat x - length fs) = None"
        using 4(3) by (intro nth_replicate) linarith
      with 4 True \<open>nat x \<noteq> nat new\<close> show ?thesis by (simp add: file_at_def nth_append)
    qed (simp add: file_at_def)
    with 4 show ?thesis by (simp add: file_at_def)
  qed (use assms in \<open>simp_all add: file_at_def\<close>)
qed

lemma dup2_file_at:
  assumes "fault_now k = None" "file_at k old = Some f" "0 \<le> new" "new \<noteq> old"
  shows "file_at (snd (sys_dup2 old new k)) = (file_at (snd (sys_close new k)))(new \<mapsto> f\<lparr>f_fdflags := 0\<rparr>)"
    "fst (sys_dup2 old new k) = new" "k_fault (snd (sys_dup2 old new k)) = k_fault k"
proof -
  have c: "file_at ((next_call k)\<lparr>k_fds := k_fds (snd (sys_close new (next_call k)))\<rparr>) = file_at (snd (sys_close new k))"
    by (rule file_at_cong, cases "file_at k new") (simp_all add: sys_close_def sys_fail_def)
  have e: "sys_dup2 old new k = (let k1 = snd (sys_close new (next_call k));
      fs = k_fds k1 @ replicate (Suc (nat new) - length (k_fds k1)) None
      in (new, (next_call k)\<lparr>k_fds := fs[nat new := Some (f\<lparr>f_fdflags := 0\<rparr>)]\<rparr>))"
    using assms by (simp add: sys_dup2_def syscall_ok)
  show "file_at (snd (sys_dup2 old new k)) = (file_at (snd (sys_close new k)))(new \<mapsto> f\<lparr>f_fdflags := 0\<rparr>)"
    unfolding e using file_at_pad [OF assms(3), where k = "next_call k" and fs = "k_fds (snd (sys_close new (next_call k)))" and f = "f\<lparr>f_fdflags := 0\<rparr>"] c
    by (simp add: Let_def)
  show "fst (sys_dup2 old new k) = new" "k_fault (snd (sys_dup2 old new k)) = k_fault k"
    unfolding e by (simp_all add: Let_def)
qed

lemma init_frame_dup2:
  assumes "\<And>f. file_at (kern s) old = Some f \<Longrightarrow> f_interest f = Map.empty"
  shows "init_frame s (snd (lift_k (sys_dup2 old new) s))"
proof (cases "fault_now (kern s) = None \<and> file_at (kern s) old \<noteq> None \<and> 0 \<le> new \<and> new \<noteq> old")
  case True
  then obtain f where f: "file_at (kern s) old = Some f" by auto
  let ?k = "snd (sys_dup2 old new (kern s))" and ?k1 = "snd (sys_close new (kern s))"
  note d = dup2_file_at [OF _ f, of new]
  have none: "file_at ?k1 new = None"
    by (cases "file_at (kern s) new") (simp_all add: file_at_sys_close)
  have sh: "shape ?k = (shape ?k1)(new \<mapsto> (f_kind f, Map.empty))"
    using d(1) True assms [OF f] by (simp add: shape_def fun_eq_iff)
  have "sys_inv s \<longrightarrow> sys_inv (s\<lparr>kern := ?k\<rparr>)"
  proof
    assume inv: "sys_inv s"
    then have "entries_ok (shape ?k1) (gevents s)" using sys_invD(2) [OF sys_inv_close [OF inv, of new]] by simp
    then have "entries_ok (shape ?k) (gevents s)" unfolding sh using none by (intro entries_alloc) (simp_all add: shape_def)
    with inv show "sys_inv (s\<lparr>kern := ?k\<rparr>)" by (rule sys_inv_entries)
  qed
  with d(3) True show ?thesis by (simp add: init_frame_def lift_k_eq)
next
  case False
  have "shape (snd (sys_dup2 old new (kern s))) = shape (kern s) \<and> k_fault (snd (sys_dup2 old new (kern s))) = k_fault (kern s)"
    using False by (auto simp: sys_dup2_def syscall_def sys_fail_def Let_def split: option.splits)
  then show ?thesis by (auto simp: lift_k_eq intro: init_frame_kern)
qed

lemma init_frame_socketpair: "init_frame s (s\<lparr>kern := snd (snd (sys_socketpair (kern s)))\<rparr>)"
proof (cases "fault_now (kern s)")
  case None
  obtain r fds k where sp: "sys_socketpair (kern s) = (r, fds, k)" by (cases "sys_socketpair (kern s)") auto
  from socketpair_ok [OF None sp] obtain a b where
    ab: "a \<noteq> b" "file_at (kern s) a = None" "file_at (kern s) b = None"
      "file_at k = (file_at (kern s))(a \<mapsto> new_file (FK_pair b), b \<mapsto> new_file (FK_pair a))" .
  then have sh: "shape k = (shape (kern s))(a \<mapsto> (FK_pair b, Map.empty), b \<mapsto> (FK_pair a, Map.empty))"
    by (simp add: shape_def fun_eq_iff new_file_def)
  have f: "k_fault k = k_fault (kern s)"
    using sp None by (auto simp: sys_socketpair_def alloc_fd_def Let_def put_file_def)
  have "sys_inv (s\<lparr>kern := k\<rparr>)" if inv: "sys_inv s"
  proof -
    have "entries_ok (shape k) (gevents s)" unfolding sh
      by (intro entries_alloc sys_invD(2) [OF inv]) (use ab in \<open>simp_all add: shape_def\<close>)
    with inv show ?thesis by (rule sys_inv_entries)
  qed
  with sp f show ?thesis by (simp add: init_frame_def)
qed (auto simp: sys_socketpair_def intro!: init_frame_kern)

lemma plans_fd [frame_simps]:
  "k_fault (snd (sys_fcntl_getfd fd k)) = k_fault k" "k_fault (snd (sys_fcntl_setfd fd fl k)) = k_fault k"
  by (auto simp: sys_fcntl_getfd_def sys_fcntl_setfd_def syscall_def sys_fail_def split: option.splits)

lemma init_frame_fcntl:
  "init_frame s (snd (lift_k (sys_fcntl_getfl fd) s))" "init_frame s (snd (lift_k (sys_fcntl_setfl fd fl) s))"
  "init_frame s (snd (lift_k (sys_fcntl_getfd fd) s))" "init_frame s (snd (lift_k (sys_fcntl_setfd fd fl) s))"
  by (auto simp: lift_k_eq frame_simps intro!: init_frame_kern)

lemma init_frame_sig:
  "init_frame s (snd (lift_k (sys_sigaction sig h) s))" "init_frame s (snd (lift_k (sys_sigblock sigs) s))"
  by (auto simp: lift_k_eq sys_sigaction_def sys_sigblock_def syscall_def sys_fail_def split: option.splits
      intro!: init_frame_kern)

text \<open>Steps of the initialisation composed one after the other.\<close>

lemmas init_frame_steps = init_frame_log init_frame_fcntl init_frame_sig init_frame_close init_frame_open
  init_frame_socketpair init_frame_globals

lemma init_frame_then: "init_frame s t \<Longrightarrow> (\<And>u. init_frame u (f u)) \<Longrightarrow> init_frame s (f t)"
  using init_frame_trans by blast

lemma init_frame_nonblock: "init_frame s (snd (gt_set_nonblock fd s))" "init_frame s (snd (gt_set_cloexec fd s))"
proof -
  have "init_frame s (snd (lift_k (sys_fcntl_setfl fd fl) (snd (lift_k (sys_fcntl_getfl fd) s))))"
    "init_frame s (snd (lift_k (sys_fcntl_setfd fd fl) (snd (lift_k (sys_fcntl_getfd fd) s))))" for fl
    by (rule init_frame_trans, rule init_frame_fcntl, rule init_frame_fcntl)+
  then show "init_frame s (snd (gt_set_nonblock fd s))" "init_frame s (snd (gt_set_cloexec fd s))"
    by (auto simp: gt_set_nonblock_def gt_set_cloexec_def Let_def case_prod_unfold intro: init_frame_trans [OF _ init_frame_log(1)])
qed

lemma init_frame_pipe: "init_frame s (snd (snd (gt_create_pipefd p s)))"
  using init_frame_socketpair [of s] init_frame_trans [OF init_frame_socketpair [of s] init_frame_log(1)]
  by (simp add: gt_create_pipefd_def Let_def case_prod_unfold)

lemma init_frame_signal_pipe: "init_frame s (snd (gt_signal_create_pipefd s))"
proof -
  define t1 where "t1 = (snd (snd (gt_create_pipefd (g_signal_pipefd s) s)))\<lparr>g_signal_pipefd := fst (snd (gt_create_pipefd (g_signal_pipefd s) s))\<rparr>"
  have 1: "init_frame s t1" unfolding t1_def by (rule init_frame_trans [OF init_frame_pipe init_frame_globals(2)])
  define t2 where "t2 = snd (gt_set_nonblock (snd (g_signal_pipefd t1)) t1)"
  have 2: "init_frame s t2" unfolding t2_def by (rule init_frame_trans [OF 1 init_frame_nonblock(1)])
  define t3 where "t3 = snd (gt_set_cloexec (snd (g_signal_pipefd t2)) t2)"
  have 3: "init_frame s t3" unfolding t3_def by (rule init_frame_trans [OF 2 init_frame_nonblock(2)])
  have cl: "init_frame s (snd (lift_k (sys_close b) (snd (lift_k (sys_close a) (GT_ERROR_LOG md fmt l t)))))"
    if "init_frame s t" for a b md fmt l t
    using that init_frame_trans init_frame_log(1) init_frame_close by meson
  have lg: "init_frame s (GT_ERROR_LOG md fmt l t1)" for md fmt l by (rule init_frame_trans [OF 1 init_frame_log(1)])
  show ?thesis
    using lg cl [OF 2] cl [OF 3] 3
    by (simp add: gt_signal_create_pipefd_def Let_def case_prod_unfold t1_def [symmetric] t2_def [symmetric] t3_def [symmetric])
qed

lemma init_frame_handlers: "init_frame s (snd (register_handlers msg sigs s))"
proof (induction sigs arbitrary: s)
  case (Cons sg sigs)
  let ?t = "snd (gt_add_signal_handler (sig_num sg) SIG_HANDLER
              (GT_INFO_LOG GT_MOD_CORE ''Set handle to user sig:%d'' [AInt (sig_num sg)] s))"
  have "init_frame u (snd (gt_add_signal_handler n h u))" for n h u
    using init_frame_sig(1) [of u n h] init_frame_trans [OF init_frame_sig(1) [of u n h] init_frame_log(1)]
    by (simp add: gt_add_signal_handler_def Let_def case_prod_unfold)
  then have t: "init_frame s ?t" using init_frame_trans init_frame_log(2) by blast
  show ?case
    using init_frame_trans [OF t Cons.IH] init_frame_trans [OF t init_frame_log(1)]
    by (simp add: Let_def case_prod_unfold)
qed simp

lemma init_frame_ignore: "init_frame s (snd (gt_signal_register_ignore s))"
  using init_frame_sig(2) [of s] init_frame_trans [OF init_frame_sig(2) [of s] init_frame_log(1)]
  by (simp add: gt_signal_register_ignore_def collect_all Let_def case_prod_unfold)

lemma init_frame_register:
  assumes "gt_phase_register cm ph fn s = Some (r, s')"
  shows "init_frame s s'"
  using assms init_frame_log(1) init_frame_globals(1)
  by (auto simp: gt_phase_register_def bind_eq_Some_conv split: if_splits)

lemma log_init_frame:
  assumes "gt_log_init s = (r, s')"
  shows "init_frame s s'" "g_gt_phase s' = g_gt_phase s" "r = GT_OK \<or> r = GT_ERROR"
proof -
  let ?t = "(snd (lift_k sys_open s))\<lparr>g_gt_log_fd := fst (lift_k sys_open s)\<rparr>"
  have t: "init_frame s ?t" by (rule init_frame_trans [OF init_frame_open init_frame_globals(3)])
  have std: "init_frame u (GT_STD_ERROR_LOG md fmt a u)" for md fmt a u
    by (auto simp: GT_STD_ERROR_LOG_def frame_simps intro!: init_frame_kern)
  have "s' = ?t \<or> (\<exists>md fmt a. s' = GT_STD_ERROR_LOG md fmt a ?t)"
    using assms by (auto simp: gt_log_init_def Let_def case_prod_unfold split: if_splits)
  then show "init_frame s s'" using t init_frame_trans [OF t std] by auto
  show "g_gt_phase s' = g_gt_phase s" "r = GT_OK \<or> r = GT_ERROR"
    using assms by (auto simp: gt_log_init_def Let_def case_prod_unfold lift_k_eq GT_STD_ERROR_LOG_def split: if_splits)
qed

lemma signals_init_frame: "gt_signals_init s = Some (r, s') \<Longrightarrow> init_frame s s'"
proof -
  assume a: "gt_signals_init s = Some (r, s')"
  let ?s4 = "snd (gt_signal_register_ignore (snd (gt_signal_register_core (snd (gt_signal_register_custom
      (snd (gt_signal_create_pipefd s)))))))"
  from a obtain q where "gt_phase_register GT_CMOD_SIGNAL GT_PHASE_1 (Some FN_signal_phase1_func) ?s4 = Some (q, s')"
    by (auto simp: gt_signals_init_def gt_signal_handle_phase_def Let_def case_prod_unfold bind_eq_Some_conv split: if_splits)
  from init_frame_register [OF this] show "init_frame s s'"
    unfolding gt_signal_register_core_def gt_signal_register_custom_def
    by (meson init_frame_trans init_frame_ignore init_frame_handlers init_frame_signal_pipe)
qed

lemma core_init_frame: "gt_core_init s = Some (r, s') \<Longrightarrow> init_frame s s'"
  by (auto simp: gt_core_init_def bind_eq_Some_conv split: if_splits dest: init_frame_register)

lemma network_init_frame: "gt_network_init s = Some (r, s') \<Longrightarrow> init_frame s s'"
  by (auto simp: gt_network_init_def bind_eq_Some_conv split: if_splits
      dest!: init_frame_register intro: init_frame_trans)

subsection \<open>The phase table after the initialisation\<close>

definition has_table :: "gt_state \<Rightarrow> (gt_phase \<times> gt_cmod \<rightharpoonup> phase_fn) \<Rightarrow> bool" where
  "has_table s M \<longleftrightarrow> phase_table_ok s \<and>
     (\<forall>ph cm. ph \<noteq> GT_PHASE_MAX \<longrightarrow> cm \<noteq> GT_CMOD_MAX \<longrightarrow> registered s ph cm = M (ph, cm))"

lemma has_table_frame: "g_gt_phase s' = g_gt_phase s \<Longrightarrow> has_table s' M = has_table s M"
  using phase_table_frame [of s' s] registered_frame [of s' s] by (simp add: has_table_def)

lemma has_table_register:
  assumes tab: "has_table s M" and free: "M (ph, cm) = None" and ph: "ph \<noteq> GT_PHASE_MAX" and cm: "cm \<noteq> GT_CMOD_MAX"
  obtains s' where "gt_phase_register cm ph (Some fn) s = Some (GT_OK, s')" "has_table s' (M((ph, cm) \<mapsto> fn))"
proof -
  have ok: "phase_table_ok s" and "registered s ph cm = None" using tab free ph cm by (simp_all add: has_table_def)
  let ?s' = "s\<lparr>g_gt_phase := (g_gt_phase s)[phase_idx ph := (g_gt_phase s ! phase_idx ph)
             \<lparr>pi_fn := (pi_fn (g_gt_phase s ! phase_idx ph))[cmod_idx cm := Some fn]\<rparr>]\<rparr>"
  have "gt_phase_register cm ph (Some fn) s = Some (GT_OK, ?s')"
    using phase_register_eval [OF ok ph cm] \<open>registered s ph cm = None\<close> by simp
  moreover have "has_table ?s' (M((ph, cm) \<mapsto> fn))"
    unfolding has_table_def
  proof (intro conjI allI impI)
    show "phase_table_ok ?s'" by (rule registered_update(1) [OF ok ph cm refl])
    fix ph' cm' assume v: "ph' \<noteq> GT_PHASE_MAX" "cm' \<noteq> GT_CMOD_MAX"
    from registered_update(2) [OF ok ph cm refl v] tab v
    show "registered ?s' ph' cm' = (M((ph, cm) \<mapsto> fn)) (ph', cm')" by (auto simp: has_table_def)
  qed
  ultimately show ?thesis by (rule that)
qed

lemma signals_init_table:
  assumes "has_table s Map.empty"
  obtains s' where "gt_signals_init s = Some (GT_OK, s')" "has_table s' [(GT_PHASE_1, GT_CMOD_SIGNAL) \<mapsto> FN_signal_phase1_func]"
proof -
  let ?s4 = "snd (gt_signal_register_ignore (snd (gt_signal_register_core (snd (gt_signal_register_custom
      (snd (gt_signal_create_pipefd s)))))))"
  have "g_gt_phase ?s4 = g_gt_phase s"
    using same_handlers_pipe [of s, unfolded same_handlers_def]
    by (simp add: register_ignore_effect gt_signal_register_core_def gt_signal_register_custom_def register_handlers_effect)
  then have "has_table ?s4 Map.empty" using assms has_table_frame by blast
  from has_table_register [OF this, of GT_PHASE_1 GT_CMOD_SIGNAL FN_signal_phase1_func] obtain s' where
    "gt_phase_register GT_CMOD_SIGNAL GT_PHASE_1 (Some FN_signal_phase1_func) ?s4 = Some (GT_OK, s')"
    "has_table s' [(GT_PHASE_1, GT_CMOD_SIGNAL) \<mapsto> FN_signal_phase1_func]" by auto
  with that show ?thesis
    by (simp add: gt_signals_init_def gt_signal_handle_phase_def Let_def case_prod_unfold)
qed

text \<open>The functions the initialisation registers.\<close>

definition startup_table :: "gt_phase \<times> gt_cmod \<rightharpoonup> phase_fn" where
  "startup_table = [(GT_PHASE_1, GT_CMOD_SIGNAL) \<mapsto> FN_signal_phase1_func, (GT_PHASE_0, GT_CMOD_CORE) \<mapsto> FN_core_phase0_func,
     (GT_PHASE_1, GT_CMOD_NETWORK) \<mapsto> FN_network_phase1_func, (GT_PHASE_2, GT_CMOD_NETWORK) \<mapsto> FN_network_phase2_func]"

definition startup_order :: "(gt_phase \<times> gt_cmod \<times> phase_fn) list" where
  "startup_order = [(GT_PHASE_0, GT_CMOD_CORE, FN_core_phase0_func), (GT_PHASE_1, GT_CMOD_SIGNAL, FN_signal_phase1_func),
     (GT_PHASE_1, GT_CMOD_NETWORK, FN_network_phase1_func), (GT_PHASE_2, GT_CMOD_NETWORK, FN_network_phase2_func)]"

lemma startup_schedule: "has_table s startup_table \<Longrightarrow> schedule s = startup_order"
  by (simp add: has_table_def startup_table_def startup_order_def schedule_def phases_def cmods_def)

lemma registration_table:
  assumes "has_table s [(GT_PHASE_1, GT_CMOD_SIGNAL) \<mapsto> FN_signal_phase1_func]"
  obtains s1 s2 where "gt_core_init s = Some (GT_OK, s1)" "gt_network_init s1 = Some (GT_OK, s2)" "has_table s2 startup_table"
proof -
  obtain s1 where s1: "gt_phase_register GT_CMOD_CORE GT_PHASE_0 (Some FN_core_phase0_func) s = Some (GT_OK, s1)"
    "has_table s1 ([(GT_PHASE_1, GT_CMOD_SIGNAL) \<mapsto> FN_signal_phase1_func, (GT_PHASE_0, GT_CMOD_CORE) \<mapsto> FN_core_phase0_func])"
    by (rule has_table_register [OF assms, of GT_PHASE_0 GT_CMOD_CORE FN_core_phase0_func]) simp_all
  obtain s2 where s2: "gt_phase_register GT_CMOD_NETWORK GT_PHASE_1 (Some FN_network_phase1_func) s1 = Some (GT_OK, s2)"
    "has_table s2 ([(GT_PHASE_1, GT_CMOD_SIGNAL) \<mapsto> FN_signal_phase1_func, (GT_PHASE_0, GT_CMOD_CORE) \<mapsto> FN_core_phase0_func,
       (GT_PHASE_1, GT_CMOD_NETWORK) \<mapsto> FN_network_phase1_func])"
    by (rule has_table_register [OF s1(2), of GT_PHASE_1 GT_CMOD_NETWORK FN_network_phase1_func]) simp_all
  obtain s3 where s3: "gt_phase_register GT_CMOD_NETWORK GT_PHASE_2 (Some FN_network_phase2_func) s2 = Some (GT_OK, s3)"
    "has_table s3 startup_table" unfolding startup_table_def
    by (rule has_table_register [OF s2(2), of GT_PHASE_2 GT_CMOD_NETWORK FN_network_phase2_func]) simp_all
  show ?thesis
    by (rule that [of s1 s3]) (use s1 s2 s3 in \<open>simp_all add: gt_core_init_def gt_network_init_def\<close>)
qed

subsection \<open>The start-up sequence\<close>

interpretation pw: phase_system phase_call world_inv
proof
  show "\<exists>r s'. phase_call fn s = Some (r, s') \<and> world_inv s'" if "world_inv s" for s fn
  proof -
    have "sys_inv s" using that by (simp add: world_inv_def sys_ok_def)
    then obtain r s' where "phase_call fn s = Some (r, s')" using phase_call_ok [of s fn] by (auto simp: keeps_sys_def)
    with world_step_inv [OF world_step.phase that] show ?thesis by blast
  qed
  show "world_inv (GT_INFO_LOG md fmt a s) \<and> world_inv (GT_ERROR_LOG md fmt a s)" if "world_inv s" for md fmt a s
    using init_frame_world [OF _ that] init_frame_log by blast
qed

lemma phase_call_threads:
  assumes "phase_call fn s = Some (r, s')" "fn \<noteq> FN_network_phase2_func"
  shows "threads s' = threads s"
proof -
  from assms have "statics s' = statics s"
    by (cases fn) (auto simp: phase_call_def intro: statics_core_phase0 statics_signal_phase1 statics_network_phase1)
  then show ?thesis using statics_threads by blast
qed

lemma phase2_threads:
  assumes "phase_call FN_network_phase2_func s = Some (GT_OK, s')"
  shows "map fst (threads s') = map fst (threads s) @ map DatanetRow [0..<GT_DATANET_PTHREAD_NUM]"
proof -
  obtain r1 s1 where s1: "create_rows DatanetRow [0..<GT_DATANET_PTHREAD_NUM] s = (r1, s1)" by fastforce
  with assms have "r1 = GT_OK" "s' = s1"
    by (auto simp: phase_call_def gt_network_phase2_func_def gt_create_datanet_pthread_def split: if_splits)
  with create_rows_spec [OF s1] show ?thesis by (auto simp: comp_def)
qed

lemma run_schedule_step:
  assumes "run_schedule call ((ph, cm, fn) # l) s = Some (GT_OK, s')"
  obtains t where "call fn (GT_INFO_LOG GT_MOD_CORE ''Sys-init phase[%d] cmod[%d]''
      [AInt (int (phase_idx ph)), AInt (int (cmod_idx cm))] s) = Some (GT_OK, t)" "run_schedule call l t = Some (GT_OK, s')"
  using assms by (auto simp: Let_def bind_eq_Some_conv split: if_splits)

lemma startup_threads:
  assumes "run_schedule phase_call startup_order s = Some (GT_OK, s')"
  shows "map fst (threads s') = map fst (threads s) @ map DatanetRow [0..<GT_DATANET_PTHREAD_NUM]"
proof -
  have L: "threads (GT_INFO_LOG md fmt a u) = threads u" for md fmt a and u :: gt_state
    using statics_threads [OF statics_frame(6)] by blast
  from assms [unfolded startup_order_def] show ?thesis
  proof (elim run_schedule_step)
    fix t1 t2 t3 t4
    assume "run_schedule phase_call [] t4 = Some (GT_OK, s')"
    then have e: "s' = t4" by simp
    assume "phase_call FN_core_phase0_func (GT_INFO_LOG GT_MOD_CORE ''Sys-init phase[%d] cmod[%d]''
        [AInt (int (phase_idx GT_PHASE_0)), AInt (int (cmod_idx GT_CMOD_CORE))] s) = Some (GT_OK, t1)"
    from phase_call_threads [OF this] have 1: "threads t1 = threads s" by (simp add: L)
    assume "phase_call FN_signal_phase1_func (GT_INFO_LOG GT_MOD_CORE ''Sys-init phase[%d] cmod[%d]''
        [AInt (int (phase_idx GT_PHASE_1)), AInt (int (cmod_idx GT_CMOD_SIGNAL))] t1) = Some (GT_OK, t2)"
    from phase_call_threads [OF this] have 2: "threads t2 = threads t1" by (simp add: L)
    assume "phase_call FN_network_phase1_func (GT_INFO_LOG GT_MOD_CORE ''Sys-init phase[%d] cmod[%d]''
        [AInt (int (phase_idx GT_PHASE_1)), AInt (int (cmod_idx GT_CMOD_NETWORK))] t2) = Some (GT_OK, t3)"
    from phase_call_threads [OF this] have 3: "threads t3 = threads t2" by (simp add: L)
    assume "phase_call FN_network_phase2_func (GT_INFO_LOG GT_MOD_CORE ''Sys-init phase[%d] cmod[%d]''
        [AInt (int (phase_idx GT_PHASE_2)), AInt (int (cmod_idx GT_CMOD_NETWORK))] t3) = Some (GT_OK, t4)"
    from phase2_threads [OF this] 1 2 3 e show ?thesis by (simp add: L)
  qed
qed

text \<open>What is left of the initialisation once every function is registered.\<close>

definition init_rest :: "(gt_state \<Rightarrow> gt_state) \<Rightarrow> gt_state \<Rightarrow> (int \<times> gt_state) option" where
  "init_rest others s5 = do {
     (ret, s) \<leftarrow> gt_phase_run phase_call s5;
     if ret \<noteq> GT_OK then Some (ret, GT_ERROR_LOG GT_MOD_CORE ''Failed to run phase!'' [] s)
     else let s = others s; (ret, s) = gt_wakeup_pthread s in
       if ret \<noteq> GT_OK then Some (ret, GT_ERROR_LOG GT_MOD_CORE ''Failed to wakeup pthread!'' [] s) else Some (GT_OK, s) }"

lemma init_system_registers [consumes 3, case_names early created]:
  assumes inv: "world_inv s" and tab: "has_table s Map.empty" and none: "threads s = []"
  obtains (early) r s' where "gt_init_system others s = Some (r, s')" "r \<noteq> GT_OK" "world_inv s'"
  | (created) s5 where "gt_init_system others s = init_rest others s5" "world_inv s5" "has_table s5 startup_table"
      "map fst (threads s5) = map BusinessRow [0..<5]"
proof -
  have E: "world_inv (GT_ERROR_LOG md fmt a t)" if "world_inv t" for md fmt a t using pw.log_inv [OF that] by blast
  obtain r1 s1 where s1: "gt_log_init s = (r1, s1)" by fastforce
  note l = log_init_frame [OF s1]
  show thesis
  proof (cases "r1 = GT_OK")
    case False
    with s1 E [OF init_frame_world [OF l(1) inv]] show ?thesis by (intro early) (simp_all add: gt_init_system_def)
  next
    case ok1: True
    have "has_table s1 Map.empty" using tab has_table_frame [OF l(2)] by blast
    then obtain s2 where s2: "gt_signals_init s1 = Some (GT_OK, s2)"
      "has_table s2 [(GT_PHASE_1, GT_CMOD_SIGNAL) \<mapsto> FN_signal_phase1_func]" by (rule signals_init_table)
    obtain s3 s4 where s34: "gt_core_init s2 = Some (GT_OK, s3)" "gt_network_init s3 = Some (GT_OK, s4)"
      "has_table s4 startup_table" by (rule registration_table [OF s2(2)])
    note F = signals_init_frame [OF s2(1)] core_init_frame [OF s34(1)] network_init_frame [OF s34(2)]
    have fr: "init_frame s s4" using l(1) F init_frame_trans by blast
    obtain r5 s5 where s5: "gt_create_pthread s4 = (r5, s5)" by fastforce
    note c = create_pthread_frame [OF s5]
    have w5: "world_inv s5" by (rule world_step_inv [OF world_step.create [OF s5] init_frame_world [OF fr inv]])
    have pre: "gt_init_system others s = (if r5 \<noteq> GT_OK
        then Some (r5, GT_ERROR_LOG GT_MOD_CORE ''Failed to create pthread!'' [] s5) else init_rest others s5)"
      using s1 ok1 s2(1) s34(1,2) s5 by (simp add: gt_init_system_def init_rest_def)
    show ?thesis
    proof (cases "r5 = GT_OK")
      case False
      with pre E [OF w5] show ?thesis by (intro early) simp_all
    next
      case True
      moreover have "map fst (threads s5) = map BusinessRow [0..<5]"
        using c True fr none by (auto simp: init_frame_def comp_def GT_BUSINESS_PTHREAD_NUM_def)
      moreover have "has_table s5 startup_table" using s34(3) has_table_frame [of s5 s4] c by blast
      ultimately show ?thesis using pre w5 by (intro created) simp_all
    qed
  qed
qed

lemma init_rest_spec:
  assumes w5: "world_inv s5" and tab5: "has_table s5 startup_table"
    and t5: "map fst (threads s5) = map BusinessRow [0..<5]"
    and rely: "\<And>t. world_inv t \<Longrightarrow> world_inv (others t)"
  obtains r s' where "init_rest others s5 = Some (r, s')" "world_inv s'"
    "r = GT_OK \<Longrightarrow> \<exists>s1. run_schedule phase_call startup_order s5 = Some (GT_OK, s1) \<and>
       map fst (threads s1) = map BusinessRow [0..<5] @ map DatanetRow [0..<4] \<and>
       gt_wakeup_pthread (others s1) = (GT_OK, s')"
proof -
  have E: "world_inv (GT_ERROR_LOG md fmt a t)" if "world_inv t" for md fmt a t using pw.log_inv [OF that] by blast
  have run: "gt_phase_run phase_call s5 = run_schedule phase_call startup_order s5"
    using ps.phase_run [of s5] startup_schedule [OF tab5] tab5 by (simp add: has_table_def)
  obtain r6 s6 where s6: "gt_phase_run phase_call s5 = Some (r6, s6)" "world_inv s6"
    using pw.phase_run_returns [of s5] w5 tab5 by (auto simp: has_table_def)
  obtain r7 s7 where s7: "gt_wakeup_pthread (others s6) = (r7, s7)" by fastforce
  have w7: "world_inv s7" by (rule world_step_inv [OF world_step.wakeup [OF s7] rely [OF s6(2)]])
  consider "r6 \<noteq> GT_OK" | "r6 = GT_OK" "r7 \<noteq> GT_OK" | "r6 = GT_OK" "r7 = GT_OK" by blast
  then show thesis
  proof cases
    case 1
    then have "init_rest others s5 = Some (r6, GT_ERROR_LOG GT_MOD_CORE ''Failed to run phase!'' [] s6)"
      using s6 by (simp add: init_rest_def)
    from that [OF this E [OF s6(2)]] 1 show ?thesis by simp
  next
    case 2
    then have "init_rest others s5 = Some (r7, GT_ERROR_LOG GT_MOD_CORE ''Failed to wakeup pthread!'' [] s7)"
      using s6 s7 by (simp add: init_rest_def)
    from that [OF this E [OF w7]] 2 show ?thesis by simp
  next
    case 3
    moreover have "map fst (threads s6) = map BusinessRow [0..<5] @ map DatanetRow [0..<4]"
      using startup_threads [of s5 s6] run s6(1) 3 t5 by (simp add: GT_DATANET_PTHREAD_NUM_def)
    ultimately show ?thesis using s6 s7 w7 run by (intro that [of GT_OK s7]) (simp_all add: init_rest_def)
  qed
qed

lemma init_system_safe:
  assumes "world_inv s" "has_table s Map.empty" "threads s = []"
    and rely: "\<And>t. world_inv t \<Longrightarrow> world_inv (others t)"
  obtains r s' where "gt_init_system others s = Some (r, s')" "world_inv s'"
  using assms(1-3)
proof (cases rule: init_system_registers [where others = others])
  case (created s5)
  obtain r s' where "init_rest others s5 = Some (r, s')" "world_inv s'"
    by (rule init_rest_spec [OF created(2-4) rely]) (assumption, rule that)
  with created(1) show ?thesis by (intro that) simp_all
qed (rule that)

text \<open>
  C8: the initialisation always comes back, whatever transient failures occur and whatever the
  other threads do during the sleep, and leaves a state in which every step of the running system
  is safe. When it reports success, the four start-up functions have run in the order core, signal,
  listening socket, data-network threads, after the five business threads and before the four
  data-network threads were created, and the broadcast has come last.
\<close>

theorem init_system_boots:
  assumes inv: "world_inv s" and tab: "has_table s Map.empty" and none: "threads s = []"
    and rely: "\<And>t. world_inv t \<Longrightarrow> world_inv (others t)"
  shows "\<exists>r s'. gt_init_system others s = Some (r, s') \<and> world_inv s' \<and>
    (r = GT_OK \<longrightarrow> (\<exists>sp s1. schedule sp = startup_order \<and> map fst (threads sp) = map BusinessRow [0..<5] \<and>
       run_schedule phase_call startup_order sp = Some (GT_OK, s1) \<and>
       map fst (threads s1) = map BusinessRow [0..<5] @ map DatanetRow [0..<4] \<and>
       gt_wakeup_pthread (others s1) = (GT_OK, s')))"
  using inv tab none
proof (cases rule: init_system_registers [where others = others])
  case (created s5)
  obtain r s' where "init_rest others s5 = Some (r, s')" "world_inv s'"
    "r = GT_OK \<Longrightarrow> \<exists>s1. run_schedule phase_call startup_order s5 = Some (GT_OK, s1) \<and>
       map fst (threads s1) = map BusinessRow [0..<5] @ map DatanetRow [0..<4] \<and>
       gt_wakeup_pthread (others s1) = (GT_OK, s')"
    by (rule init_rest_spec [OF created(2-4) rely]) (assumption, rule that)
  note rest = this
  show ?thesis
    by (rule exI [of _ r], rule exI [of _ s'], intro conjI impI)
      (use rest created startup_schedule [OF created(3)] in \<open>simp, simp, blast\<close>)
qed auto

lemma boot_has_table: "has_table (boot_state k) Map.empty"
  unfolding has_table_def
proof (intro conjI allI impI)
  fix ph cm assume "ph \<noteq> GT_PHASE_MAX" "cm \<noteq> GT_CMOD_MAX"
  then show "registered (boot_state k) ph cm = Map.empty (ph, cm)"
    by (cases ph; cases cm) (simp_all add: registered_def boot_state_def phase_row_def)
qed (rule phase_table_ok_boot)

text \<open>Transient failures of the three signal registrations, which the program ignores.\<close>

definition demo_flaky :: "nat \<Rightarrow> int option" where
  "demo_flaky n = (if n = 7 \<or> n = 11 \<or> n = 14 then Some EAGAIN else None)"

definition demo_boot :: gt_state where
  "demo_boot = boot_state (boot_kernel demo_flaky (k_alloc demo_kernel))"

lemma demo_boot_world: "world_inv demo_boot"
  unfolding demo_boot_def by (rule world_inv_boot) (simp add: mild_def boot_kernel_def demo_flaky_def)

theorem init_system_boots_witness:
  "\<exists>r s'. gt_init_system (\<lambda>s. s) demo_boot = Some (r, s') \<and> world_inv s' \<and>
     (r = GT_OK \<longrightarrow> (\<exists>s1. map fst (threads s1) = map BusinessRow [0..<5] @ map DatanetRow [0..<4] \<and>
        gt_wakeup_pthread s1 = (GT_OK, s')))"
proof -
  have "threads demo_boot = []" by (simp add: demo_boot_def boot_state_def)
  moreover have "has_table demo_boot Map.empty" unfolding demo_boot_def by (rule boot_has_table)
  ultimately show ?thesis using init_system_boots [OF demo_boot_world, of "\<lambda>s. s"] by blast
qed

subsection \<open>Daemonisation\<close>

definition plain_at :: "gt_state \<Rightarrow> fd \<Rightarrow> bool" where
  "plain_at s fd \<longleftrightarrow> (\<forall>f. file_at (kern s) fd = Some f \<longrightarrow> f_interest f = Map.empty)"

lemma close_interest:
  "file_at (snd (sys_close fd k)) a = Some g \<Longrightarrow> \<exists>f. file_at k a = Some f \<and> (f_interest f = Map.empty \<longrightarrow> f_interest g = Map.empty)"
  by (cases "file_at k fd")
    (auto simp: file_at_sys_close(2) hang_up_def drop_interest_def split: if_splits)

lemma dup2_plain:
  assumes "plain_at s old"
  shows "plain_at (snd (lift_k (sys_dup2 old new) s)) old"
proof (cases "fault_now (kern s) = None \<and> file_at (kern s) old \<noteq> None \<and> 0 \<le> new \<and> new \<noteq> old")
  case True
  then obtain f where "file_at (kern s) old = Some f" by auto
  with True dup2_file_at(1) [of "kern s" old f new] assms close_interest [of new "kern s" old] show ?thesis
    by (fastforce simp: plain_at_def lift_k_eq)
next
  case False
  then have "file_at (snd (sys_dup2 old new (kern s))) = file_at (kern s)"
    by (auto simp: sys_dup2_def syscall_def sys_fail_def Let_def split: option.splits)
  with assms show ?thesis by (simp add: plain_at_def lift_k_eq)
qed

lemma open_plain: "plain_at (snd (lift_k sys_open s)) (fst (lift_k sys_open s))"
proof (cases "fault_now (kern s)")
  case None
  obtain a k where al: "alloc_fd (new_file FK_file) (next_call (kern s)) = (a, k)" by fastforce
  with alloc_fd_spec(3) [OF al] None show ?thesis
    by (simp add: plain_at_def lift_k_eq sys_open_def syscall_def new_file_def)
qed (simp add: plain_at_def lift_k_eq sys_open_def syscall_def sys_fail_def file_at_def)

lemma daemonize_frame:
  assumes "gt_daemonize_process pid1 pid2 s = Exits r t \<or> gt_daemonize_process pid1 pid2 s = Returns r t"
  shows "init_frame s t \<and> g_gt_phase t = g_gt_phase s"
proof (cases "pid1 = 0 \<and> pid2 = 0")
  case False
  with assms show ?thesis by (auto simp: gt_daemonize_process_def split: if_splits)
next
  case True
  define s3 where "s3 = snd (lift_k (sys_close 2) (snd (lift_k (sys_close 1) (snd (lift_k (sys_close 0) s)))))"
  define fd0 where "fd0 = fst (lift_k sys_open s3)"
  define s4 where "s4 = snd (lift_k sys_open s3)"
  define s5 where "s5 = snd (lift_k (sys_dup2 fd0 1) s4)"
  have t: "t = snd (lift_k (sys_dup2 fd0 2) s5)"
    using assms True by (simp add: gt_daemonize_process_def Let_def case_prod_unfold s3_def fd0_def s4_def s5_def)
  have "init_frame s s3" unfolding s3_def by (meson init_frame_close init_frame_trans)
  then have 4: "init_frame s s4" unfolding s4_def by (meson init_frame_open init_frame_trans)
  have p4: "plain_at s4 fd0" unfolding s4_def fd0_def by (rule open_plain)
  have p5: "plain_at s5 fd0" unfolding s5_def by (rule dup2_plain [OF p4])
  have "init_frame s4 s5" unfolding s5_def by (rule init_frame_dup2) (use p4 in \<open>simp add: plain_at_def\<close>)
  moreover have "init_frame s5 t" unfolding t by (rule init_frame_dup2) (use p5 in \<open>simp add: plain_at_def\<close>)
  moreover have "g_gt_phase t = g_gt_phase s" unfolding t s5_def s4_def s3_def by (simp add: lift_k_eq)
  ultimately show ?thesis using 4 init_frame_trans by blast
qed

lemma close_open: "file_at (snd (sys_close fd k)) a = None \<longleftrightarrow> a = fd \<or> file_at k a = None"
  by (cases "file_at k fd") (auto simp: file_at_sys_close(2))

lemma close_kind: "file_at (snd (sys_close fd k)) a = Some g \<Longrightarrow> \<exists>f. file_at k a = Some f \<and> f_kind g = f_kind f"
  by (cases "file_at k fd") (auto simp: file_at_sys_close(2) hang_up_def drop_interest_def split: if_splits)

lemma dup2_step:
  assumes "no_faults k" "file_at k 0 = Some f" "f_kind f = FK_file" "new = 1 \<or> new = 2"
  shows "no_faults (snd (sys_dup2 0 new k))"
    "file_at (snd (sys_dup2 0 new k)) fd = None \<longleftrightarrow> fd \<noteq> new \<and> file_at k fd = None"
    "file_at (snd (sys_dup2 0 new k)) fd = Some g \<Longrightarrow>
       fd = new \<and> f_kind g = FK_file \<or> (\<exists>f. file_at k fd = Some f \<and> f_kind g = f_kind f)"
proof -
  have "fault_now k = None" using assms(1) by (simp add: no_faults_def fault_now_def)
  note d = dup2_file_at [OF this assms(2), of new]
  show "no_faults (snd (sys_dup2 0 new k))" using d(3) assms by (auto simp: no_faults_def)
  show "file_at (snd (sys_dup2 0 new k)) fd = None \<longleftrightarrow> fd \<noteq> new \<and> file_at k fd = None"
    using d(1) assms(4) close_open [of new k fd] by auto
  show "fd = new \<and> f_kind g = FK_file \<or> (\<exists>f. file_at k fd = Some f \<and> f_kind g = f_kind f)"
    if "file_at (snd (sys_dup2 0 new k)) fd = Some g"
    using that d(1) assms(3,4) close_kind [of new k fd g] by (auto split: if_splits)
qed

text \<open>The lowest free descriptor is the one \<open>open\<close> returns.\<close>

lemma alloc_zero:
  assumes "file_at k 0 = None"
  shows "fst (alloc_fd f k) = 0"
  using assms by (cases "k_fds k") (auto simp: alloc_fd_def Let_def first_free_def file_at_def)



subsection \<open>The whole program\<close>

lemma do_run_safe: "world_inv s \<Longrightarrow> \<exists>s'. gt_do_run rdys s = Some s' \<and> world_inv s'"
proof (induction rdys arbitrary: s)
  case (Cons rdy rdys)
  then have "sys_ok s" by (simp add: world_inv_def)
  then obtain t where t: "gt_poller_epoll_wait ops_call rdy g_gt_core_poller s = Some t" "sys_ok t" "statics t = statics s"
    by (rule round_ok [OF _ network_poller_static(2)]) (rule that)
  from Cons.IH [OF world_statics [OF Cons.prems t(2,3)]] t(1) show ?case by simp
qed simp

lemma parse_frame:
  assumes "argv \<noteq> []"
  obtains r t where "gt_parse_parameters argv s = Some (r, t)" "init_frame s t" "g_gt_phase t = g_gt_phase s" "threads t = threads s"
proof -
  have "\<exists>r t. gt_parse_parameters argv s = Some (r, t) \<and> init_frame s t \<and> g_gt_phase t = g_gt_phase s"
    using assms init_frame_log(1) init_frame_globals(4)
    by (auto simp: gt_parse_parameters_def split: list.splits option.splits)
  with that show ?thesis by (auto simp: init_frame_def)
qed


lemma main_returns:
  assumes inv: "world_inv s" and tab: "has_table s Map.empty" and none: "threads s = []" and "argv \<noteq> []"
    and rely: "\<And>t. world_inv t \<Longrightarrow> world_inv (others t)"
  obtains code t where "gt_main argv pid1 pid2 others rdys s = Some (Exited code t)" "world_inv t"
  | t where "gt_main argv pid1 pid2 others rdys s = Some (Running t)" "world_inv t" "pid1 = 0" "pid2 = 0"
      "fst (the (gt_parse_parameters argv s)) = GT_OK"
proof -
  have E: "world_inv (GT_ERROR_LOG md fmt a t)" if "world_inv t" for md fmt a t using pw.log_inv [OF that] by blast
  obtain r1 s1 where s1: "gt_parse_parameters argv s = Some (r1, s1)" "init_frame s s1" "g_gt_phase s1 = g_gt_phase s"
    "threads s1 = threads s" by (rule parse_frame [OF assms(4)])
  have w1: "world_inv s1" by (rule init_frame_world [OF s1(2) inv])
  note D = gt_main_def s1(1)
  show thesis
  proof (cases "r1 = GT_OK")
    case False
    with E [OF w1] show ?thesis by (intro that(1)) (simp_all add: D)
  next
    case ok1: True
    show ?thesis
    proof (cases "gt_daemonize_process pid1 pid2 s1")
      case (Exits code t)
      then have "world_inv t" using daemonize_frame [of pid1 pid2 s1 code t] init_frame_world [OF _ w1] by blast
      with Exits ok1 show ?thesis by (intro that(1)) (simp_all add: D)
    next
      case (Returns r2 s2)
      with daemonize_frame [of pid1 pid2 s1 r2 s2] have f2: "init_frame s1 s2" "g_gt_phase s2 = g_gt_phase s1" by auto
      have w2: "world_inv s2" by (rule init_frame_world [OF f2(1) w1])
      show ?thesis
      proof (cases "r2 = GT_OK")
        case False
        with Returns ok1 E [OF w2] show ?thesis by (intro that(1)) (simp_all add: D)
      next
        case ok2: True
        have z: "pid1 = 0" "pid2 = 0" using Returns ok2
          by (auto simp: gt_daemonize_process_def GT_OK_def GT_ERROR_def split: if_splits)
        have "has_table s2 Map.empty" using tab has_table_frame [of s2 s] f2(2) s1(3) by simp
        moreover have "threads s2 = []" using f2(1) s1(4) none by (simp add: init_frame_def)
        ultimately obtain r3 s3 where s3: "gt_init_system others s2 = Some (r3, s3)" "world_inv s3"
          by (rule init_system_safe [OF w2, where others = others]) (use rely in blast)+
        obtain s4 where s4: "gt_do_run rdys s3 = Some s4" "world_inv s4" using do_run_safe [OF s3(2)] by blast
        show ?thesis
        proof (cases "r3 = GT_OK")
          case True
          with Returns ok1 ok2 s3 s4 z show ?thesis by (intro that(2) [of s4]) (simp_all add: D)
        next
          case False
          with Returns ok1 ok2 s3 E [OF s3(2)] show ?thesis
            by (intro that(1) [of r3 "GT_ERROR_LOG GT_MOD_CORE ''Failed to init process!'' [] s3"]) (simp_all add: D)
        qed
      qed
    qed
  qed
qed

lemma cstring_length: "length (cstring bs) \<le> length bs"
  by (simp add: cstring_def length_takeWhile_le)

end
