(* ===== verification/GT_Race.thy ===== *)
theory GT_Race
  imports GT_System
begin

text \<open>
  Handing connections from the accepting thread to the data threads, at the level of single
  accesses to what they share. In \<open>GT_Threads\<close> a round of a poller is one step; here the code
  between two accesses to shared memory or the kernel is one step. The accepting thread runs
  \<open>gt_network_ops_read\<close> and \<open>gt_network_round_dispatch\<close> (\<open>user/core/gt_network.c\<close>), a data
  thread runs \<open>gt_poller_init\<close>, \<open>gt_poller_epoll_wait\<close> (\<open>gt_poller.c\<close>) and
  \<open>gt_datanet_ops_read\<close>. Both write to the list head of the data poller without a lock. Accesses to
  an event that only one thread can reach are part of the step before or after; a store of a
  pointer is atomic.
\<close>

subsection \<open>The accepting thread\<close>

text \<open>The part of \<open>gt_network_ops_read\<close> before the dispatch: \<open>Inl\<close> is its early result.\<close>

definition accept_conn :: "fd \<Rightarrow> gt_state \<Rightarrow> ((int + fd) \<times> gt_state) option" where
  "accept_conn lfd s = do {
     (cfd, k) \<leftarrow> sys_accept lfd (kern s);
     let s = s\<lparr>kern := k\<rparr>;
     if cfd = -1 then
       (let tmp_errno = gt_errno s in
        if tmp_errno = EAGAIN \<or> tmp_errno = EWOULDBLOCK then Some (Inl GT_OK, s)
        else Some (Inl GT_ERROR, GT_ERROR_LOG GT_MOD_CORE
               ''Failed to accept new conn on lfd[%d]! errno:%d, %s''
               [AInt lfd, AInt tmp_errno, AErrstr tmp_errno] s))
     else do {
       let (ret, s) = lift_k (sys_setsockopt cfd) s;
       if ret = -1 then
         (let s = GT_ERROR_LOG GT_MOD_CORE ''Failed to set socketopt! errno:%d, %s''
                    [AInt (gt_errno s), AErrstr (gt_errno s)] s;
              (_, s) = lift_k (sys_close cfd) s
          in Some (Inl (-1), s))
       else do {
         let ((_, flags), s) = lift_k (sys_fcntl_getfl cfd) s;
         let (ret, s) = lift_k (sys_fcntl_setfl cfd (flags OR O_NONBLOCK)) s;
         if ret = -1 then
           (let s = GT_ERROR_LOG GT_MOD_CORE ''Failed to set cfd[%d]! errno:%d, %s''
                      [AInt cfd, AInt (gt_errno s), AErrstr (gt_errno s)] s;
                (_, s) = lift_k (sys_close cfd) s
            in Some (Inl (-1), s))
         else Some (Inr cfd, s) } } }"

text \<open>
  Positions in \<open>gt_network_round_dispatch\<close>: before it, at the stores of \<open>list_add\<close> to the poller's
  list head, at the store that closes the ring, and at \<open>gt_poller_event_start\<close>. The arguments are
  the descriptor, the poller, the event and the link read from the event.
\<close>

datatype acc_pc =
    A_idle
  | A_dispatch fd
  | A_head_next fd addr addr addr
  | A_head_prev fd addr addr
  | A_close_ring fd addr addr
  | A_start fd addr

definition acc_step :: "acc_pc \<Rightarrow> gt_state \<Rightarrow> (acc_pc \<times> gt_state) option" where
  "acc_step pc s = (case pc of
     A_idle \<Rightarrow> Some (A_idle, s)
   | A_dispatch sockfd \<Rightarrow> do {
       let pthread_idx = nat (sockfd mod int (length (g_gt_datanet_pthread s)));
       row \<leftarrow> nth_opt (g_gt_datanet_pthread s) pthread_idx;
       let gpoller = pt_data row;
       let (ge, s) = gt_malloc_mem GT_MOD_CORE GT_MEM_TYPE_FML sizeof_gt_event s;
       if ge = NULL then
         Some (A_idle, GT_ERROR_LOG GT_MOD_CORE ''Failed to create gt_event for datanet[%d].'' [AInt (int pthread_idx)]
           (GT_ERROR_LOG GT_MOD_CORE ''Failed to alloc mem to gt_event'' [] s))
       else do {
         let s = memset_event ge s;
         gev \<leftarrow> gevents s ge;
         let s = put_event ge (gev\<lparr>ge_efd := sockfd\<rparr>) s;
         h \<leftarrow> INIT_LIST_HEAD (ge_list ge) (lists s);
         n \<leftarrow> get_next (ge_list ge) h;
         h \<leftarrow> set_prev n (gp_elist gpoller) h;
         Some (A_head_next sockfd gpoller ge n, s\<lparr>lists := h\<rparr>) } }
   | A_head_next sockfd gpoller ge n \<Rightarrow> do {
       h \<leftarrow> set_next (gp_elist gpoller) n (lists s);
       Some (A_head_prev sockfd gpoller ge, s\<lparr>lists := h\<rparr>) }
   | A_head_prev sockfd gpoller ge \<Rightarrow> do {
       h \<leftarrow> set_prev (gp_elist gpoller) (ge_list ge) (lists s);
       Some (A_close_ring sockfd gpoller ge, s\<lparr>lists := h\<rparr>) }
   | A_close_ring sockfd gpoller ge \<Rightarrow> do {
       h \<leftarrow> set_next (ge_list ge) (gp_elist gpoller) (lists s);
       let s = s\<lparr>lists := h\<rparr>;
       gev \<leftarrow> gevents s ge;
       let s = put_event ge (gev\<lparr>ge_gpoller := gpoller\<rparr>) s;
       gev \<leftarrow> gevents s ge;
       let s = put_event ge (gev\<lparr>ge_ops := (ge_ops gev)\<lparr>op_read := Some FN_datanet_ops_read\<rparr>\<rparr>) s;
       Some (A_start sockfd ge, s) }
   | A_start sockfd ge \<Rightarrow> do {
       let pthread_idx = nat (sockfd mod int (length (g_gt_datanet_pthread s)));
       (ret, s) \<leftarrow> gt_poller_event_start EPOLLIN ge s;
       if ret \<noteq> GT_OK then
         Some (A_idle, GT_ERROR_LOG GT_MOD_CORE ''Failed to start poller event! sockfd[%d], pthread_idx[%d]''
                 [AInt sockfd, AInt (int pthread_idx)] s)
       else Some (A_idle, s) })"

subsection \<open>A data thread\<close>

text \<open>
  Positions of data thread \<open>i\<close>: before \<open>gt_poller_init\<close>, at the two stores of \<open>INIT_LIST_HEAD\<close>, at
  \<open>epoll_wait\<close>, at the reports still to be handled, and inside the branch of
  \<open>gt_datanet_ops_read\<close> that destroys the event: at the two calls of \<open>gt_poller_event_stop\<close>, at the
  two stores of \<open>list_del\<close> to the neighbours, at \<open>close\<close> and at \<open>free\<close>. \<open>int\<close> is the result of \<open>read\<close>.
\<close>

datatype dat_pc =
    D_start
  | D_init_next
  | D_init_prev
  | D_exited
  | D_wait
  | D_batch "epoll_event list"
  | D_stop addr int "epoll_event list"
  | D_stop_again addr int "epoll_event list"
  | D_del_prev addr int "epoll_event list"
  | D_del_next addr addr addr int "epoll_event list"
  | D_close addr int "epoll_event list"
  | D_free addr int "epoll_event list"

definition init_fields :: "addr \<Rightarrow> gt_state \<Rightarrow> (int \<times> gt_state) option" where
  "init_fields gpoller s = do {
     gp \<leftarrow> gpollers s gpoller;
     let gp = gp\<lparr>gp_maxe := GT_NETWORKER_MAXEVENT, gp_timeout := GT_NETWORKER_EPWAIT_TIMEOUT\<rparr>;
     let (epfd, s) = lift_k (sys_epoll_create (GT_NETWORKER_MAXEVENT + 1)) s;
     let gp = gp\<lparr>gp_epfd := epfd\<rparr>;
     let s = s\<lparr>gpollers := (gpollers s)(gpoller \<mapsto> gp)\<rparr>;
     if epfd < 0 then
       Some (GT_ERROR, GT_ERROR_LOG GT_MOD_CORE ''Failed to epoll_ctl to epfd[%d]! errno:%d, %s''
                         [AInt epfd, AInt (gt_errno s), AErrstr (gt_errno s)] s)
     else do {
       let (ee, s) = gt_malloc_mem GT_MOD_CORE GT_MEM_TYPE_HEAP (GT_NETWORKER_MAXEVENT * sizeof_epoll_event) s;
       let gp = gp\<lparr>gp_ee := ee\<rparr>;
       let s = s\<lparr>gpollers := (gpollers s)(gpoller \<mapsto> gp)\<rparr>;
       if ee = NULL then
         Some (GT_ERROR, GT_ERROR_LOG GT_MOD_CORE ''Failed to alloc mem for gpoller.'' [] s)
       else Some (GT_OK, s) } }"

text \<open>
  The loop body for one report up to its first shared access besides the read itself. A data poller
  has only events with the handler \<open>gt_datanet_ops_read\<close>; another handler, like the write handler
  that is never set, counts as an invalid access here, so safety includes that it does not occur.
\<close>

definition handle_report :: "epoll_event \<Rightarrow> epoll_event list \<Rightarrow> gt_state \<Rightarrow> (dat_pc \<times> gt_state) option" where
  "handle_report ev evs s = (
     let ge = ev_ptr ev in
     if ev_events ev AND EPOLLIN \<noteq> 0 then do {
       gev \<leftarrow> gevents s ge;
       fn \<leftarrow> op_read (ge_ops gev);
       if fn \<noteq> FN_datanet_ops_read then None else do {
       (ret, buf, k) \<leftarrow> sys_read (ge_efd gev) (128 - 1) (kern s);
       let s = s\<lparr>kern := k\<rparr>;
       if ret \<le> 0 then
         (let tmp_errno = gt_errno s in
          if tmp_errno = EAGAIN \<or> tmp_errno = EWOULDBLOCK then Some (D_batch evs, s)
          else Some (D_stop ge ret evs, GT_INFO_LOG GT_MOD_CORE ''Failed to read fd:%d, errno:%d''
                       [AInt (ge_efd gev), AInt (gt_errno s)] s))
       else Some (D_batch evs, GT_INFO_LOG GT_MOD_CORE ''CFD[%d]: %s'' [AInt (ge_efd gev), AStr (cstring buf)] s) } }
     else if ev_events ev AND EPOLLOUT \<noteq> 0 then None
     else Some (D_batch evs, s))"

definition dat_step :: "nat \<Rightarrow> readiness \<Rightarrow> dat_pc \<Rightarrow> gt_state \<Rightarrow> (dat_pc \<times> gt_state) option" where
  "dat_step i rdy pc s = (let gpoller = g_gt_datanet_poller i in case pc of
     D_start \<Rightarrow> do {
       (ret, s) \<leftarrow> init_fields gpoller s;
       if ret \<noteq> GT_OK then Some (D_exited, GT_ERROR_LOG GT_MOD_CORE ''Failed to init poller.'' [] s)
       else Some (D_init_next, s) }
   | D_init_next \<Rightarrow> do {
       h \<leftarrow> set_next (gp_elist gpoller) (gp_elist gpoller) (lists s);
       Some (D_init_prev, s\<lparr>lists := h\<rparr>) }
   | D_init_prev \<Rightarrow> do {
       h \<leftarrow> set_prev (gp_elist gpoller) (gp_elist gpoller) (lists s);
       Some (D_wait, s\<lparr>lists := h\<rparr>) }
   | D_exited \<Rightarrow> Some (D_exited, s)
   | D_wait \<Rightarrow> do {
       gp \<leftarrow> gpollers s gpoller;
       let (events_num, ee, k) = sys_epoll_wait rdy (gp_epfd gp) (gp_ee gp) (gp_maxe gp) (kern s);
       let s = s\<lparr>kern := k\<rparr>;
       if 0 < events_num then do {
         sz \<leftarrow> blocks s (gp_ee gp);
         if events_num * sizeof_epoll_event \<le> sz then Some (D_batch ee, s) else None }
       else Some (D_wait, s) }
   | D_batch [] \<Rightarrow> Some (D_wait, s)
   | D_batch (ev # evs) \<Rightarrow> handle_report ev evs s
   | D_stop ge ret evs \<Rightarrow> do {
       (_, s) \<leftarrow> gt_poller_event_stop EPOLLIN ge s;
       Some (D_stop_again ge ret evs, s) }
   | D_stop_again ge ret evs \<Rightarrow> do {
       gev \<leftarrow> gevents s ge;
       (_, s) \<leftarrow> gt_poller_event_stop (ev_events (ge_e gev)) ge s;
       Some (D_del_prev ge ret evs, s) }
   | D_del_prev ge ret evs \<Rightarrow> do {
       p \<leftarrow> get_prev (ge_list ge) (lists s);
       n \<leftarrow> get_next (ge_list ge) (lists s);
       h \<leftarrow> set_prev n p (lists s);
       Some (D_del_next ge p n ret evs, s\<lparr>lists := h\<rparr>) }
   | D_del_next ge p n ret evs \<Rightarrow> do {
       h \<leftarrow> set_next p n (lists s);
       h \<leftarrow> set_next (ge_list ge) LIST_POISON1 h;
       h \<leftarrow> set_prev (ge_list ge) LIST_POISON2 h;
       Some (D_close ge ret evs, s\<lparr>lists := h\<rparr>) }
   | D_close ge ret evs \<Rightarrow> do {
       gev \<leftarrow> gevents s ge;
       let (_, s) = lift_k (sys_close (ge_efd gev)) s;
       Some (D_free ge ret evs, s) }
   | D_free ge ret evs \<Rightarrow> do {
       s \<leftarrow> gt_free_mem ge s;
       if ret < 0 then do {
         gev \<leftarrow> gevents s ge;
         Some (D_batch evs, GT_ERROR_LOG GT_MOD_CORE ''Failed to read for efd:%d'' [AInt (ge_efd gev)] s) }
       else Some (D_batch evs, s) })"

subsection \<open>Without interference the steps are the functions\<close>

text \<open>Steps of one thread alone until it reaches a position of \<open>stop\<close>, at most \<open>n\<close> of them.\<close>

fun alone :: "nat \<Rightarrow> ('pc \<Rightarrow> 's \<Rightarrow> ('pc \<times> 's) option) \<Rightarrow> ('pc \<Rightarrow> bool) \<Rightarrow> 'pc \<Rightarrow> 's \<Rightarrow> ('pc \<times> 's) option" where
  "alone n step stop pc s = (if stop pc then Some (pc, s)
     else case n of 0 \<Rightarrow> None | Suc m \<Rightarrow> step pc s \<bind> (\<lambda>(pc, s). alone m step stop pc s))"

declare alone.simps [simp del]

lemma alone_stop: "stop pc \<Longrightarrow> alone n step stop pc s = Some (pc, s)"
  by (subst alone.simps) simp

lemma alone_step: "\<not> stop pc \<Longrightarrow> alone (Suc n) step stop pc s = step pc s \<bind> (\<lambda>(pc, s). alone n step stop pc s)"
  by (subst alone.simps) simp

lemma alone_0: "alone 0 step stop pc s = (if stop pc then Some (pc, s) else None)"
  by (subst alone.simps) simp

lemmas alone_eval = alone_stop alone_step

lemma alone_more: "alone n step stop pc s = Some r \<Longrightarrow> n \<le> m \<Longrightarrow> alone m step stop pc s = Some r"
proof (induction n arbitrary: m pc s)
  case 0
  then show ?case by (simp add: alone_0 alone_stop split: if_splits)
next
  case (Suc n)
  then obtain k where m: "m = Suc k" "n \<le> k" by (cases m) auto
  show ?case
  proof (cases "stop pc")
    case False
    with Suc.prems(1) obtain pc1 s1 where "step pc s = Some (pc1, s1)" "alone n step stop pc1 s1 = Some r"
      by (auto simp: alone_step bind_eq_Some_conv)
    with Suc.IH [OF _ m(2)] False m(1) show ?thesis by (simp add: alone_step)
  qed (use Suc.prems(1) in \<open>simp add: alone_stop\<close>)
qed

lemma acc_alone_start:
  "alone (Suc n) acc_step (\<lambda>pc. pc = A_idle) (A_start fd ge) s =
     do { let i = nat (fd mod int (length (g_gt_datanet_pthread s)));
          (ret, s) \<leftarrow> gt_poller_event_start EPOLLIN ge s;
          Some (A_idle, if ret \<noteq> GT_OK then GT_ERROR_LOG GT_MOD_CORE
            ''Failed to start poller event! sockfd[%d], pthread_idx[%d]'' [AInt fd, AInt (int i)] s else s) }"
  by (auto simp: alone_eval acc_step_def Let_def intro!: Option.bind_cong)

lemma acc_alone_ring:
  "alone (Suc (Suc n)) acc_step (\<lambda>pc. pc = A_idle) (A_close_ring fd gp ge) s =
     do { h \<leftarrow> set_next (ge_list ge) (gp_elist gp) (lists s);
          gev \<leftarrow> gevents s ge;
          alone (Suc n) acc_step (\<lambda>pc. pc = A_idle) (A_start fd ge)
            (put_event ge (with_reader FN_datanet_ops_read (gev\<lparr>ge_gpoller := gp\<rparr>)) (s\<lparr>lists := h\<rparr>)) }"
  by (subst alone_step)
    (auto simp: acc_step_def Let_def with_reader_def put_event_def intro!: Option.bind_cong)

lemma acc_alone_head:
  "alone (Suc (Suc (Suc (Suc n)))) acc_step (\<lambda>pc. pc = A_idle) (A_head_next fd gp ge m) s =
     do { h \<leftarrow> set_next (gp_elist gp) m (lists s);
          h \<leftarrow> set_prev (gp_elist gp) (ge_list ge) h;
          alone (Suc (Suc n)) acc_step (\<lambda>pc. pc = A_idle) (A_close_ring fd gp ge) (s\<lparr>lists := h\<rparr>) }"
  by (subst alone_step, simp, subst acc_step_def, simp, subst alone_step, simp, subst acc_step_def, simp)

lemma map_option_bind_opt: "map_option f (Option.bind m g) = Option.bind m (\<lambda>x. map_option f (g x))"
  by (cases m) simp_all

lemma acc_equiv:
  "alone 5 acc_step (\<lambda>pc. pc = A_idle) (A_dispatch fd) s = map_option (\<lambda>(_, t). (A_idle, t)) (gt_network_round_dispatch fd s)"
proof -
  have five: "(5 :: nat) = Suc (Suc (Suc (Suc (Suc 0))))" by simp
  have first: "alone 5 acc_step (\<lambda>pc. pc = A_idle) (A_dispatch fd) s = acc_step (A_dispatch fd) s \<bind>
      (\<lambda>(pc, s). alone (Suc (Suc (Suc (Suc 0)))) acc_step (\<lambda>pc. pc = A_idle) pc s)"
    unfolding five by (subst alone_step, simp, rule refl)
  define i where "i = nat (fd mod int (length (g_gt_datanet_pthread s)))"
  obtain ge s0 where m: "gt_malloc_mem GT_MOD_CORE GT_MEM_TYPE_FML sizeof_gt_event s = (ge, s0)" by fastforce
  have t: "g_gt_datanet_pthread s0 = g_gt_datanet_pthread s"
    using m by (auto simp: gt_malloc_mem_def Let_def split: if_splits)
  show ?thesis
  proof (cases "nth_opt (g_gt_datanet_pthread s) i")
    case None
    then show ?thesis
      unfolding first by (simp add: acc_step_def gt_network_round_dispatch_def i_def)
  next
    case (Some row)
    note D = acc_step_def [of "A_dispatch fd"] gt_network_round_dispatch_def gt_poller_gevent_create_def
      i_def [symmetric] Some m Let_def
    show ?thesis
    proof (cases "ge = NULL")
      case True
      then show ?thesis unfolding first by (simp add: alone_stop D)
    next
      case False
      then show ?thesis
        unfolding first
        by (simp add: D list_add_def i_list_add_def acc_alone_head acc_alone_ring acc_alone_start map_option_bind_opt
          put_event_def memset_event_def with_reader_def t) (auto intro!: Option.bind_cong)
    qed
  qed
qed


lemmas dat_simps = dat_step_def [of _ _ D_start] dat_step_def [of _ _ D_init_next] dat_step_def [of _ _ D_init_prev]
  dat_step_def [of _ _ D_wait] dat_step_def [of _ _ "D_batch []"] dat_step_def [of _ _ "D_batch (ev # evs)" for ev evs]
  dat_step_def [of _ _ "D_stop ge ret evs" for ge ret evs] dat_step_def [of _ _ "D_stop_again ge ret evs" for ge ret evs]
  dat_step_def [of _ _ "D_del_prev ge ret evs" for ge ret evs] dat_step_def [of _ _ "D_del_next ge p n ret evs" for ge p n ret evs]
  dat_step_def [of _ _ "D_close ge ret evs" for ge ret evs] dat_step_def [of _ _ "D_free ge ret evs" for ge ret evs]
  dat_step_def [of _ _ D_exited]

lemmas dat_eval = dat_simps [simplified Let_def dat_pc.case list.case]

lemma dat_alone_drop:
  "alone (Suc (Suc (Suc (Suc (Suc (Suc n)))))) (dat_step i rdy) (\<lambda>pc. pc = D_batch evs \<or> pc = D_wait) (D_stop ge ret evs) s =
     do { (_, s) \<leftarrow> gt_poller_event_stop EPOLLIN ge s;
          s \<leftarrow> gt_poller_gevent_destroy ge s;
          if ret < 0 then do {
            gev \<leftarrow> gevents s ge;
            Some (D_batch evs, GT_ERROR_LOG GT_MOD_CORE ''Failed to read for efd:%d'' [AInt (ge_efd gev)] s) }
          else Some (D_batch evs, s) }"
  by (simp add: alone_step dat_eval gt_poller_gevent_destroy_def list_del_def i_list_del_def alone_stop Let_def case_prod_unfold)
    (auto simp: alone_stop intro!: Option.bind_cong)

lemma dat_equiv:
  assumes "\<And>gev. ev_events ev AND EPOLLIN \<noteq> 0 \<Longrightarrow> gevents s (ev_ptr ev) = Some gev \<Longrightarrow> op_read (ge_ops gev) = Some FN_datanet_ops_read"
    and "ev_events ev AND EPOLLOUT = 0"
  shows "alone 7 (dat_step i rdy) (\<lambda>pc. pc = D_batch evs \<or> pc = D_wait) (D_batch (ev # evs)) s =
    map_option (\<lambda>t. (D_batch evs, t)) (epoll_dispatch_one ops_call ev s)"
proof -
  have seven: "(7 :: nat) = Suc (Suc (Suc (Suc (Suc (Suc (Suc 0))))))" by simp
  have first: "alone 7 (dat_step i rdy) (\<lambda>pc. pc = D_batch evs \<or> pc = D_wait) (D_batch (ev # evs)) s = handle_report ev evs s \<bind>
      (\<lambda>(pc, s). alone (Suc (Suc (Suc (Suc (Suc (Suc 0)))))) (dat_step i rdy) (\<lambda>pc. pc = D_batch evs \<or> pc = D_wait) pc s)"
    unfolding seven by (subst alone_step, simp, subst dat_eval, rule refl)
  show ?thesis
  proof (cases "ev_events ev AND EPOLLIN = 0")
    case True
    with assms(2) show ?thesis unfolding first by (simp add: handle_report_def epoll_dispatch_one_def alone_stop)
  next
    case False
    show ?thesis
    proof (cases "gevents s (ev_ptr ev)")
      case None
      with False show ?thesis unfolding first by (simp add: handle_report_def epoll_dispatch_one_def)
    next
      case (Some gev)
      have op: "op_read (ge_ops gev) = Some FN_datanet_ops_read" using assms(1) [OF False Some] .
      show ?thesis
      proof (cases "sys_read (ge_efd gev) 127 (kern s)")
        case None
        with False Some op show ?thesis unfolding first
          by (simp add: handle_report_def epoll_dispatch_one_def ops_call_def gt_datanet_ops_read_def)
      next
        case r: (Some x)
        obtain ret buf k where x: "x = (ret, buf, k)" by (cases x)
        from False Some op r x show ?thesis unfolding first
          by (simp add: handle_report_def epoll_dispatch_one_def ops_call_def gt_datanet_ops_read_def Let_def alone_stop
              dat_alone_drop map_option_bind_opt GT_OK_def case_prod_unfold)
            (auto simp: map_option_bind_opt intro!: Option.bind_cong)
      qed
    qed
  qed
qed

lemma init_split:
  "gt_poller_init GT_NETWORKER_MAXEVENT GT_NETWORKER_EPWAIT_TIMEOUT gp s = do {
     (r, s) \<leftarrow> init_fields gp s;
     if r \<noteq> GT_OK then Some (r, s) else do {
       h \<leftarrow> INIT_LIST_HEAD (gp_elist gp) (lists s);
       Some (GT_OK, s\<lparr>lists := h\<rparr>) } }"
proof (cases "gpollers s gp")
  case (Some p)
  obtain epfd s1 where e: "lift_k (sys_epoll_create (GT_NETWORKER_MAXEVENT + 1)) s = (epfd, s1)" by fastforce
  let ?s2 = "s1\<lparr>gpollers := (gpollers s1)(gp \<mapsto> p\<lparr>gp_maxe := GT_NETWORKER_MAXEVENT,
    gp_timeout := GT_NETWORKER_EPWAIT_TIMEOUT, gp_epfd := epfd\<rparr>)\<rparr>"
  obtain ee s3 where m: "gt_malloc_mem GT_MOD_CORE GT_MEM_TYPE_HEAP (GT_NETWORKER_MAXEVENT * sizeof_epoll_event) ?s2 = (ee, s3)"
    by fastforce
  from Some e m show ?thesis
    by (simp add: gt_poller_init_def init_fields_def Let_def GT_OK_def GT_ERROR_def)
qed (simp add: gt_poller_init_def init_fields_def)

lemma init_equiv:
  "alone 3 (dat_step i rdy) (\<lambda>pc. pc = D_wait \<or> pc = D_exited) D_start s =
     map_option (\<lambda>(r, t). if r = GT_OK then (D_wait, t) else (D_exited, GT_ERROR_LOG GT_MOD_CORE ''Failed to init poller.'' [] t))
       (gt_poller_init GT_NETWORKER_MAXEVENT GT_NETWORKER_EPWAIT_TIMEOUT (g_gt_datanet_poller i) s)"
proof -
  have three: "(3 :: nat) = Suc (Suc (Suc 0))" by simp
  show ?thesis unfolding three
    by (simp add: alone_step dat_eval init_split INIT_LIST_HEAD_def map_option_bind_opt)
      (auto simp: alone_step alone_stop dat_eval INIT_LIST_HEAD_def map_option_bind_opt intro!: Option.bind_cong split: if_splits)
qed

lemma network_read_split:
  "gt_network_ops_read ge s = do {
     gev \<leftarrow> gevents s ge;
     let caddr = k_peer (kern s) (k_calls (kern s));
     (r, s) \<leftarrow> accept_conn (ge_efd gev) s;
     case r of
       Inl ret \<Rightarrow> Some (ret, s)
     | Inr cfd \<Rightarrow> do {
         (ret, s) \<leftarrow> gt_network_round_dispatch cfd s;
         if ret \<noteq> GT_OK then Some (GT_ERROR, s)
         else Some (GT_OK, GT_INFO_LOG GT_MOD_CORE ''Connection form IP[%#x], PORT[%d]''
                [AInt (uint (ntohl (fst caddr))), AInt (uint (ntohs (snd caddr)))] s) } }"
  by (auto simp: gt_network_ops_read_def accept_conn_def Let_def case_prod_unfold intro!: Option.bind_cong)

subsection \<open>All threads together\<close>

record race =
  r_mem :: gt_state
  r_acc :: acc_pc
  r_dat :: "nat \<Rightarrow> dat_pc"

text \<open>What the rest of the world does to the kernel: data, hang-ups, connections, other threads' log calls.\<close>

definition env_change :: "kernel \<Rightarrow> kernel \<Rightarrow> bool" where
  "env_change k k' \<longleftrightarrow> shape k' = shape k \<and> k_fault k' = k_fault k \<and>
     (\<forall>fd. map_option f_flags (file_at k' fd) = map_option f_flags (file_at k fd))"

definition data_pcs :: "nat set" where "data_pcs = {..<GT_DATANET_PTHREAD_NUM}"

inductive race_step :: "race \<Rightarrow> race \<Rightarrow> bool" where
  accepted: "r_acc w = A_idle \<Longrightarrow> accept_conn lfd (r_mem w) = Some (Inr cfd, s) \<Longrightarrow>
    race_step w (w\<lparr>r_mem := s, r_acc := A_dispatch cfd\<rparr>)"
| not_accepted: "r_acc w = A_idle \<Longrightarrow> accept_conn lfd (r_mem w) = Some (Inl r, s) \<Longrightarrow> race_step w (w\<lparr>r_mem := s\<rparr>)"
| acc: "acc_step (r_acc w) (r_mem w) = Some (pc, s) \<Longrightarrow> race_step w (w\<lparr>r_mem := s, r_acc := pc\<rparr>)"
| dat: "i \<in> data_pcs \<Longrightarrow> dat_step i rdy (r_dat w i) (r_mem w) = Some (pc, s) \<Longrightarrow>
    race_step w (w\<lparr>r_mem := s, r_dat := (r_dat w)(i := pc)\<rparr>)"
| env: "env_change (kern (r_mem w)) k \<Longrightarrow> race_step w (w\<lparr>r_mem := (r_mem w)\<lparr>kern := k\<rparr>\<rparr>)"

text \<open>
  The state at the broadcast: the data pollers are not initialised, there is no connection yet, and
  descriptor 0 is \<open>/dev/null\<close>.
\<close>

definition data_event :: "gt_event \<Rightarrow> bool" where
  "data_event gev \<longleftrightarrow> op_read (ge_ops gev) = Some FN_datanet_ops_read"

definition epfd_of :: "gt_state \<Rightarrow> nat \<Rightarrow> fd" where
  "epfd_of s i = (case gpollers s (g_gt_datanet_poller i) of None \<Rightarrow> -1 | Some p \<Rightarrow> gp_epfd p)"

definition race_start :: "race \<Rightarrow> bool" where
  "race_start w \<longleftrightarrow> (let s = r_mem w in sys_ok s \<and> shape (kern s) 0 = Some (FK_file, Map.empty) \<and>
     (\<forall>ge gev. gevents s ge = Some gev \<longrightarrow> \<not> data_event gev) \<and> (\<forall>fd m. shape (kern s) fd \<noteq> Some (FK_sock, m)) \<and>
     (\<forall>i \<in> data_pcs. epfd_of s i = 0 \<and> r_dat w i = D_start) \<and> r_acc w = A_idle)"

inductive race_reachable :: "race \<Rightarrow> bool" where
  start: "race_start w \<Longrightarrow> race_reachable w"
| step: "race_reachable w \<Longrightarrow> race_step w w' \<Longrightarrow> race_reachable w'"

end
