(* ===== verification/GT_Race_Inv.thy ===== *)
theory GT_Race_Inv
  imports GT_Race
begin

text \<open>
  The invariant of the hand-over of \<open>GT_Race\<close>: it ties each thread's position to the objects that only
  this thread may touch. A frame relation \<open>undisturbed\<close> says what a step leaves to the other threads;
  then there is one lemma per step of the accepting thread and of a data thread.
\<close>

subsection \<open>Invariant\<close>

definition points_at :: "kernel \<Rightarrow> addr \<Rightarrow> bool" where
  "points_at k ge \<longleftrightarrow> (\<exists>ep kd m fd v. shape k ep = Some (kd, m) \<and> m fd = Some v \<and> ev_ptr v = ge)"

definition new_sock :: "kernel \<Rightarrow> fd \<Rightarrow> bool" where
  "new_sock k fd \<longleftrightarrow> (\<exists>m. shape k fd = Some (FK_sock, m)) \<and> unregistered k fd"

definition home :: "gt_state \<Rightarrow> bool" where
  "home s \<longleftrightarrow> (\<forall>i \<in> data_pcs. \<forall>m fd v. shape (kern s) (epfd_of s i) = Some (FK_epoll, m) \<longrightarrow> m fd = Some v \<longrightarrow>
     (\<exists>gev n. gevents s (ev_ptr v) = Some gev \<and> ge_efd gev = fd \<and> data_event gev \<and>
        ge_gpoller gev = g_gt_datanet_poller i \<and> shape (kern s) fd = Some (FK_sock, n)))"

definition own_sets :: "gt_state \<Rightarrow> bool" where
  "own_sets s \<longleftrightarrow> (\<forall>i \<in> data_pcs. \<forall>j \<in> data_pcs. \<forall>m. i \<noteq> j \<longrightarrow> shape (kern s) (epfd_of s i) = Some (FK_epoll, m) \<longrightarrow>
     epfd_of s i \<noteq> epfd_of s j) \<and>
     (\<forall>i \<in> data_pcs. epfd_of s i < 0 \<or> (\<exists>kd m. shape (kern s) (epfd_of s i) = Some (kd, m) \<and> kd \<noteq> FK_sock))"

definition by_number :: "(addr \<rightharpoonup> gt_event) \<Rightarrow> bool" where
  "by_number G \<longleftrightarrow> (\<forall>ge gev. G ge = Some gev \<longrightarrow> data_event gev \<longrightarrow>
     ge_gpoller gev = g_gt_datanet_poller (nat (ge_efd gev mod 4)))"

definition nonblocking :: "kernel \<Rightarrow> bool" where
  "nonblocking k \<longleftrightarrow> (\<forall>fd f. file_at k fd = Some f \<longrightarrow> f_kind f = FK_sock \<longrightarrow> f_flags f AND O_NONBLOCK \<noteq> 0)"

text \<open>The part of the system invariant that does not speak of the links, and what the hand-over adds.\<close>

definition core :: "gt_state \<Rightarrow> bool" where
  "core s \<longleftrightarrow> entries_ok (shape (kern s)) (gevents s) \<and> events_ok (gevents s) \<and> buffers_ok s \<and> tables_ok s \<and> apart s \<and>
     mild (kern s) \<and> (\<forall>ge. gevents s ge \<noteq> None \<longrightarrow> ge \<noteq> NULL \<and> blocks s ge \<noteq> None) \<and>
     (\<forall>gp. gpollers s gp \<noteq> None \<longrightarrow> lists s (gp_elist gp) \<noteq> None) \<and> shape (kern s) 0 = Some (FK_file, Map.empty) \<and>
     nonblocking (kern s) \<and> by_number (gevents s) \<and> home s \<and> own_sets s"

definition linked :: "gt_state \<Rightarrow> addr set \<Rightarrow> bool" where
  "linked s U \<longleftrightarrow> (\<forall>ge gev. gevents s ge = Some gev \<longrightarrow> data_event gev \<longrightarrow> ge \<notin> U \<longrightarrow>
     lists s (ge_list ge) = Some \<lparr>lnext = gp_elist (ge_gpoller gev), lprev = gp_elist (ge_gpoller gev)\<rparr>)"

definition building :: "gt_state \<Rightarrow> fd \<Rightarrow> addr \<Rightarrow> addr \<Rightarrow> bool" where
  "building s fd gp ge \<longleftrightarrow> new_sock (kern s) fd \<and> gp = g_gt_datanet_poller (nat (fd mod 4)) \<and>
     gevents s ge = Some (zero_event\<lparr>ge_efd := fd\<rparr>) \<and>
     lists s (ge_list ge) = Some \<lparr>lnext = ge_list ge, lprev = gp_elist gp\<rparr>"

definition acc_ok :: "gt_state \<Rightarrow> acc_pc \<Rightarrow> bool" where
  "acc_ok s pc = (case pc of
     A_idle \<Rightarrow> True
   | A_dispatch fd \<Rightarrow> new_sock (kern s) fd
   | A_head_next fd gp ge n \<Rightarrow> building s fd gp ge \<and> n = ge_list ge
   | A_head_prev fd gp ge \<Rightarrow> building s fd gp ge
   | A_close_ring fd gp ge \<Rightarrow> building s fd gp ge
   | A_start fd ge \<Rightarrow> new_sock (kern s) fd \<and>
       gevents s ge = Some (with_reader FN_datanet_ops_read (created_event fd (g_gt_datanet_poller (nat (fd mod 4))))))"

definition acc_ge :: "acc_pc \<Rightarrow> addr set" where
  "acc_ge pc = (case pc of A_head_next fd gp ge n \<Rightarrow> {ge} | A_head_prev fd gp ge \<Rightarrow> {ge} | A_close_ring fd gp ge \<Rightarrow> {ge}
     | A_start fd ge \<Rightarrow> {ge} | _ \<Rightarrow> {})"

text \<open>An event of data thread \<open>i\<close> that is in the set of its poller under its own descriptor.\<close>

definition held :: "gt_state \<Rightarrow> nat \<Rightarrow> addr \<Rightarrow> bool" where
  "held s i ge \<longleftrightarrow> (\<exists>gev m v. gevents s ge = Some gev \<and> data_event gev \<and> ge_gpoller gev = g_gt_datanet_poller i \<and>
     shape (kern s) (epfd_of s i) = Some (FK_epoll, m) \<and> m (ge_efd gev) = Some v \<and> ev_ptr v = ge)"

definition batch_ok :: "gt_state \<Rightarrow> nat \<Rightarrow> epoll_event list \<Rightarrow> bool" where
  "batch_ok s i evs \<longleftrightarrow> distinct (map ev_ptr evs) \<and> (\<forall>ev \<in> set evs. ev_events ev AND EPOLLOUT = 0 \<and> held s i (ev_ptr ev))"

text \<open>A destroyed event whose descriptor is closed already: nothing but its thread refers to it.\<close>

definition closed :: "gt_state \<Rightarrow> nat \<Rightarrow> addr \<Rightarrow> bool" where
  "closed s i ge \<longleftrightarrow> (\<exists>gev. gevents s ge = Some gev \<and> data_event gev \<and> ge_gpoller gev = g_gt_datanet_poller i) \<and>
     \<not> points_at (kern s) ge"

definition working :: "(addr \<Rightarrow> bool) \<Rightarrow> gt_state \<Rightarrow> nat \<Rightarrow> addr \<Rightarrow> int \<Rightarrow> epoll_event list \<Rightarrow> bool" where
  "working P s i ge ret evs \<longleftrightarrow> P ge \<and> 0 \<le> ret \<and> ge \<notin> ev_ptr ` set evs \<and> batch_ok s i evs"

definition dat_ok :: "gt_state \<Rightarrow> nat \<Rightarrow> dat_pc \<Rightarrow> bool" where
  "dat_ok s i pc = (case pc of
     D_start \<Rightarrow> epfd_of s i = 0
   | D_batch evs \<Rightarrow> batch_ok s i evs
   | D_stop ge ret evs \<Rightarrow> working (held s i) s i ge ret evs
   | D_stop_again ge ret evs \<Rightarrow> working (held s i) s i ge ret evs
   | D_del_prev ge ret evs \<Rightarrow> working (held s i) s i ge ret evs
   | D_del_next ge p n ret evs \<Rightarrow> working (held s i) s i ge ret evs \<and>
       p = gp_elist (g_gt_datanet_poller i) \<and> n = gp_elist (g_gt_datanet_poller i)
   | D_close ge ret evs \<Rightarrow> working (held s i) s i ge ret evs
   | D_free ge ret evs \<Rightarrow> working (closed s i) s i ge ret evs
   | _ \<Rightarrow> True)"

definition dat_ge :: "dat_pc \<Rightarrow> addr set" where
  "dat_ge pc = (case pc of
     D_batch evs \<Rightarrow> ev_ptr ` set evs
   | D_stop ge ret evs \<Rightarrow> insert ge (ev_ptr ` set evs)
   | D_stop_again ge ret evs \<Rightarrow> insert ge (ev_ptr ` set evs)
   | D_del_prev ge ret evs \<Rightarrow> insert ge (ev_ptr ` set evs)
   | D_del_next ge p n ret evs \<Rightarrow> insert ge (ev_ptr ` set evs)
   | D_close ge ret evs \<Rightarrow> insert ge (ev_ptr ` set evs)
   | D_free ge ret evs \<Rightarrow> insert ge (ev_ptr ` set evs)
   | _ \<Rightarrow> {})"

text \<open>The events that have left their list.\<close>

definition dat_unlinked :: "dat_pc \<Rightarrow> addr set" where
  "dat_unlinked pc = (case pc of D_close ge ret evs \<Rightarrow> {ge} | D_free ge ret evs \<Rightarrow> {ge} | _ \<Rightarrow> {})"

definition race_inv :: "race \<Rightarrow> bool" where
  "race_inv w \<longleftrightarrow> core (r_mem w) \<and> linked (r_mem w) (\<Union>i \<in> data_pcs. dat_unlinked (r_dat w i)) \<and>
     acc_ok (r_mem w) (r_acc w) \<and> (\<forall>i \<in> data_pcs. dat_ok (r_mem w) i (r_dat w i)) \<and>
     (\<forall>i \<in> data_pcs. acc_ge (r_acc w) \<inter> dat_ge (r_dat w i) = {})"

subsection \<open>What a step leaves to the other threads\<close>

definition undisturbed :: "addr set \<Rightarrow> nat \<Rightarrow> gt_state \<Rightarrow> gt_state \<Rightarrow> bool" where
  "undisturbed X own s s' \<longleftrightarrow>
     (\<forall>ge. gevents s ge \<noteq> None \<longrightarrow> ge \<notin> X \<longrightarrow> gevents s' ge = gevents s ge \<and>
        lists s' (ge_list ge) = lists s (ge_list ge) \<and> (points_at (kern s') ge \<longrightarrow> points_at (kern s) ge)) \<and>
     (\<forall>j \<in> data_pcs. j \<noteq> own \<longrightarrow> epfd_of s' j = epfd_of s j) \<and>
     (\<forall>j \<in> data_pcs. \<forall>m. shape (kern s) (epfd_of s j) = Some (FK_epoll, m) \<longrightarrow> epfd_of s' j = epfd_of s j \<and>
        (\<exists>m'. shape (kern s') (epfd_of s j) = Some (FK_epoll, m') \<and>
           (\<forall>fd v. m fd = Some v \<longrightarrow> ev_ptr v \<notin> X \<longrightarrow> (\<exists>v'. m' fd = Some v' \<and> ev_ptr v' = ev_ptr v))))"

lemma undisturbed_refl [simp]: "undisturbed X i s s"
  by (auto simp: undisturbed_def)

lemma held_undisturbed:
  assumes "undisturbed X i s s'" "held s j ge" "ge \<notin> X" "j \<in> data_pcs"
  shows "held s' j ge"
proof -
  from assms(2) obtain gev m v where g: "gevents s ge = Some gev" "data_event gev" "ge_gpoller gev = g_gt_datanet_poller j"
    "shape (kern s) (epfd_of s j) = Some (FK_epoll, m)" "m (ge_efd gev) = Some v" "ev_ptr v = ge" by (auto simp: held_def)
  with assms(1,3,4) have "gevents s' ge = Some gev" "epfd_of s' j = epfd_of s j"
    "\<exists>m' v'. shape (kern s') (epfd_of s j) = Some (FK_epoll, m') \<and> m' (ge_efd gev) = Some v' \<and> ev_ptr v' = ge"
    by (auto simp: undisturbed_def) blast
  with g show ?thesis by (auto simp: held_def)
qed

lemma closed_undisturbed: "undisturbed X i s s' \<Longrightarrow> closed s j ge \<Longrightarrow> ge \<notin> X \<Longrightarrow> closed s' j ge"
  by (auto simp: closed_def undisturbed_def)

lemma batch_undisturbed:
  "undisturbed X i s s' \<Longrightarrow> batch_ok s j evs \<Longrightarrow> ev_ptr ` set evs \<inter> X = {} \<Longrightarrow> j \<in> data_pcs \<Longrightarrow> batch_ok s' j evs"
  unfolding batch_ok_def using held_undisturbed by blast

lemma dat_undisturbed:
  assumes "undisturbed X i s s'" "dat_ok s j pc" "dat_ge pc \<inter> X = {}" "j \<in> data_pcs" "j \<noteq> i"
  shows "dat_ok s' j pc"
  using assms batch_undisturbed [OF assms(1) _ _ assms(4)] held_undisturbed [OF assms(1) _ _ assms(4)] closed_undisturbed [OF assms(1)]
  by (cases pc) (auto simp: dat_ok_def dat_ge_def working_def undisturbed_def [of X i s s'])

lemma linked_undisturbed:
  assumes "linked s U" "undisturbed X i s s'" "U - X \<subseteq> U'"
    and "\<And>ge gev. gevents s' ge = Some gev \<Longrightarrow> data_event gev \<Longrightarrow> ge \<notin> U' \<Longrightarrow> gevents s ge = None \<or> ge \<in> X \<Longrightarrow>
      lists s' (ge_list ge) = Some \<lparr>lnext = gp_elist (ge_gpoller gev), lprev = gp_elist (ge_gpoller gev)\<rparr>"
  shows "linked s' U'"
  unfolding linked_def
proof (intro allI impI)
  fix ge gev assume g: "gevents s' ge = Some gev" "data_event gev" "ge \<notin> U'"
  show "lists s' (ge_list ge) = Some \<lparr>lnext = gp_elist (ge_gpoller gev), lprev = gp_elist (ge_gpoller gev)\<rparr>"
  proof (cases "gevents s ge = None \<or> ge \<in> X")
    case False
    with assms(2) g have "gevents s ge = Some gev" "lists s' (ge_list ge) = lists s (ge_list ge)" by (auto simp: undisturbed_def)
    moreover have "ge \<notin> U" using assms(3) g(3) False by blast
    ultimately show ?thesis using assms(1) g(2) by (simp add: linked_def)
  qed (use assms(4) g in blast)
qed

lemma data_pcs_set: "data_pcs = {0, 1, 2, 3}"
  by (auto simp: data_pcs_def GT_DATANET_PTHREAD_NUM_def)

lemma dgp_inj: "i \<in> data_pcs \<Longrightarrow> j \<in> data_pcs \<Longrightarrow> g_gt_datanet_poller i = g_gt_datanet_poller j \<Longrightarrow> i = j"
  by (auto simp: data_pcs_set g_gt_datanet_poller_def)

lemma mod4_data: "nat (fd mod 4) \<in> data_pcs"
  by (simp add: data_pcs_def GT_DATANET_PTHREAD_NUM_def nat_less_iff)

lemma dat_ge_owner:
  "dat_ok s i pc \<Longrightarrow> ge \<in> dat_ge pc \<Longrightarrow> \<exists>gev. gevents s ge = Some gev \<and> data_event gev \<and> ge_gpoller gev = g_gt_datanet_poller i"
  by (cases pc) (auto simp: dat_ok_def dat_ge_def working_def batch_ok_def held_def closed_def)

lemma acc_undisturbed:
  assumes "acc_ok s pc" "undisturbed X i s s'" "acc_ge pc \<inter> X = {}" "\<And>fd. new_sock (kern s) fd \<Longrightarrow> new_sock (kern s') fd"
  shows "acc_ok s' pc"
  using assms by (cases pc) (auto simp: acc_ok_def acc_ge_def building_def undisturbed_def)

text \<open>How the invariant is put together again after a step of the accepting thread.\<close>

lemma race_inv_acc:
  assumes inv: "race_inv w" and u: "undisturbed X 4 (r_mem w) s'" and X: "X \<subseteq> acc_ge (r_acc w)"
    and c: "core s'" and a: "acc_ok s' pc"
    and l: "\<And>ge gev. gevents s' ge = Some gev \<Longrightarrow> data_event gev \<Longrightarrow> gevents (r_mem w) ge = None \<or> ge \<in> X \<Longrightarrow>
      lists s' (ge_list ge) = Some \<lparr>lnext = gp_elist (ge_gpoller gev), lprev = gp_elist (ge_gpoller gev)\<rparr>"
    and e: "\<And>ge. ge \<in> acc_ge pc \<Longrightarrow> ge \<in> acc_ge (r_acc w) \<or> gevents (r_mem w) ge = None"
  shows "race_inv (w\<lparr>r_mem := s', r_acc := pc\<rparr>)"
proof -
  have d: "dat_ok (r_mem w) i (r_dat w i)" "acc_ge (r_acc w) \<inter> dat_ge (r_dat w i) = {}" if "i \<in> data_pcs" for i
    using inv that by (auto simp: race_inv_def)
  have "dat_ok s' i (r_dat w i)" if "i \<in> data_pcs" for i
    using dat_undisturbed [OF u d(1) [OF that] _ that] d(2) [OF that] X that
    by (auto simp: data_pcs_def GT_DATANET_PTHREAD_NUM_def)
  moreover have "acc_ge pc \<inter> dat_ge (r_dat w i) = {}" if "i \<in> data_pcs" for i
    using d(2) [OF that] dat_ge_owner [OF d(1) [OF that]] e by fastforce
  moreover have "linked s' (\<Union>i \<in> data_pcs. dat_unlinked (r_dat w i))"
    by (rule linked_undisturbed [OF _ u]) (use inv l in \<open>auto simp: race_inv_def\<close>)
  ultimately show ?thesis using c a by (simp add: race_inv_def)
qed

text \<open>And after a step of data thread \<open>i\<close>.\<close>

lemma race_inv_dat:
  assumes inv: "race_inv w" and i: "i \<in> data_pcs" and u: "undisturbed X i (r_mem w) s'" and X: "X \<subseteq> dat_ge (r_dat w i)"
    and k: "\<And>fd. new_sock (kern (r_mem w)) fd \<Longrightarrow> new_sock (kern s') fd"
    and c: "core s'" and d: "dat_ok s' i pc" and old: "dat_unlinked (r_dat w i) \<subseteq> X \<union> dat_unlinked pc"
    and l: "\<And>ge gev. gevents s' ge = Some gev \<Longrightarrow> data_event gev \<Longrightarrow> ge \<notin> dat_unlinked pc \<Longrightarrow>
      gevents (r_mem w) ge = None \<or> ge \<in> X \<Longrightarrow>
      lists s' (ge_list ge) = Some \<lparr>lnext = gp_elist (ge_gpoller gev), lprev = gp_elist (ge_gpoller gev)\<rparr>"
    and e: "acc_ge (r_acc w) \<inter> dat_ge pc = {}"
  shows "race_inv (w\<lparr>r_mem := s', r_dat := (r_dat w)(i := pc)\<rparr>)"
proof -
  have dj: "dat_ok (r_mem w) j (r_dat w j)" "acc_ge (r_acc w) \<inter> dat_ge (r_dat w j) = {}" if "j \<in> data_pcs" for j
    using inv that by (auto simp: race_inv_def)
  have X0: "acc_ge (r_acc w) \<inter> X = {}" using dj(2) [OF i] X by blast
  have "dat_ok s' j (r_dat w j)" if j: "j \<in> data_pcs" "j \<noteq> i" for j
  proof (rule dat_undisturbed [OF u dj(1) [OF j(1)] _ j])
    show "dat_ge (r_dat w j) \<inter> X = {}"
      using dat_ge_owner [OF dj(1) [OF j(1)]] dat_ge_owner [OF dj(1) [OF i]] X dgp_inj [OF j(1) i] j(2) by fastforce
  qed
  moreover have "acc_ok s' (r_acc w)"
    using acc_undisturbed [OF _ u X0 k] inv by (simp add: race_inv_def)
  moreover have "linked s' (\<Union>j \<in> data_pcs. dat_unlinked (((r_dat w)(i := pc)) j))"
  proof (rule linked_undisturbed [OF _ u])
    show "linked (r_mem w) (\<Union>j \<in> data_pcs. dat_unlinked (r_dat w j))" using inv by (simp add: race_inv_def)
    show "(\<Union>j \<in> data_pcs. dat_unlinked (r_dat w j)) - X \<subseteq> (\<Union>j \<in> data_pcs. dat_unlinked (((r_dat w)(i := pc)) j))"
    proof
      fix ge assume "ge \<in> (\<Union>j \<in> data_pcs. dat_unlinked (r_dat w j)) - X"
      then obtain j where "j \<in> data_pcs" "ge \<in> dat_unlinked (r_dat w j)" "ge \<notin> X" by blast
      with old i show "ge \<in> (\<Union>j \<in> data_pcs. dat_unlinked (((r_dat w)(i := pc)) j))" by (cases "j = i") auto
    qed
  qed (use l i in auto)
  ultimately show ?thesis using c d dj e by (auto simp: race_inv_def)
qed

subsection \<open>Steps that change only links or only the kernel\<close>

lemma env_shape: "env_change k k' \<Longrightarrow> shape k' = shape k"
  by (simp add: env_change_def)

lemma env_nonblocking: "env_change k k' \<Longrightarrow> nonblocking k \<Longrightarrow> nonblocking k'"
  unfolding nonblocking_def
proof (intro allI impI)
  fix fd f assume e: "env_change k k'" and n: "\<forall>fd f. file_at k fd = Some f \<longrightarrow> f_kind f = FK_sock \<longrightarrow> f_flags f AND O_NONBLOCK \<noteq> 0"
    and f: "file_at k' fd = Some f" "f_kind f = FK_sock"
  from fun_cong [OF env_shape [OF e], of fd] f(1) obtain g where "file_at k fd = Some g" "f_kind g = f_kind f"
    by (cases "file_at k fd") (auto simp: shape_def)
  moreover from this e f(1) have "f_flags g = f_flags f" by (auto simp: env_change_def dest!: spec [of _ fd])
  ultimately show "f_flags f AND O_NONBLOCK \<noteq> 0" using n f(2) by metis
qed

lemma epfd_kern [simp]: "epfd_of (s\<lparr>kern := k\<rparr>) i = epfd_of s i" "epfd_of (s\<lparr>lists := h\<rparr>) i = epfd_of s i"
  "epfd_of (s\<lparr>gevents := G\<rparr>) i = epfd_of s i"  "epfd_of (s\<lparr>blocks := b\<rparr>) i = epfd_of s i"
  by (simp_all add: epfd_of_def)

lemma core_env: "core s \<Longrightarrow> env_change (kern s) k \<Longrightarrow> core (s\<lparr>kern := k\<rparr>)"
  using env_nonblocking [of "kern s" k]
  by (auto simp: core_def env_change_def buffers_ok_def tables_ok_def apart_def mild_def home_def own_sets_def)

lemma undisturbed_env: "env_change (kern s) k \<Longrightarrow> undisturbed X i s (s\<lparr>kern := k\<rparr>)"
  by (auto simp: undisturbed_def env_change_def points_at_def)

lemma new_sock_shape: "shape k' = shape k \<Longrightarrow> new_sock k' fd = new_sock k fd"
  by (simp add: new_sock_def unregistered_def)

lemma core_lists: "core s \<Longrightarrow> (\<And>a. lists s a \<noteq> None \<Longrightarrow> h a \<noteq> None) \<Longrightarrow> core (s\<lparr>lists := h\<rparr>)"
  by (auto simp: core_def buffers_ok_def tables_ok_def apart_def home_def own_sets_def)

lemma undisturbed_lists:
  "(\<And>ge. gevents s ge \<noteq> None \<Longrightarrow> ge \<notin> X \<Longrightarrow> h (ge_list ge) = lists s (ge_list ge)) \<Longrightarrow> undisturbed X i s (s\<lparr>lists := h\<rparr>)"
  by (auto simp: undisturbed_def)

lemma race_inv_env: "race_inv w \<Longrightarrow> env_change (kern (r_mem w)) k \<Longrightarrow> race_inv (w\<lparr>r_mem := (r_mem w)\<lparr>kern := k\<rparr>\<rparr>)"
proof -
  assume inv: "race_inv w" and e: "env_change (kern (r_mem w)) k"
  have "race_inv (w\<lparr>r_mem := (r_mem w)\<lparr>kern := k\<rparr>, r_acc := r_acc w\<rparr>)"
  proof (rule race_inv_acc [OF inv undisturbed_env [OF e], of "{}"])
    show "core ((r_mem w)\<lparr>kern := k\<rparr>)" using core_env [OF _ e] inv by (simp add: race_inv_def)
    show "acc_ok ((r_mem w)\<lparr>kern := k\<rparr>) (r_acc w)"
      using acc_undisturbed [OF _ undisturbed_env [OF e], of "r_acc w" "{}"] new_sock_shape [OF env_shape [OF e]] inv
      by (simp add: race_inv_def)
  qed auto
  then show ?thesis by simp
qed

subsection \<open>Kernel calls that the other threads do not see\<close>

lemma env_refl [simp]: "env_change k k"
  by (simp add: env_change_def)

lemma env_trans: "env_change k k1 \<Longrightarrow> env_change k1 k2 \<Longrightarrow> env_change k k2"
  by (simp add: env_change_def)

lemma env_files: "file_at k' = file_at k \<Longrightarrow> k_fault k' = k_fault k \<Longrightarrow> env_change k k'"
  using shape_file_at [of k' k] by (simp add: env_change_def)

lemma env_calls [simp]:
  "env_change k (next_call k)" "env_change k (k\<lparr>k_errno := e\<rparr>)" "env_change k (log_call md std lvl fmt a k)"
  "env_change k ((next_call k)\<lparr>k_errno := e\<rparr>)"
  by (rule env_files; simp add: frame_simps)+

lemma env_syscall:
  assumes "\<And>k. env_change k (snd (act k))"
  shows "env_change k (snd (syscall act k))"
  by (cases "fault_now k") (simp_all add: syscall_def sys_fail_def env_trans [OF env_calls(1) assms])

lemma env_setsockopt [simp]: "env_change k (snd (sys_setsockopt fd k))"
  unfolding sys_setsockopt_def by (rule env_syscall) (auto simp: with_open_def sys_fail_def split: option.splits)

lemma env_getfl [simp]: "env_change k (snd (sys_fcntl_getfl fd k))"
  by (auto simp: sys_fcntl_getfl_def split: option.splits)

lemma env_read: "sys_read fd n k = Some (r, bs, k') \<Longrightarrow> env_change k k'"
proof -
  assume r: "sys_read fd n k = Some (r, bs, k')"
  then have "k_fault k' = k_fault k \<and> (\<forall>a. map_option f_flags (file_at k' a) = map_option f_flags (file_at k a))"
    by (auto simp: sys_read_def Let_def file_at_put_fun split: option.splits if_splits)
  with shape_read [OF r] show ?thesis by (simp add: env_change_def)
qed

lemma env_wait: "sys_epoll_wait rdy epfd ee maxe k = (n, evs, k') \<Longrightarrow> env_change k k'"
  by (erule epoll_report) (auto intro: env_files)

lemma race_inv_mem:
  "race_inv (w\<lparr>r_mem := s, r_acc := pc\<rparr>) \<Longrightarrow> env_change (kern s) k \<Longrightarrow> race_inv (w\<lparr>r_mem := s\<lparr>kern := k\<rparr>, r_acc := pc\<rparr>)"
  "race_inv (w\<lparr>r_mem := s, r_dat := D\<rparr>) \<Longrightarrow> env_change (kern s) k \<Longrightarrow> race_inv (w\<lparr>r_mem := s\<lparr>kern := k\<rparr>, r_dat := D\<rparr>)"
  using race_inv_env [of "w\<lparr>r_mem := s, r_acc := pc\<rparr>" k] race_inv_env [of "w\<lparr>r_mem := s, r_dat := D\<rparr>" k]
  by (cases w; simp)+

lemma race_inv_logs:
  "race_inv (w\<lparr>r_mem := s, r_acc := pc\<rparr>) \<Longrightarrow> race_inv (w\<lparr>r_mem := GT_ERROR_LOG md fmt a s, r_acc := pc\<rparr>)"
  "race_inv (w\<lparr>r_mem := s, r_dat := D\<rparr>) \<Longrightarrow> race_inv (w\<lparr>r_mem := GT_ERROR_LOG md fmt a s, r_dat := D\<rparr>)"
  "race_inv (w\<lparr>r_mem := s, r_dat := D\<rparr>) \<Longrightarrow> race_inv (w\<lparr>r_mem := GT_INFO_LOG md fmt a s, r_dat := D\<rparr>)"
  by (simp_all add: GT_ERROR_LOG_def GT_INFO_LOG_def race_inv_mem)

lemma race_same: "w\<lparr>r_mem := r_mem w, r_acc := r_acc w\<rparr> = (w :: race)" "w\<lparr>r_mem := r_mem w, r_dat := r_dat w\<rparr> = (w :: race)"
  by simp_all

lemma coreD:
  assumes "core s"
  shows "entries_ok (shape (kern s)) (gevents s)" "events_ok (gevents s)" "buffers_ok s" "tables_ok s" "apart s"
    "mild (kern s)" "\<And>ge. gevents s ge \<noteq> None \<Longrightarrow> ge \<noteq> NULL \<and> blocks s ge \<noteq> None"
    "\<And>gp. gpollers s gp \<noteq> None \<Longrightarrow> lists s (gp_elist gp) \<noteq> None" "shape (kern s) 0 = Some (FK_file, Map.empty)"
    "nonblocking (kern s)" "by_number (gevents s)" "home s" "own_sets s"
  using assms by (auto simp: core_def)

lemma unregisteredI: "entries_ok (shape k) G \<Longrightarrow> shape k fd = None \<Longrightarrow> unregistered k fd"
  unfolding unregistered_def
proof (intro allI impI)
  fix ep kd m assume e: "entries_ok (shape k) G" "shape k fd = None" "shape k ep = Some (kd, m)"
  show "m fd = None"
  proof (cases "m fd")
    case (Some v)
    from e(2) show ?thesis by (rule_tac entries_okD [OF e(1,3) Some]) auto
  qed
qed

lemma own_sets_frame:
  assumes "own_sets s" "\<And>j. j \<in> data_pcs \<Longrightarrow> epfd_of s' j = epfd_of s j"
    and "\<And>j. j \<in> data_pcs \<Longrightarrow> map_option fst (shape (kern s') (epfd_of s j)) = map_option fst (shape (kern s) (epfd_of s j))"
  shows "own_sets s'"
proof -
  have k: "(\<exists>m. shape (kern s') (epfd_of s j) = Some (kd, m)) \<longleftrightarrow> (\<exists>m. shape (kern s) (epfd_of s j) = Some (kd, m))"
    if "j \<in> data_pcs" for j kd
    using assms(3) [OF that] by (cases "shape (kern s) (epfd_of s j)"; cases "shape (kern s') (epfd_of s j)") auto
  show ?thesis unfolding own_sets_def
  proof (intro conjI ballI allI impI)
    fix a b m assume ab: "a \<in> data_pcs" "b \<in> data_pcs" "a \<noteq> b" "shape (kern s') (epfd_of s' a) = Some (FK_epoll, m)"
    with assms(2) k [of a FK_epoll] obtain m0 where "shape (kern s) (epfd_of s a) = Some (FK_epoll, m0)" by auto
    with assms(1,2) ab(1-3) show "epfd_of s' a \<noteq> epfd_of s' b" by (simp add: own_sets_def)
  next
    fix j assume j: "j \<in> data_pcs"
    with assms(1) have "epfd_of s j < 0 \<or> (\<exists>kd m. shape (kern s) (epfd_of s j) = Some (kd, m) \<and> kd \<noteq> FK_sock)"
      by (simp add: own_sets_def)
    with k [OF j] assms(2) [OF j] show "epfd_of s' j < 0 \<or> (\<exists>kd m. shape (kern s') (epfd_of s' j) = Some (kd, m) \<and> kd \<noteq> FK_sock)"
      by metis
  qed
qed

subsection \<open>Accepting\<close>

text \<open>A new descriptor \<open>fd\<close>, and nothing else.\<close>

definition grown :: "kernel \<Rightarrow> fd \<Rightarrow> kernel \<Rightarrow> bool" where
  "grown k fd k' \<longleftrightarrow> shape k fd = None \<and> 0 \<le> fd \<and> shape k' = (shape k)(fd \<mapsto> (FK_sock, Map.empty)) \<and> k_fault k' = k_fault k \<and>
     (\<forall>a. a \<noteq> fd \<longrightarrow> map_option f_flags (file_at k' a) = map_option f_flags (file_at k a))"

lemma grown_env: "grown k fd k1 \<Longrightarrow> env_change k1 k2 \<Longrightarrow> grown k fd k2"
  by (simp add: grown_def env_change_def)

lemma grown_setfl: "grown k fd k1 \<Longrightarrow> grown k fd (snd (sys_fcntl_setfl fd fl k1))"
proof -
  assume g: "grown k fd k1"
  have "map_option f_flags (file_at (snd (sys_fcntl_setfl fd fl k1)) a) = map_option f_flags (file_at k1 a)" if "a \<noteq> fd" for a
    using that by (auto simp: sys_fcntl_setfl_def syscall_def sys_fail_def file_at_put_fun split: option.splits)
  with g show ?thesis by (simp add: grown_def frame_simps)
qed

lemma grown_close:
  assumes "grown k fd k1" "unregistered k fd"
  shows "env_change k (snd (sys_close fd k1))"
proof -
  have "shape (snd (sys_close fd k1)) a = shape k a" for a
    using assms by (cases "shape k a") (auto simp: shape_close grown_def unregistered_def fun_upd_idem)
  moreover have "map_option f_flags (file_at (snd (sys_close fd k1)) a) = map_option f_flags (file_at k a)" for a
  proof -
    from assms(1) obtain f where f: "file_at k1 fd = Some f" by (cases "file_at k1 fd") (auto simp: grown_def shape_def fun_eq_iff dest: spec [of _ fd])
    from assms(1) have "file_at k fd = None" by (simp add: grown_def shape_def)
    with assms(1) show ?thesis
      by (cases "a = fd"; cases "file_at k1 a")
        (auto simp: file_at_sys_close(2) [OF f] grown_def hang_up_def drop_interest_def dest: spec [of _ a])
  qed
  ultimately show ?thesis using assms(1) by (simp add: env_change_def grown_def frame_simps fun_eq_iff)
qed

lemma accept_effect:
  assumes "sys_accept lfd k = Some (cfd, k')"
  shows "cfd = -1 \<and> env_change k k' \<or> grown k cfd k'"
proof (cases "fault_now k = None \<and> (\<exists>f n. file_at k lfd = Some f \<and> f_kind f = FK_listen \<and> f_pending f = Suc n)")
  case True
  then obtain f n where f: "file_at k lfd = Some f" "f_pending f = Suc n" and
    al: "alloc_fd (new_file FK_sock) (put_file lfd (f\<lparr>f_pending := n\<rparr>) (next_call k)) = (cfd, k')"
    using assms by (auto simp: sys_accept_def)
  have sh: "shape (put_file lfd (f\<lparr>f_pending := n\<rparr>) (next_call k)) = shape k" using f(1) by (subst shape_put_same [of _ _ f]) simp_all
  from shape_alloc [OF al] alloc_fd_spec(3,5) [OF al] f(1) sh show ?thesis
    by (auto simp: grown_def new_file_def file_at_put_fun)
next
  case False
  with assms show ?thesis
    by (cases "fault_now k") (auto simp: sys_accept_def sys_fail_def split: option.splits if_splits nat.splits)
qed

lemma setfl_flags: "fst (sys_fcntl_setfl fd fl k) \<noteq> -1 \<Longrightarrow> \<exists>f. file_at (snd (sys_fcntl_setfl fd fl k)) fd = Some f \<and> f_flags f = fl"
  by (auto simp: sys_fcntl_setfl_def syscall_def sys_fail_def file_at_put_fun split: option.splits)

lemma nonblock_or: "(fl OR O_NONBLOCK) AND O_NONBLOCK \<noteq> 0"
  by (simp add: bit.conj_disj_distrib2 O_NONBLOCK_def)

lemma accept_conn_effect:
  assumes a: "accept_conn lfd s = Some (r, s')" and en: "entries_ok (shape (kern s)) (gevents s)"
  shows "\<exists>k. s' = s\<lparr>kern := k\<rparr> \<and> (case r of Inl _ \<Rightarrow> env_change (kern s) k
     | Inr cfd \<Rightarrow> grown (kern s) cfd k \<and> (\<exists>f. file_at k cfd = Some f \<and> f_flags f AND O_NONBLOCK \<noteq> 0))"
proof -
  from a obtain cfd k where k: "sys_accept lfd (kern s) = Some (cfd, k)" by (auto simp: accept_conn_def bind_eq_Some_conv)
  show ?thesis
  proof (cases "cfd = -1")
    case True
    with accept_effect [OF k] have "env_change (kern s) k" by (auto simp: grown_def)
    with True a k env_trans [OF this env_calls(3)] show ?thesis
      by (auto simp: accept_conn_def Let_def GT_ERROR_LOG_def split: if_splits)
  next
    case False
    with accept_effect [OF k] have g: "grown (kern s) cfd k" by simp
    have u: "unregistered (kern s) cfd" using g unregisteredI [OF en] by (simp add: grown_def)
    let ?k1 = "snd (sys_setsockopt cfd k)"
    let ?k2 = "snd (sys_fcntl_getfl cfd ?k1)" and ?fl = "snd (fst (sys_fcntl_getfl cfd ?k1)) OR O_NONBLOCK"
    let ?k3 = "snd (sys_fcntl_setfl cfd ?fl ?k2)"
    have g1: "grown (kern s) cfd ?k1" using grown_env [OF g] by simp
    have g3: "grown (kern s) cfd ?k3" using grown_setfl grown_env [OF g1] by simp
    have c: "env_change (kern s) (snd (sys_close cfd (log_call md std lvl fmt b k')))" if "grown (kern s) cfd k'" for k' md std lvl fmt b
      using grown_close [OF grown_env [OF that] u] by simp
    show ?thesis
      using a k False c [OF g1] c [OF g3] g3 setfl_flags [of cfd ?fl ?k2] nonblock_or [of "snd (fst (sys_fcntl_getfl cfd ?k1))"]
      by (auto simp: accept_conn_def Let_def lift_k_eq case_prod_unfold GT_ERROR_LOG_def split: if_splits)
  qed
qed

lemma core_grown:
  assumes c: "core s" and g: "grown (kern s) cfd k" and f: "file_at k cfd = Some f" "f_flags f AND O_NONBLOCK \<noteq> 0"
  shows "core (s\<lparr>kern := k\<rparr>)"
proof -
  note C = coreD [OF c]
  have sh: "shape k = (shape (kern s))(cfd \<mapsto> (FK_sock, Map.empty))" "shape (kern s) cfd = None" "k_fault k = k_fault (kern s)"
    using g by (simp_all add: grown_def)
  have "nonblocking k" unfolding nonblocking_def
  proof (intro allI impI)
    fix a b assume b: "file_at k a = Some b" "f_kind b = FK_sock"
    show "f_flags b AND O_NONBLOCK \<noteq> 0"
    proof (cases "a = cfd")
      case False
      with g have "map_option f_flags (file_at k a) = map_option f_flags (file_at (kern s) a)" by (simp add: grown_def)
      with b(1) obtain b0 where b0: "file_at (kern s) a = Some b0" "f_flags b0 = f_flags b" by (cases "file_at (kern s) a") auto
      from False sh(1) b b0(1) have "f_kind b0 = FK_sock" by (auto simp: shape_def fun_eq_iff dest!: spec [of _ a])
      with b0 C(10) show ?thesis unfolding nonblocking_def by metis
    qed (use b f in simp)
  qed
  moreover have "home (s\<lparr>kern := k\<rparr>)" using C(12) sh by (fastforce simp: home_def split: if_splits)
  moreover have "own_sets (s\<lparr>kern := k\<rparr>)"
  proof (rule own_sets_frame [OF C(13)])
    fix j assume "j \<in> data_pcs"
    with C(13) have "epfd_of s j < 0 \<or> (\<exists>kd m. shape (kern s) (epfd_of s j) = Some (kd, m))" by (auto simp: own_sets_def)
    with sh g have "epfd_of s j \<noteq> cfd" by (auto simp: grown_def)
    with sh(1) show "map_option fst (shape (kern (s\<lparr>kern := k\<rparr>)) (epfd_of s j)) = map_option fst (shape (kern s) (epfd_of s j))" by simp
  qed simp
  moreover have "entries_ok (shape k) (gevents s)" using entries_alloc [OF C(1) sh(2)] sh(1) by simp
  moreover have "cfd \<noteq> 0" using C(9) sh(2) by auto
  moreover have "buffers_ok (s\<lparr>kern := k\<rparr>)" "tables_ok (s\<lparr>kern := k\<rparr>)" "apart (s\<lparr>kern := k\<rparr>)" using C(3,4,5) by (simp_all add: buffers_ok_def tables_ok_def apart_def)
  moreover have "mild k" using C(6) mild_frame [OF sh(3)] by simp
  ultimately show ?thesis unfolding core_def using C sh(1) by simp
qed

lemma undisturbed_grown: "grown (kern s) cfd k \<Longrightarrow> undisturbed X i s (s\<lparr>kern := k\<rparr>)"
  by (fastforce simp: undisturbed_def points_at_def grown_def split: if_splits)

lemma race_inv_accept:
  assumes inv: "race_inv w" and a: "accept_conn lfd (r_mem w) = Some (r, s)" and i: "r_acc w = A_idle"
  shows "race_inv (w\<lparr>r_mem := s, r_acc := case r of Inl _ \<Rightarrow> A_idle | Inr cfd \<Rightarrow> A_dispatch cfd\<rparr>)"
proof -
  have c: "core (r_mem w)" using inv by (simp add: race_inv_def)
  from accept_conn_effect [OF a coreD(1) [OF c]] obtain k where s: "s = (r_mem w)\<lparr>kern := k\<rparr>" and
    k: "case r of Inl _ \<Rightarrow> env_change (kern (r_mem w)) k
     | Inr cfd \<Rightarrow> grown (kern (r_mem w)) cfd k \<and> (\<exists>f. file_at k cfd = Some f \<and> f_flags f AND O_NONBLOCK \<noteq> 0)" by blast
  show ?thesis
  proof (cases r)
    case (Inl x)
    with k race_inv_env [OF inv, of k] i show ?thesis by (cases w) (simp add: s)
  next
    case (Inr cfd)
    with k obtain f where g: "grown (kern (r_mem w)) cfd k" and f: "file_at k cfd = Some f" "f_flags f AND O_NONBLOCK \<noteq> 0" by auto
    have "unregistered (kern (r_mem w)) cfd" using g unregisteredI [OF coreD(1) [OF c]] by (simp add: grown_def)
    with g have n: "new_sock k cfd" by (auto simp: new_sock_def unregistered_def grown_def)
    have "race_inv (w\<lparr>r_mem := s, r_acc := A_dispatch cfd\<rparr>)" unfolding s
      by (rule race_inv_acc [OF inv undisturbed_grown [OF g], of "{}"]) (use core_grown [OF c g f] n in \<open>auto simp: acc_ok_def acc_ge_def\<close>)
    with Inr show ?thesis by simp
  qed
qed

subsection \<open>Steps of the accepting thread\<close>

lemma acc_row:
  assumes "core s"
  shows "length (g_gt_datanet_pthread s) = 4" "\<exists>row. nth_opt (g_gt_datanet_pthread s) (nat (fd mod 4)) = Some row \<and> pt_data row = g_gt_datanet_poller (nat (fd mod 4))"
    "gpollers s (g_gt_datanet_poller (nat (fd mod 4))) \<noteq> None" "lists s (gp_elist (g_gt_datanet_poller (nat (fd mod 4)))) \<noteq> None"
  using round_dispatch_row [OF coreD(4) [OF assms], of "nat (fd mod 4)" fd] coreD(8) [OF assms]
  by (auto simp: GT_DATANET_PTHREAD_NUM_def)

lemma not_pointed:
  assumes "core s" "gevents s ge = None \<or> (\<exists>gev. gevents s ge = Some gev \<and> op_read (ge_ops gev) = None)"
  shows "\<not> points_at (kern s) ge"
proof
  assume "points_at (kern s) ge"
  then obtain ep kd m fd v where p: "shape (kern s) ep = Some (kd, m)" "m fd = Some v" "ev_ptr v = ge" by (auto simp: points_at_def)
  from assms(2) p(3) show False by (rule_tac entries_okD [OF coreD(1) [OF assms(1)] p(1,2)]) auto
qed

lemma race_inv_dispatch:
  assumes inv: "race_inv w" and a: "r_acc w = A_dispatch fd"
  shows "\<exists>pc s. acc_step (r_acc w) (r_mem w) = Some (pc, s) \<and> race_inv (w\<lparr>r_mem := s, r_acc := pc\<rparr>)"
proof -
  let ?s = "r_mem w" and ?gp = "g_gt_datanet_poller (nat (fd mod 4))"
  have c: "core ?s" and n: "new_sock (kern ?s) fd" using inv a by (auto simp: race_inv_def acc_ok_def)
  note C = coreD [OF c]
  from acc_row(1) [OF c] acc_row(2) [OF c, of fd] obtain row where row: "length (g_gt_datanet_pthread ?s) = 4"
    "nth_opt (g_gt_datanet_pthread ?s) (nat (fd mod 4)) = Some row" "pt_data row = ?gp" by auto
  obtain ge s1 where m: "gt_malloc_mem GT_MOD_CORE GT_MEM_TYPE_FML sizeof_gt_event ?s = (ge, s1)" by fastforce
  note D = a acc_step_def Let_def row m
  from m show ?thesis
  proof (cases rule: malloc_cases)
    case null
    have "race_inv (w\<lparr>r_mem := ?s, r_acc := A_idle\<rparr>)"
      by (rule race_inv_acc [OF inv undisturbed_refl, of "{}"]) (use c in \<open>auto simp: acc_ok_def acc_ge_def\<close>)
    then have "race_inv (w\<lparr>r_mem := s1, r_acc := A_idle\<rparr>)" unfolding null(2) by (rule race_inv_mem) simp
    with null(1) show ?thesis by (simp add: D race_inv_logs)
  next
    case fresh
    have ge: "ge \<noteq> NULL" "blocks ?s ge = None" "gevents ?s ge = None" "lists ?s (ge_list ge) = None"
      using fresh(2) by (auto simp: fresh_block_def)
    let ?ev = "zero_event\<lparr>ge_efd := fd\<rparr>"
    let ?t = "?s\<lparr>kern := next_call (kern ?s), lists := (lists ?s)(ge_list ge \<mapsto> \<lparr>lnext = ge_list ge, lprev = gp_elist ?gp\<rparr>),
      gevents := (gevents ?s)(ge \<mapsto> ?ev), blocks := (blocks ?s)(ge \<mapsto> sizeof_gt_event)\<rparr>"
    have st: "acc_step (r_acc w) ?s = Some (A_head_next fd ?gp ge (ge_list ge), ?t)"
      using ge(1) by (simp add: D fresh(3) memset_event_def put_event_def INIT_LIST_HEAD_def set_next_def set_prev_def get_next_def)
    have nd: "\<not> data_event ?ev" by (simp add: data_event_def zero_event_def)
    have "entries_ok (shape (kern ?t)) (gevents ?t)" by simp (rule entries_events [OF C(1)], use ge(3) in auto)
    moreover have "events_ok (gevents ?t)" using C(2) by (auto simp: events_ok_def zero_event_def)
    moreover have "buffers_ok ?t" using C(3) ge(2) by (fastforce simp: buffers_ok_def)
    moreover have "tables_ok ?t" using C(4) by (simp add: tables_ok_def)
    moreover have "apart ?t" using C(5,8) ge(4) by (fastforce simp: apart_def)
    moreover have "home ?t" using C(12) ge(3) by (fastforce simp: home_def epfd_of_def)
    moreover have "own_sets ?t" using C(13) by (simp add: own_sets_def epfd_of_def)
    moreover have "by_number (gevents ?t)" using C(11) nd by (simp add: by_number_def)
    moreover have "nonblocking (next_call (kern ?s))" using env_nonblocking [OF env_calls(1) C(10)] .
    ultimately have ct: "core ?t" using C(6-9) ge(1) by (auto simp: core_def mild_def)
    have u: "undisturbed {} 4 ?s ?t"
      using ge(3) by (auto simp: undisturbed_def points_at_def epfd_of_def)
    have "race_inv (w\<lparr>r_mem := ?t, r_acc := A_head_next fd ?gp ge (ge_list ge)\<rparr>)"
    proof (rule race_inv_acc [OF inv u _ ct])
      show "acc_ok ?t (A_head_next fd ?gp ge (ge_list ge))"
        using n by (simp add: acc_ok_def building_def new_sock_def unregistered_def)
    qed (use ge(3) nd in \<open>auto simp: acc_ge_def split: if_splits\<close>)
    with st show ?thesis by blast
  qed
qed

lemma race_inv_head:
  assumes inv: "race_inv w" and b: "building (r_mem w) fd gp ge" and p: "acc_ok (r_mem w) pc" "acc_ge pc = acc_ge (r_acc w)" "acc_ge pc = {ge}"
  shows "race_inv (w\<lparr>r_mem := (r_mem w)\<lparr>lists := (lists (r_mem w))(gp_elist gp \<mapsto> x)\<rparr>, r_acc := pc\<rparr>)"
proof -
  have c: "core (r_mem w)" using inv by (simp add: race_inv_def)
  have gp: "gpollers (r_mem w) gp \<noteq> None" using acc_row(3) [OF c] b by (simp add: building_def)
  have ne: "ge_list g \<noteq> gp_elist gp" if "gevents (r_mem w) g \<noteq> None" for g
    using coreD(5) [OF c] gp that by (simp add: apart_def)
  let ?t = "(r_mem w)\<lparr>lists := (lists (r_mem w))(gp_elist gp \<mapsto> x)\<rparr>"
  have u: "undisturbed {} 4 (r_mem w) ?t" using ne by (intro undisturbed_lists) simp
  show ?thesis
  proof (rule race_inv_acc [OF inv u])
    show "core ?t" using c by (rule core_lists) simp
    show "acc_ok ?t pc" by (rule acc_undisturbed [OF p(1) u]) simp_all
  qed (use p in simp_all)
qed

lemma race_inv_head_next:
  assumes inv: "race_inv w" and a: "r_acc w = A_head_next fd gp ge n"
  shows "\<exists>pc s. acc_step (r_acc w) (r_mem w) = Some (pc, s) \<and> race_inv (w\<lparr>r_mem := s, r_acc := pc\<rparr>)"
proof -
  have b: "building (r_mem w) fd gp ge" and c: "core (r_mem w)" using inv a by (auto simp: race_inv_def acc_ok_def)
  from acc_row(4) [OF c] b obtain x where x: "lists (r_mem w) (gp_elist gp) = Some x" by (auto simp: building_def)
  with race_inv_head [OF inv b, of "A_head_prev fd gp ge"] b a show ?thesis
    by (simp add: acc_step_def set_next_def acc_ok_def acc_ge_def)
qed

lemma race_inv_head_prev:
  assumes inv: "race_inv w" and a: "r_acc w = A_head_prev fd gp ge"
  shows "\<exists>pc s. acc_step (r_acc w) (r_mem w) = Some (pc, s) \<and> race_inv (w\<lparr>r_mem := s, r_acc := pc\<rparr>)"
proof -
  have b: "building (r_mem w) fd gp ge" and c: "core (r_mem w)" using inv a by (auto simp: race_inv_def acc_ok_def)
  from acc_row(4) [OF c] b obtain x where x: "lists (r_mem w) (gp_elist gp) = Some x" by (auto simp: building_def)
  with race_inv_head [OF inv b, of "A_close_ring fd gp ge"] b a show ?thesis
    by (simp add: acc_step_def set_prev_def acc_ok_def acc_ge_def)
qed

lemma race_inv_close_ring:
  assumes inv: "race_inv w" and a: "r_acc w = A_close_ring fd gp ge"
  shows "\<exists>pc s. acc_step (r_acc w) (r_mem w) = Some (pc, s) \<and> race_inv (w\<lparr>r_mem := s, r_acc := pc\<rparr>)"
proof -
  let ?s = "r_mem w" and ?ev = "with_reader FN_datanet_ops_read (created_event fd gp)"
  have b: "building ?s fd gp ge" and c: "core ?s" using inv a by (auto simp: race_inv_def acc_ok_def)
  note C = coreD [OF c]
  have g: "gevents ?s ge = Some (zero_event\<lparr>ge_efd := fd\<rparr>)" "gp = g_gt_datanet_poller (nat (fd mod 4))" using b by (simp_all add: building_def)
  let ?t = "?s\<lparr>lists := (lists ?s)(ge_list ge \<mapsto> \<lparr>lnext = gp_elist gp, lprev = gp_elist gp\<rparr>), gevents := (gevents ?s)(ge \<mapsto> ?ev)\<rparr>"
  have st: "acc_step (r_acc w) ?s = Some (A_start fd ge, ?t)"
    using b a by (simp add: acc_step_def set_next_def building_def put_event_def with_reader_def created_event_def)
  have np: "\<not> points_at (kern ?s) ge" using g(1) by (intro not_pointed [OF c]) (simp add: zero_event_def)
  then have ne: "ev_ptr v \<noteq> ge" if "shape (kern ?s) ep = Some (kd, m)" "m x = Some v" for ep kd m x v
    using that by (auto simp: points_at_def)
  have "entries_ok (shape (kern ?t)) (gevents ?t)" unfolding entries_ok_def
  proof (intro allI impI)
    fix ep kd m x v assume v: "shape (kern ?t) ep = Some (kd, m)" "m x = Some v"
    then have "ev_ptr v \<noteq> ge" using ne by simp
    with C(1) v show "\<exists>kd' m' gev fn. shape (kern ?t) x = Some (kd', m') \<and> gevents ?t (ev_ptr v) = Some gev \<and> ge_efd gev = x \<and>
        ev_events v AND EPOLLOUT = 0 \<and> op_read (ge_ops gev) = Some fn \<and> (fn = FN_datanet_ops_read \<longrightarrow> stream kd')"
      unfolding entries_ok_def by simp
  qed
  moreover have "events_ok (gevents ?t)" using C(2) by (auto simp: events_ok_def with_reader_def created_event_def zero_event_def)
  moreover have "buffers_ok ?t" using C(3) g(1) by (fastforce simp: buffers_ok_def)
  moreover have "tables_ok ?t" using C(4) by (simp add: tables_ok_def)
  moreover have "apart ?t" using C(5) g(1) by (fastforce simp: apart_def)
  moreover have "home ?t" using C(12) ne by (fastforce simp: home_def epfd_of_def)
  moreover have "own_sets ?t" using C(13) by (simp add: own_sets_def epfd_of_def)
  moreover have "by_number (gevents ?t)" using C(11) g(2) by (simp add: by_number_def with_reader_def)
  ultimately have ct: "core ?t" using C(6-10) g(1) by (auto simp: core_def)
  have u: "undisturbed {ge} 4 ?s ?t" by (auto simp: undisturbed_def epfd_of_def)
  have "race_inv (w\<lparr>r_mem := ?t, r_acc := A_start fd ge\<rparr>)"
    by (rule race_inv_acc [OF inv u _ ct]) (use a b g in \<open>auto simp: acc_ok_def acc_ge_def building_def with_reader_def\<close>)
  with st show ?thesis by blast
qed

text \<open>
  \<open>epoll_ctl\<close> for an event in the set of its own poller: \<open>v\<close> replaces or becomes the entry of the
  event's descriptor, or nothing changes.
\<close>

lemma ctl_effect:
  assumes "sys_epoll_ctl ep cop fd v k = (r, k')" "cop \<noteq> EPOLL_CTL_DEL"
  shows "k_fault k' = k_fault k" "map_option f_flags (file_at k' a) = map_option f_flags (file_at k a)"
    "shape k' = shape k \<or> (\<exists>m. shape k ep = Some (FK_epoll, m) \<and> shape k' = (shape k)(ep \<mapsto> (FK_epoll, m(fd \<mapsto> v))))"
proof -
  show "k_fault k' = k_fault k" using assms(1) plans_epoll_ctl(1) [of ep cop fd v k] by simp
  show "shape k' = shape k \<or> (\<exists>m. shape k ep = Some (FK_epoll, m) \<and> shape k' = (shape k)(ep \<mapsto> (FK_epoll, m(fd \<mapsto> v))))"
    using shape_epoll_ctl [OF assms(2), of ep fd v k] assms(1) by auto
  have "same_but_interest (file_at k' a) (file_at k a)" using epoll_ctl_frame assms(1) by (metis snd_conv)
  then show "map_option f_flags (file_at k' a) = map_option f_flags (file_at k a)"
    by (auto simp: same_but_interest_def split: option.splits)
qed

lemma ctl_core:
  assumes c: "core s" and g: "gevents s ge = Some gev" "data_event gev" "ge_gpoller gev = g_gt_datanet_poller i" "i \<in> data_pcs"
    and fd: "shape (kern s) (ge_efd gev) = Some (FK_sock, n)"
    and k: "sys_epoll_ctl (epfd_of s i) cop (ge_efd gev) v (kern s) = (r, k)" "cop \<noteq> EPOLL_CTL_DEL"
    and v: "ev_ptr v = ge" "ev_events v AND EPOLLOUT = 0"
  shows "core ((put_event ge (gev\<lparr>ge_e := v\<rparr>) s)\<lparr>kern := k\<rparr>)"
proof -
  note C = coreD [OF c]
  let ?t = "(put_event ge (gev\<lparr>ge_e := v\<rparr>) s)\<lparr>kern := k\<rparr>"
  have op: "op_read (ge_ops gev) = Some FN_datanet_ops_read" using g(2) by (simp add: data_event_def)
  have lk: "link_ok (shape (kern s)) (ge_efd gev) FN_datanet_ops_read" using fd by (simp add: link_ok_def stream_def)
  note R = register_entries [OF C(1,2) g(1) op lk v k(2,1) refl]
  note E = ctl_effect [OF k]
  have kinds: "map_option fst (shape k a) = map_option fst (shape (kern s) a)" for a using E(3) by auto
  have de: "data_event (gev\<lparr>ge_e := v\<rparr>)" using g(2) by (simp add: data_event_def)
  have "nonblocking k" unfolding nonblocking_def
  proof (intro allI impI)
    fix a f assume f: "file_at k a = Some f" "f_kind f = FK_sock"
    with kinds [of a] E(2) [of a] obtain f0 where "file_at (kern s) a = Some f0" "f_kind f0 = FK_sock" "f_flags f0 = f_flags f"
      by (cases "file_at (kern s) a") (auto simp: shape_def)
    with C(10) show "f_flags f AND O_NONBLOCK \<noteq> 0" unfolding nonblocking_def by metis
  qed
  moreover have "home ?t" unfolding home_def
  proof (intro ballI allI impI)
    fix j m x u assume j: "j \<in> data_pcs" and m: "shape (kern ?t) (epfd_of ?t j) = Some (FK_epoll, m)" "m x = Some u"
    have e: "epfd_of ?t j = epfd_of s j" by (simp add: put_event_def)
    have sock: "\<exists>n'. shape k y = Some (FK_sock, n')" if "shape (kern s) y = Some (FK_sock, n0)" for y n0
      using kinds [of y] that by auto
    show "\<exists>gev' n. gevents ?t (ev_ptr u) = Some gev' \<and> ge_efd gev' = x \<and> data_event gev' \<and>
      ge_gpoller gev' = g_gt_datanet_poller j \<and> shape (kern ?t) x = Some (FK_sock, n)"
    proof (cases "\<exists>m0. shape (kern s) (epfd_of s j) = Some (FK_epoll, m0) \<and> m0 x = Some u")
      case True
      with C(12) j obtain gev' n where h: "gevents s (ev_ptr u) = Some gev'" "ge_efd gev' = x" "data_event gev'"
        "ge_gpoller gev' = g_gt_datanet_poller j" "shape (kern s) x = Some (FK_sock, n)" unfolding home_def by blast
      with sock [OF h(5)] g de show ?thesis by (cases "ev_ptr u = ge") (auto simp: put_event_def)
    next
      case False
      with E(3) m e obtain m0 where sh: "shape (kern s) (epfd_of s i) = Some (FK_epoll, m0)"
        and eq: "epfd_of s j = epfd_of s i" "x = ge_efd gev" "u = v"
        by (auto split: if_splits)
      with C(13) j g(4) have "j = i" unfolding own_sets_def by metis
      with sock [OF fd] g de eq v(1) show ?thesis by (auto simp: put_event_def)
    qed
  qed
  moreover have "own_sets ?t" using kinds by (intro own_sets_frame [OF C(13)]) (simp_all add: put_event_def)
  moreover have "shape k 0 = Some (FK_file, Map.empty)" using C(9) E(3) by auto
  moreover have "mild k" using C(6) mild_frame [OF E(1)] by simp
  moreover have "by_number (gevents ?t)" using C(11) g(1) de g(2) by (auto simp: by_number_def put_event_def)
  moreover have "buffers_ok ?t" "tables_ok ?t" "apart ?t" using C(3-5) g(1) by (fastforce simp: buffers_ok_def tables_ok_def apart_def put_event_def)+
  moreover have "entries_ok (shape (kern ?t)) (gevents ?t)" "events_ok (gevents ?t)" using R by (simp_all add: put_event_def)
  ultimately show ?thesis using C(7,8) g(1) by (auto simp: core_def put_event_def)
qed

lemma ctl_undisturbed:
  assumes k: "sys_epoll_ctl (epfd_of s i) cop (ge_efd gev) v (kern s) = (r, k)" "cop \<noteq> EPOLL_CTL_DEL" and v: "ev_ptr v = ge"
    and old: "\<And>m u. shape (kern s) (epfd_of s i) = Some (FK_epoll, m) \<Longrightarrow> m (ge_efd gev) = Some u \<Longrightarrow> ev_ptr u = ge"
  shows "undisturbed {ge} j s ((put_event ge gev' s)\<lparr>kern := k\<rparr>)"
proof -
  from ctl_effect(3) [OF k] show ?thesis
  proof
    assume "shape k = shape (kern s)"
    then show ?thesis by (auto simp: undisturbed_def points_at_def put_event_def)
  next
    assume "\<exists>m. shape (kern s) (epfd_of s i) = Some (FK_epoll, m) \<and> shape k = (shape (kern s))(epfd_of s i \<mapsto> (FK_epoll, m(ge_efd gev \<mapsto> v)))"
    then obtain m where m: "shape (kern s) (epfd_of s i) = Some (FK_epoll, m)"
      "shape k = (shape (kern s))(epfd_of s i \<mapsto> (FK_epoll, m(ge_efd gev \<mapsto> v)))" by blast
    have "points_at (kern s) a" if "points_at k a" "a \<noteq> ge" for a
      using that m v unfolding points_at_def by (auto split: if_splits) blast+
    moreover have "\<exists>m'. shape k (epfd_of s j) = Some (FK_epoll, m') \<and>
        (\<forall>fd u. m0 fd = Some u \<longrightarrow> ev_ptr u \<noteq> ge \<longrightarrow> (\<exists>v'. m' fd = Some v' \<and> ev_ptr v' = ev_ptr u))"
      if "shape (kern s) (epfd_of s j) = Some (FK_epoll, m0)" for j m0
      using that m old [OF m(1)] by auto
    ultimately show ?thesis by (simp add: undisturbed_def put_event_def)
  qed
qed

lemma race_inv_start:
  assumes inv: "race_inv w" and a: "r_acc w = A_start fd ge"
  shows "\<exists>pc s. acc_step (r_acc w) (r_mem w) = Some (pc, s) \<and> race_inv (w\<lparr>r_mem := s, r_acc := pc\<rparr>)"
proof -
  let ?s = "r_mem w" and ?i = "nat (fd mod 4)"
  let ?gev = "with_reader FN_datanet_ops_read (created_event fd (g_gt_datanet_poller ?i))"
  let ?v = "\<lparr>ev_events = EPOLLIN, ev_ptr = ge\<rparr>"
  have c: "core ?s" and n: "new_sock (kern ?s) fd" and g: "gevents ?s ge = Some ?gev" using inv a by (auto simp: race_inv_def acc_ok_def)
  from n obtain m where fd: "shape (kern ?s) fd = Some (FK_sock, m)" and un: "unregistered (kern ?s) fd" by (auto simp: new_sock_def)
  from acc_row(3) [OF c, of fd] obtain p where p: "gpollers ?s (g_gt_datanet_poller ?i) = Some p" by auto
  have ep: "gp_epfd p = epfd_of ?s ?i" by (simp add: epfd_of_def p)
  have f: "ge_efd ?gev = fd" "data_event ?gev" "ge_gpoller ?gev = g_gt_datanet_poller ?i" "ev_events (ge_e ?gev) = 0"
    by (simp_all add: with_reader_def data_event_def)
  obtain r k where k: "sys_epoll_ctl (epfd_of ?s ?i) EPOLL_CTL_ADD (ge_efd ?gev) ?v (kern ?s) = (r, k)" by fastforce
  let ?t = "(put_event ge (?gev\<lparr>ge_e := ?v\<rparr>) ?s)\<lparr>kern := k\<rparr>"
  have st: "gt_poller_event_start EPOLLIN ge ?s = Some (if r \<noteq> GT_OK then (r, GT_ERROR_LOG GT_MOD_CORE
      ''Failed to epoll_ctl to epfd[%d]! errno:%d, %s'' [AInt (gp_epfd p), AInt (k_errno k), AErrstr (k_errno k)] ?t) else (GT_OK, ?t))"
    using f p k ep by (intro event_start_eval [OF g]) simp_all
  have ct: "core ?t" using fd f g mod4_data by (intro ctl_core [OF c _ _ _ _ _ k]) (auto simp: epoll_flag_defs)
  have u: "undisturbed {ge} 4 ?s ?t" using un f by (intro ctl_undisturbed [OF k]) (fastforce simp: unregistered_def)+
  have l: "lists ?s (ge_list ge) = Some \<lparr>lnext = gp_elist (ge_gpoller ?gev), lprev = gp_elist (ge_gpoller ?gev)\<rparr>"
  proof -
    have "ge \<notin> (\<Union>i \<in> data_pcs. dat_unlinked (r_dat w i))"
      using inv a by (fastforce simp: race_inv_def acc_ge_def dat_ge_def dat_unlinked_def split: dat_pc.splits)
    with inv g f(2) show ?thesis by (simp add: race_inv_def linked_def)
  qed
  have "race_inv (w\<lparr>r_mem := ?t, r_acc := A_idle\<rparr>)"
    by (rule race_inv_acc [OF inv u _ ct]) (use a g l in \<open>auto simp: acc_ok_def acc_ge_def put_event_def split: if_splits\<close>)
  with st a show ?thesis by (simp add: acc_step_def Let_def race_inv_logs)
qed

lemma race_inv_acc_step:
  assumes "race_inv w"
  shows "\<exists>pc s. acc_step (r_acc w) (r_mem w) = Some (pc, s) \<and> race_inv (w\<lparr>r_mem := s, r_acc := pc\<rparr>)"
proof (cases "r_acc w")
  case A_idle
  with assms have "race_inv (w\<lparr>r_acc := A_idle\<rparr>)" by (cases w) simp
  with A_idle show ?thesis by (simp add: acc_step_def)
qed (use assms race_inv_dispatch race_inv_head_next race_inv_head_prev race_inv_close_ring race_inv_start in blast)+

subsection \<open>Steps of a data thread\<close>

lemma dat_poller:
  assumes "core s" "i \<in> data_pcs"
  obtains p where "gpollers s (g_gt_datanet_poller i) = Some p" "gp_epfd p = epfd_of s i"
    "lists s (gp_elist (g_gt_datanet_poller i)) \<noteq> None" "\<And>ge. gevents s ge \<noteq> None \<Longrightarrow> ge_list ge \<noteq> gp_elist (g_gt_datanet_poller i)"
proof -
  from assms have "gpollers s (g_gt_datanet_poller i) \<noteq> None"
    using datanet_row(3) [OF coreD(4) [OF assms(1)]] by (simp add: data_pcs_def)
  with that coreD(5,8) [OF assms(1)] show ?thesis by (auto simp: epfd_of_def apart_def)
qed

text \<open>A store to the list head of the thread's own poller.\<close>

lemma race_inv_own_head:
  assumes inv: "race_inv w" and i: "i \<in> data_pcs" and d: "dat_ok (r_mem w) i pc" "dat_ge pc = dat_ge (r_dat w i)" "dat_unlinked pc = dat_unlinked (r_dat w i)"
    and dn: "r_dat w i \<noteq> D_start" "pc \<noteq> D_start"
  shows "race_inv (w\<lparr>r_mem := (r_mem w)\<lparr>lists := (lists (r_mem w))(gp_elist (g_gt_datanet_poller i) \<mapsto> x)\<rparr>, r_dat := (r_dat w)(i := pc)\<rparr>)"
proof -
  have c: "core (r_mem w)" using inv by (simp add: race_inv_def)
  let ?t = "(r_mem w)\<lparr>lists := (lists (r_mem w))(gp_elist (g_gt_datanet_poller i) \<mapsto> x)\<rparr>"
  have u: "undisturbed {} j (r_mem w) ?t" for j
    by (rule dat_poller [OF c i]) (intro undisturbed_lists, simp)
  have dt: "dat_ok ?t i pc" by (rule dat_undisturbed [OF u [of "Suc i"] d(1) _ i]) simp_all
  show ?thesis
  proof (rule race_inv_dat [OF inv i u])
    show "core ?t" using c by (rule core_lists) simp
    show "acc_ge (r_acc w) \<inter> dat_ge pc = {}" using inv i d(2) by (simp add: race_inv_def)
  qed (use d dt in simp_all)
qed

lemma race_inv_init_next:
  assumes inv: "race_inv w" and i: "i \<in> data_pcs" and a: "r_dat w i = D_init_next \<or> r_dat w i = D_init_prev"
  shows "\<exists>pc s. dat_step i rdy (r_dat w i) (r_mem w) = Some (pc, s) \<and> race_inv (w\<lparr>r_mem := s, r_dat := (r_dat w)(i := pc)\<rparr>)"
proof -
  have c: "core (r_mem w)" using inv by (simp add: race_inv_def)
  obtain x where x: "lists (r_mem w) (gp_elist (g_gt_datanet_poller i)) = Some x" by (rule dat_poller [OF c i]) auto
  from a show ?thesis
  proof
    assume "r_dat w i = D_init_next"
    with race_inv_own_head [OF inv i, of D_init_prev] x show ?thesis
      by (simp add: dat_step_def Let_def set_next_def dat_ok_def dat_ge_def dat_unlinked_def)
  next
    assume "r_dat w i = D_init_prev"
    with race_inv_own_head [OF inv i, of D_wait] x show ?thesis
      by (simp add: dat_step_def Let_def set_prev_def dat_ok_def dat_ge_def dat_unlinked_def)
  qed
qed

lemma race_inv_idle_dat:
  assumes inv: "race_inv w" and i: "i \<in> data_pcs" and d: "dat_ok (r_mem w) i pc" "dat_ge pc \<subseteq> dat_ge (r_dat w i)"
    "dat_unlinked (r_dat w i) = {}" "dat_unlinked pc = {}"
  shows "race_inv (w\<lparr>r_mem := r_mem w, r_dat := (r_dat w)(i := pc)\<rparr>)"
proof (rule race_inv_dat [OF inv i undisturbed_refl, of "{}"])
  show "core (r_mem w)" using inv by (simp add: race_inv_def)
  show "acc_ge (r_acc w) \<inter> dat_ge pc = {}" using inv i d(2) by (auto simp: race_inv_def)
qed (use d in simp_all)

lemma held_facts:
  assumes c: "core s" and i: "i \<in> data_pcs" and h: "held s i ge"
  obtains gev m v n where "gevents s ge = Some gev" "data_event gev" "ge_gpoller gev = g_gt_datanet_poller i"
    "shape (kern s) (epfd_of s i) = Some (FK_epoll, m)" "m (ge_efd gev) = Some v" "ev_ptr v = ge"
    "shape (kern s) (ge_efd gev) = Some (FK_sock, n)"
proof -
  from h obtain gev m v where g: "gevents s ge = Some gev" "data_event gev" "ge_gpoller gev = g_gt_datanet_poller i"
    "shape (kern s) (epfd_of s i) = Some (FK_epoll, m)" "m (ge_efd gev) = Some v" "ev_ptr v = ge" by (auto simp: held_def)
  moreover from coreD(12) [OF c] i g(4,5) obtain n where "shape (kern s) (ge_efd gev) = Some (FK_sock, n)"
    unfolding home_def by blast
  ultimately show ?thesis using that by blast
qed

lemma held_linked:
  assumes inv: "race_inv w" and i: "i \<in> data_pcs" and u: "ge \<notin> dat_unlinked (r_dat w i)"
    and g: "gevents (r_mem w) ge = Some gev" "data_event gev" "ge_gpoller gev = g_gt_datanet_poller i"
  shows "lists (r_mem w) (ge_list ge) = Some \<lparr>lnext = gp_elist (g_gt_datanet_poller i), lprev = gp_elist (g_gt_datanet_poller i)\<rparr>"
proof -
  have sub: "dat_unlinked pc \<subseteq> dat_ge pc" for pc by (auto simp: dat_unlinked_def dat_ge_def split: dat_pc.splits)
  have "ge \<notin> dat_unlinked (r_dat w j)" if j: "j \<in> data_pcs" for j
  proof
    assume x: "ge \<in> dat_unlinked (r_dat w j)"
    have "dat_ok (r_mem w) j (r_dat w j)" using inv j by (simp add: race_inv_def)
    moreover have "ge \<in> dat_ge (r_dat w j)" using sub x by blast
    ultimately have "g_gt_datanet_poller j = g_gt_datanet_poller i" using dat_ge_owner g by fastforce
    then have "j = i" by (rule dgp_inj [OF j i])
    with x u show False by simp
  qed
  with inv g show ?thesis by (simp add: race_inv_def linked_def)
qed

text \<open>One call of \<open>gt_poller_event_stop\<close>: the entry keeps the event's address.\<close>

lemma stop_effect:
  assumes c: "core s" and i: "i \<in> data_pcs" and h: "held s i ge"
  obtains r t k where "gt_poller_event_stop fl ge s = Some (r, t\<lparr>kern := k\<rparr>)" "env_change (kern t) k" "core t"
    "undisturbed {ge} i s t" "held t i ge" "lists t = lists s" "\<And>fd. new_sock (kern s) fd \<Longrightarrow> new_sock (kern t) fd"
    "\<And>a. gevents s a = None \<Longrightarrow> gevents t a = None"
    "\<And>gev gev'. gevents s ge = Some gev \<Longrightarrow> gevents t ge = Some gev' \<Longrightarrow> ge_gpoller gev' = ge_gpoller gev"
proof (rule held_facts [OF c i h])
  fix gev m v n
  assume g: "gevents s ge = Some gev" "data_event gev" "ge_gpoller gev = g_gt_datanet_poller i"
    "shape (kern s) (epfd_of s i) = Some (FK_epoll, m)" "m (ge_efd gev) = Some v" "ev_ptr v = ge"
    "shape (kern s) (ge_efd gev) = Some (FK_sock, n)"
  obtain p where p: "gpollers s (g_gt_datanet_poller i) = Some p" "gp_epfd p = epfd_of s i" by (rule dat_poller [OF c i])
  show thesis
  proof (cases "ev_events (ge_e gev) AND fl = 0")
    case True
    with g(1) have "gt_poller_event_stop fl ge s = Some (GT_OK, s\<lparr>kern := kern s\<rparr>)" by (simp add: gt_poller_event_stop_def)
    with that [of GT_OK "kern s" s] c h show thesis by simp
  next
    case False
    let ?v = "(ge_e gev)\<lparr>ev_events := ev_events (ge_e gev) AND NOT fl\<rparr>"
    obtain r k where k: "sys_epoll_ctl (epfd_of s i) EPOLL_CTL_MOD (ge_efd gev) ?v (kern s) = (r, k)" by fastforce
    let ?t = "(put_event ge (gev\<lparr>ge_e := ?v\<rparr>) s)\<lparr>kern := k\<rparr>"
    from False have "ev_events (ge_e gev) \<noteq> 0" by auto
    with coreD(2) [OF c] g(1) have e: "ev_ptr ?v = ge" "ev_events (ge_e gev) AND EPOLLOUT = 0" by (auto simp: events_ok_def)
    have "(ev_events (ge_e gev) AND NOT fl) AND EPOLLOUT = (ev_events (ge_e gev) AND EPOLLOUT) AND NOT fl" by (simp add: ac_simps)
    with e(2) have e2: "ev_events ?v AND EPOLLOUT = 0" by simp
    have st: "gt_poller_event_stop fl ge s = Some (if r \<noteq> GT_OK then (r, GT_ERROR_LOG GT_MOD_CORE
        ''Failed to epoll_ctl to epfd[%d]! errno:%d, %s'' [AInt (gp_epfd p), AInt (k_errno k), AErrstr (k_errno k)] ?t) else (GT_OK, ?t))"
      using g(3) p k by (intro event_stop_eval [OF g(1) _ False]) simp_all
    have ct: "core ?t" using ctl_core [OF c g(1-3) i g(7) k _ e(1) e2] by simp
    have u: "undisturbed {ge} i s ?t" using g by (intro ctl_undisturbed [OF k _ e(1)]) auto
    have ex: "\<exists>m' v'. shape k (epfd_of s i) = Some (FK_epoll, m') \<and> m' (ge_efd gev) = Some v' \<and> ev_ptr v' = ge"
      using ctl_effect(3) [OF k] g(4-6) e(1) by auto
    then have ht: "held ?t i ge" using g(2,3) by (simp add: held_def put_event_def data_event_def)
    have ns: "new_sock k fd" if "new_sock (kern s) fd" for fd
    proof -
      have "fd \<noteq> ge_efd gev" using that g(4,5) by (fastforce simp: new_sock_def unregistered_def)
      with that ctl_effect(3) [OF k] g(4) show ?thesis by (auto simp: new_sock_def unregistered_def split: if_splits)
    qed
    have "\<exists>r' k'. gt_poller_event_stop fl ge s = Some (r', ?t\<lparr>kern := k'\<rparr>) \<and> env_change k k'"
    proof (cases "r = GT_OK")
      case False
      with st show ?thesis by (simp add: GT_ERROR_LOG_def) (metis env_calls(3))
    qed (use st in \<open>auto intro!: exI [of _ k]\<close>)
    then obtain r' k' where "gt_poller_event_stop fl ge s = Some (r', ?t\<lparr>kern := k'\<rparr>)" "env_change k k'" by blast
    then show thesis
      by (intro that [of r' k' ?t] ct u ht) (use ns g(1) in \<open>auto simp: put_event_def split: if_splits\<close>)
  qed
qed

lemma race_inv_stop:
  assumes inv: "race_inv w" and i: "i \<in> data_pcs" and h: "working (held (r_mem w) i) (r_mem w) i ge ret evs"
    and pc: "r_dat w i = D_stop ge ret evs \<or> r_dat w i = D_stop_again ge ret evs"
  shows "\<exists>r s. gt_poller_event_stop fl ge (r_mem w) = Some (r, s) \<and>
    race_inv (w\<lparr>r_mem := s, r_dat := (r_dat w)(i := D_stop_again ge ret evs)\<rparr>) \<and>
    race_inv (w\<lparr>r_mem := s, r_dat := (r_dat w)(i := D_del_prev ge ret evs)\<rparr>)"
proof -
  let ?s = "r_mem w"
  have c: "core ?s" using inv by (simp add: race_inv_def)
  have hd: "held ?s i ge" using h by (simp add: working_def)
  show ?thesis
  proof (rule stop_effect [OF c i hd, of fl])
    fix r t k
    assume t: "gt_poller_event_stop fl ge ?s = Some (r, t\<lparr>kern := k\<rparr>)" "env_change (kern t) k" "core t"
      "undisturbed {ge} i ?s t" "held t i ge" "lists t = lists ?s" "\<And>fd. new_sock (kern ?s) fd \<Longrightarrow> new_sock (kern t) fd"
      "\<And>a. gevents ?s a = None \<Longrightarrow> gevents t a = None"
      "\<And>gev gev'. gevents ?s ge = Some gev \<Longrightarrow> gevents t ge = Some gev' \<Longrightarrow> ge_gpoller gev' = ge_gpoller gev"
    have wt: "working (held t i) t i ge ret evs"
      using h t(5) batch_undisturbed [OF t(4) _ _ i, of evs] by (simp add: working_def)
    have "race_inv (w\<lparr>r_mem := t, r_dat := (r_dat w)(i := pc')\<rparr>)"
      if "pc' = D_stop_again ge ret evs \<or> pc' = D_del_prev ge ret evs" for pc'
    proof (rule race_inv_dat [OF inv i t(4) _ t(7,3)])
      show "{ge} \<subseteq> dat_ge (r_dat w i)" using pc by (auto simp: dat_ge_def)
      show "dat_ok t i pc'" using that wt by (auto simp: dat_ok_def)
      show "dat_unlinked (r_dat w i) \<subseteq> {ge} \<union> dat_unlinked pc'" using pc by (auto simp: dat_unlinked_def)
      have "dat_ge pc' = dat_ge (r_dat w i)" using pc that by (auto simp: dat_ge_def)
      then show "acc_ge (r_acc w) \<inter> dat_ge pc' = {}" using inv i by (simp add: race_inv_def)
      fix a gev assume a: "gevents t a = Some gev" "gevents ?s a = None \<or> a \<in> {ge}"
      with t(8) have ae: "a = ge" by auto
      obtain gev0 where g0: "gevents ?s ge = Some gev0" "data_event gev0" "ge_gpoller gev0 = g_gt_datanet_poller i"
        using hd by (auto simp: held_def)
      have "lists ?s (ge_list ge) = Some \<lparr>lnext = gp_elist (g_gt_datanet_poller i), lprev = gp_elist (g_gt_datanet_poller i)\<rparr>"
        by (rule held_linked [OF inv i _ g0]) (use pc in \<open>auto simp: dat_unlinked_def\<close>)
      with a(1) ae t(6) t(9) [OF g0(1)] g0(3)
      show "lists t (ge_list a) = Some \<lparr>lnext = gp_elist (ge_gpoller gev), lprev = gp_elist (ge_gpoller gev)\<rparr>" by simp
    qed
    with t(1) race_inv_mem(2) [OF _ t(2)] show ?thesis by blast
  qed
qed

lemma race_inv_stops:
  assumes inv: "race_inv w" and i: "i \<in> data_pcs" and pc: "r_dat w i = D_stop ge ret evs \<or> r_dat w i = D_stop_again ge ret evs"
  shows "\<exists>pc s. dat_step i rdy (r_dat w i) (r_mem w) = Some (pc, s) \<and> race_inv (w\<lparr>r_mem := s, r_dat := (r_dat w)(i := pc)\<rparr>)"
proof -
  have h: "working (held (r_mem w) i) (r_mem w) i ge ret evs" using inv i pc by (auto simp: race_inv_def dat_ok_def dest!: bspec [of _ _ i])
  then obtain gev where g: "gevents (r_mem w) ge = Some gev" by (auto simp: working_def held_def)
  note S = race_inv_stop [OF inv i h pc]
  from pc show ?thesis
  proof
    assume p: "r_dat w i = D_stop ge ret evs"
    from S [of EPOLLIN] p show ?thesis by (auto simp: dat_step_def Let_def)
  next
    assume p: "r_dat w i = D_stop_again ge ret evs"
    from S [of "ev_events (ge_e gev)"] p g show ?thesis by (auto simp: dat_step_def Let_def)
  qed
qed

lemma race_inv_del_prev:
  assumes inv: "race_inv w" and i: "i \<in> data_pcs" and pc: "r_dat w i = D_del_prev ge ret evs"
  shows "\<exists>pc s. dat_step i rdy (r_dat w i) (r_mem w) = Some (pc, s) \<and> race_inv (w\<lparr>r_mem := s, r_dat := (r_dat w)(i := pc)\<rparr>)"
proof -
  let ?e = "gp_elist (g_gt_datanet_poller i)"
  have c: "core (r_mem w)" and h: "working (held (r_mem w) i) (r_mem w) i ge ret evs"
    using inv i pc by (auto simp: race_inv_def dat_ok_def dest!: bspec [of _ _ i])
  then obtain gev where g: "gevents (r_mem w) ge = Some gev" "data_event gev" "ge_gpoller gev = g_gt_datanet_poller i"
    by (auto simp: working_def held_def)
  have l: "lists (r_mem w) (ge_list ge) = Some \<lparr>lnext = ?e, lprev = ?e\<rparr>"
    by (rule held_linked [OF inv i _ g]) (simp add: pc dat_unlinked_def)
  obtain x where x: "lists (r_mem w) ?e = Some x" by (rule dat_poller [OF c i]) auto
  from race_inv_own_head [OF inv i, of "D_del_next ge ?e ?e ret evs"] l x h pc show ?thesis
    by (simp add: dat_step_def Let_def get_next_def get_prev_def set_prev_def dat_ok_def dat_ge_def dat_unlinked_def)
qed

lemma race_inv_del_next:
  assumes inv: "race_inv w" and i: "i \<in> data_pcs" and pc: "r_dat w i = D_del_next ge p n ret evs"
  shows "\<exists>pc s. dat_step i rdy (r_dat w i) (r_mem w) = Some (pc, s) \<and> race_inv (w\<lparr>r_mem := s, r_dat := (r_dat w)(i := pc)\<rparr>)"
proof -
  let ?s = "r_mem w" and ?e = "gp_elist (g_gt_datanet_poller i)"
  have c: "core ?s" and h: "working (held ?s i) ?s i ge ret evs" and pn: "p = ?e" "n = ?e"
    using inv i pc by (auto simp: race_inv_def dat_ok_def dest!: bspec [of _ _ i])
  from h obtain gev where g: "gevents ?s ge = Some gev" "data_event gev" "ge_gpoller gev = g_gt_datanet_poller i"
    by (auto simp: working_def held_def)
  have l: "lists ?s (ge_list ge) = Some \<lparr>lnext = ?e, lprev = ?e\<rparr>"
    by (rule held_linked [OF inv i _ g]) (simp add: pc dat_unlinked_def)
  obtain x where x: "lists ?s ?e = Some x" and ne: "\<And>a. gevents ?s a \<noteq> None \<Longrightarrow> ge_list a \<noteq> ?e"
    by (rule dat_poller [OF c i]) auto
  let ?h = "(lists ?s)(?e \<mapsto> x\<lparr>lnext := ?e\<rparr>, ge_list ge \<mapsto> \<lparr>lnext = LIST_POISON1, lprev = LIST_POISON2\<rparr>)"
  let ?t = "?s\<lparr>lists := ?h\<rparr>"
  have st: "dat_step i rdy (r_dat w i) ?s = Some (D_close ge ret evs, ?t)"
    using pc pn x l ne [of ge] g(1) by (simp add: dat_step_def Let_def set_next_def set_prev_def)
  have u: "undisturbed {ge} j ?s ?t" for j using ne by (intro undisturbed_lists) auto
  have "race_inv (w\<lparr>r_mem := ?t, r_dat := (r_dat w)(i := D_close ge ret evs)\<rparr>)"
  proof (rule race_inv_dat [OF inv i u])
    show "core ?t" using c by (rule core_lists) simp
    have "held ?t i ge" using h by (simp add: working_def held_def)
    then show "dat_ok ?t i (D_close ge ret evs)"
      using h batch_undisturbed [OF u _ _ i, of evs] by (simp add: dat_ok_def working_def)
    show "acc_ge (r_acc w) \<inter> dat_ge (D_close ge ret evs) = {}" using inv i pc by (auto simp: race_inv_def dat_ge_def dest!: bspec [of _ _ i])
  qed (use pc in \<open>auto simp: dat_ge_def dat_unlinked_def\<close>)
  with st show ?thesis by blast
qed

lemma close_core:
  assumes c: "core s" and fd: "shape (kern s) fd = Some (FK_sock, n)"
  shows "core (s\<lparr>kern := snd (sys_close fd (kern s))\<rparr>)"
proof -
  note C = coreD [OF c]
  let ?k = "snd (sys_close fd (kern s))" and ?t = "s\<lparr>kern := snd (sys_close fd (kern s))\<rparr>"
  have sh: "shape ?k = (\<lambda>a. if a = fd then None else map_option (\<lambda>(kd, m). (kd, m(fd := None))) (shape (kern s) a))"
    using fd by (auto simp: shape_close fun_eq_iff)
  obtain f where f: "file_at (kern s) fd = Some f" using fd by (auto simp: shape_def)
  have "nonblocking ?k" using C(10) unfolding nonblocking_def
    by (fastforce simp: file_at_sys_close(2) [OF f] hang_up_def drop_interest_def split: if_splits)
  moreover have "home ?t" unfolding home_def
  proof (intro ballI allI impI)
    fix j m x v assume j: "j \<in> data_pcs" and m: "shape (kern ?t) (epfd_of ?t j) = Some (FK_epoll, m)" "m x = Some v"
    then obtain m0 where m0: "shape (kern s) (epfd_of s j) = Some (FK_epoll, m0)" "m0 x = Some v" "x \<noteq> fd"
      by (auto simp: sh split: if_splits)
    with C(12) j obtain gev n0 where h: "gevents s (ev_ptr v) = Some gev" "ge_efd gev = x" "data_event gev"
      "ge_gpoller gev = g_gt_datanet_poller j" "shape (kern s) x = Some (FK_sock, n0)" unfolding home_def by blast
    with m0(3) show "\<exists>gev n. gevents ?t (ev_ptr v) = Some gev \<and> ge_efd gev = x \<and> data_event gev \<and>
        ge_gpoller gev = g_gt_datanet_poller j \<and> shape (kern ?t) x = Some (FK_sock, n)" by (simp add: sh)
  qed
  moreover have "own_sets ?t"
  proof (rule own_sets_frame [OF C(13)])
    fix j assume j: "j \<in> data_pcs"
    with C(13) have "epfd_of s j < 0 \<or> (\<exists>kd m. shape (kern s) (epfd_of s j) = Some (kd, m) \<and> kd \<noteq> FK_sock)"
      by (simp add: own_sets_def)
    with fd have "epfd_of s j \<noteq> fd" by (auto simp: shape_def file_at_def)
    then show "map_option fst (shape (kern ?t) (epfd_of s j)) = map_option fst (shape (kern s) (epfd_of s j))"
      by (cases "shape (kern s) (epfd_of s j)") (auto simp: sh)
  qed simp
  moreover have "entries_ok (shape ?k) (gevents s)" using entries_close [OF C(1) _ sh] fd by simp
  moreover have "shape ?k 0 = Some (FK_file, Map.empty)" using C(9) fd by (auto simp: sh)
  moreover have "buffers_ok ?t" "tables_ok ?t" "apart ?t" using C(3-5) by (simp_all add: buffers_ok_def tables_ok_def apart_def)
  moreover have "mild ?k" using C(6) by (simp add: mild_def frame_simps)
  ultimately show ?thesis using C by (simp add: core_def)
qed

lemma race_inv_close:
  assumes inv: "race_inv w" and i: "i \<in> data_pcs" and pc: "r_dat w i = D_close ge ret evs"
  shows "\<exists>pc s. dat_step i rdy (r_dat w i) (r_mem w) = Some (pc, s) \<and> race_inv (w\<lparr>r_mem := s, r_dat := (r_dat w)(i := pc)\<rparr>)"
proof -
  let ?s = "r_mem w"
  have c: "core ?s" and h: "working (held ?s i) ?s i ge ret evs"
    using inv i pc by (auto simp: race_inv_def dat_ok_def dest!: bspec [of _ _ i])
  obtain gev m v n where g: "gevents ?s ge = Some gev" "data_event gev" "ge_gpoller gev = g_gt_datanet_poller i"
    "shape (kern ?s) (epfd_of ?s i) = Some (FK_epoll, m)" "m (ge_efd gev) = Some v" "ev_ptr v = ge"
    "shape (kern ?s) (ge_efd gev) = Some (FK_sock, n)" using h by (auto simp: working_def elim!: held_facts [OF c i])
  let ?fd = "ge_efd gev" and ?k = "snd (sys_close (ge_efd gev) (kern ?s))"
  let ?t = "?s\<lparr>kern := ?k\<rparr>"
  have st: "dat_step i rdy (r_dat w i) ?s = Some (D_free ge ret evs, ?t)" using pc g(1) by (simp add: dat_step_def Let_def lift_k_eq)
  have sh: "shape ?k a = (if a = ?fd then None else map_option (\<lambda>(kd, m). (kd, m(?fd := None))) (shape (kern ?s) a))" for a
    using g(7) by (simp add: shape_close)
  have only: "ev_ptr u = ge" if "shape (kern ?s) (epfd_of ?s j) = Some (FK_epoll, m')" "m' ?fd = Some u" "j \<in> data_pcs" for j m' u
  proof -
    from coreD(12) [OF c] that obtain gev' where "ge_gpoller gev' = g_gt_datanet_poller j" "ge_efd gev' = ?fd" "data_event gev'"
      "gevents ?s (ev_ptr u) = Some gev'" unfolding home_def by blast
    with coreD(11) [OF c] g(1-3) have "g_gt_datanet_poller j = g_gt_datanet_poller i" unfolding by_number_def by metis
    with dgp_inj that(3) i have "j = i" by blast
    with that g(4-6) show ?thesis by simp
  qed
  have np: "\<not> points_at ?k ge"
  proof
    assume "points_at ?k ge"
    then obtain ep kd m0 x v0 where p: "shape (kern ?s) ep = Some (kd, m0)" "m0 x = Some v0" "x \<noteq> ?fd" "ev_ptr v0 = ge"
      by (auto simp: points_at_def sh split: if_splits)
    from g(1) p(3,4) show False by (rule_tac entries_okD [OF coreD(1) [OF c] p(1,2)]) auto
  qed
  have u: "undisturbed {ge} j ?s ?t" for j
  proof -
    have "points_at (kern ?s) a" if "points_at ?k a" for a using that unfolding points_at_def
      by (fastforce simp: sh split: if_splits)
    moreover have "\<exists>m'. shape ?k (epfd_of ?s j) = Some (FK_epoll, m') \<and>
        (\<forall>fd u. m0 fd = Some u \<longrightarrow> ev_ptr u \<noteq> ge \<longrightarrow> (\<exists>v'. m' fd = Some v' \<and> ev_ptr v' = ev_ptr u))"
      if "shape (kern ?s) (epfd_of ?s j) = Some (FK_epoll, m0)" "j \<in> data_pcs" for j m0
      using that g(7) only [OF that(1) _ that(2)] by (auto simp: sh)
    ultimately show ?thesis by (simp add: undisturbed_def)
  qed
  have "race_inv (w\<lparr>r_mem := ?t, r_dat := (r_dat w)(i := D_free ge ret evs)\<rparr>)"
  proof (rule race_inv_dat [OF inv i u])
    show "core ?t" using c g(7) by (rule close_core)
    show "new_sock (kern ?t) fd" if "new_sock (kern ?s) fd" for fd
    proof -
      have "fd \<noteq> ?fd" using that g(4,5) by (fastforce simp: new_sock_def unregistered_def)
      with that show ?thesis by (fastforce simp: new_sock_def unregistered_def sh split: if_splits)
    qed
    have "closed ?t i ge" using np g by (simp add: closed_def)
    then show "dat_ok ?t i (D_free ge ret evs)"
      using h batch_undisturbed [OF u _ _ i, of evs] by (simp add: dat_ok_def working_def)
    show "acc_ge (r_acc w) \<inter> dat_ge (D_free ge ret evs) = {}" using inv i pc by (auto simp: race_inv_def dat_ge_def dest!: bspec [of _ _ i])
  qed (use pc in \<open>auto simp: dat_ge_def dat_unlinked_def\<close>)
  with st show ?thesis by blast
qed

lemma race_inv_free:
  assumes inv: "race_inv w" and i: "i \<in> data_pcs" and pc: "r_dat w i = D_free ge ret evs"
  shows "\<exists>pc s. dat_step i rdy (r_dat w i) (r_mem w) = Some (pc, s) \<and> race_inv (w\<lparr>r_mem := s, r_dat := (r_dat w)(i := pc)\<rparr>)"
proof -
  let ?s = "r_mem w"
  have c: "core ?s" and h: "working (closed ?s i) ?s i ge ret evs"
    using inv i pc by (auto simp: race_inv_def dat_ok_def dest!: bspec [of _ _ i])
  note C = coreD [OF c]
  obtain gev where g: "gevents ?s ge = Some gev" and np: "\<not> points_at (kern ?s) ge" using h by (auto simp: working_def closed_def)
  have ne: "ev_ptr v \<noteq> ge" if "shape (kern ?s) ep = Some (kd, m)" "m x = Some v" for ep kd m x v
    using np that by (auto simp: points_at_def)
  let ?t = "?s\<lparr>blocks := (blocks ?s)(ge := None), gevents := (gevents ?s)(ge := None), lists := (lists ?s)(ge_list ge := None)\<rparr>"
  have st: "dat_step i rdy (r_dat w i) ?s = Some (D_batch evs, ?t)"
    using pc g C(7) [of ge] h by (auto simp: dat_step_def Let_def gt_free_mem_def working_def)
  have "entries_ok (shape (kern ?t)) (gevents ?t)" unfolding entries_ok_def
  proof (intro allI impI)
    fix ep kd m x v assume v: "shape (kern ?t) ep = Some (kd, m)" "m x = Some v"
    then have "ev_ptr v \<noteq> ge" using ne by simp
    with C(1) v show "\<exists>kd' m' gev fn. shape (kern ?t) x = Some (kd', m') \<and> gevents ?t (ev_ptr v) = Some gev \<and> ge_efd gev = x \<and>
        ev_events v AND EPOLLOUT = 0 \<and> op_read (ge_ops gev) = Some fn \<and> (fn = FN_datanet_ops_read \<longrightarrow> stream kd')"
      unfolding entries_ok_def by simp
  qed
  moreover have "events_ok (gevents ?t)" using C(2) by (auto simp: events_ok_def)
  moreover have "buffers_ok ?t" using C(3) g by (fastforce simp: buffers_ok_def)
  moreover have "tables_ok ?t" using C(4) by (simp add: tables_ok_def)
  moreover have "apart ?t" using C(5) by (auto simp: apart_def split: if_splits)
  moreover have "home ?t" using C(12) ne by (fastforce simp: home_def epfd_of_def)
  moreover have "own_sets ?t" using C(13) by (simp add: own_sets_def epfd_of_def)
  moreover have "by_number (gevents ?t)" using C(11) by (simp add: by_number_def)
  moreover have "lists ?t (gp_elist gp) \<noteq> None" if "gpollers ?t gp \<noteq> None" for gp
  proof -
    have "ge_list ge \<noteq> gp_elist gp" using C(5) g that unfolding apart_def by simp
    with C(8) [of gp] that show ?thesis by simp
  qed
  ultimately have ct: "core ?t" using C(6,7,9,10) by (auto simp: core_def)
  have u: "undisturbed {ge} j ?s ?t" for j by (auto simp: undisturbed_def epfd_of_def)
  have "race_inv (w\<lparr>r_mem := ?t, r_dat := (r_dat w)(i := D_batch evs)\<rparr>)"
  proof (rule race_inv_dat [OF inv i u _ _ ct])
    show "dat_ok ?t i (D_batch evs)"
      using h batch_undisturbed [OF u _ _ i, of evs] by (auto simp: dat_ok_def working_def)
    show "acc_ge (r_acc w) \<inter> dat_ge (D_batch evs) = {}" using inv i pc by (auto simp: race_inv_def dat_ge_def dest!: bspec [of _ _ i])
  qed (use pc in \<open>auto simp: dat_ge_def dat_unlinked_def\<close>)
  with st show ?thesis by blast
qed

text \<open>The accepting thread's event is in no set yet.\<close>

lemma acc_not_held:
  assumes "acc_ok s pc" "ge \<in> acc_ge pc" "held s i ge"
  shows False
proof (cases pc)
  case (A_start fd g)
  with assms obtain gev m v where "gevents s ge = Some gev" "ge_efd gev = fd" "unregistered (kern s) fd"
    "shape (kern s) (epfd_of s i) = Some (FK_epoll, m)" "m fd = Some v"
    by (auto simp: acc_ok_def acc_ge_def held_def new_sock_def with_reader_def)
  then show False by (fastforce simp: unregistered_def)
qed (use assms in \<open>auto simp: acc_ok_def acc_ge_def held_def building_def data_event_def zero_event_def\<close>)

lemma report_held:
  assumes c: "core s" and i: "i \<in> data_pcs" and p: "gpollers s (g_gt_datanet_poller i) = Some p"
    and w: "sys_epoll_wait rdy (gp_epfd p) (gp_ee p) (gp_maxe p) (kern s) = (n, evs, k)" and n: "0 < n"
  shows "batch_ok s i evs" "\<exists>sz. blocks s (gp_ee p) = Some sz \<and> n * sizeof_epoll_event \<le> sz"
proof -
  note C = coreD [OF c]
  from w n obtain ep where ep: "file_at (kern s) (gp_epfd p) = Some ep" "f_kind ep = FK_epoll"
    by (auto simp: sys_epoll_wait_def Let_def split: option.splits if_splits)
  have e: "epfd_of s i = gp_epfd p" by (simp add: epfd_of_def p)
  from w n obtain fds where f: "distinct fds" "gp_ee p \<noteq> NULL" "n \<le> gp_maxe p"
    "list_all2 (\<lambda>ev fd. epoll_ready (kern s) ep (snd rdy) fd = Some ev) evs fds"
    by (rule_tac epoll_report [OF w]) (use ep in auto)
  have sh: "shape (kern s) (epfd_of s i) = Some (FK_epoll, f_interest ep)" using ep e by (simp add: shape_def)
  have one: "\<exists>gev. gevents s (ev_ptr ev) = Some gev \<and> ge_efd gev = fd \<and> ev_events ev AND EPOLLOUT = 0 \<and> held s i (ev_ptr ev)"
    if r: "epoll_ready (kern s) ep (snd rdy) fd = Some ev" for ev fd
  proof -
    from r obtain v where v: "f_interest ep fd = Some v" "ev_ptr v = ev_ptr ev"
      by (auto simp: epoll_ready_def Let_def split: option.splits if_splits)
    with C(12) i sh obtain gev where gev: "gevents s (ev_ptr ev) = Some gev" "ge_efd gev = fd" "data_event gev"
      "ge_gpoller gev = g_gt_datanet_poller i" unfolding home_def by (metis (no_types, lifting))
    with v sh have "held s i (ev_ptr ev)" by (simp add: held_def)
    with gev epoll_ready_facts [OF r C(1) ep(1)] show ?thesis by blast
  qed
  have "map (\<lambda>ev. ge_efd (the (gevents s (ev_ptr ev)))) evs = fds"
    using f(4) by (induction rule: list_all2_induct) (use one in fastforce)+
  with f(1) have "distinct (map (\<lambda>a. ge_efd (the (gevents s a))) (map ev_ptr evs))" by (simp add: comp_def)
  then have "distinct (map ev_ptr evs)" unfolding distinct_map [of _ "map ev_ptr evs"] by blast
  moreover have "ev_events ev AND EPOLLOUT = 0 \<and> held s i (ev_ptr ev)" if "ev \<in> set evs" for ev
  proof -
    from that f(4) obtain fd where "epoll_ready (kern s) ep (snd rdy) fd = Some ev"
      by (auto simp: list_all2_conv_all_nth in_set_conv_nth)
    from one [OF this] show ?thesis by blast
  qed
  ultimately show "batch_ok s i evs" by (simp add: batch_ok_def)
  from C(3) p f(2) have "gp_maxe p \<le> maxe_of (g_gt_datanet_poller i)" "blocks s (gp_ee p) = Some (maxe_of (g_gt_datanet_poller i) * sizeof_epoll_event)"
    by (auto simp: buffers_ok_def)
  with f(3) show "\<exists>sz. blocks s (gp_ee p) = Some sz \<and> n * sizeof_epoll_event \<le> sz" by (simp add: sizeof_epoll_event_def)
qed

lemma race_inv_wait:
  assumes inv: "race_inv w" and i: "i \<in> data_pcs" and pc: "r_dat w i = D_wait"
  shows "\<exists>pc s. dat_step i rdy (r_dat w i) (r_mem w) = Some (pc, s) \<and> race_inv (w\<lparr>r_mem := s, r_dat := (r_dat w)(i := pc)\<rparr>)"
proof -
  let ?s = "r_mem w"
  have c: "core ?s" and a: "acc_ok ?s (r_acc w)" using inv by (simp_all add: race_inv_def)
  obtain p where p: "gpollers ?s (g_gt_datanet_poller i) = Some p" by (rule dat_poller [OF c i])
  obtain n evs k where w: "sys_epoll_wait rdy (gp_epfd p) (gp_ee p) (gp_maxe p) (kern ?s) = (n, evs, k)" by (metis prod_cases3)
  show ?thesis
  proof (cases "0 < n")
    case True
    note R = report_held [OF c i p w True]
    have "race_inv (w\<lparr>r_mem := ?s, r_dat := (r_dat w)(i := D_batch evs)\<rparr>)"
    proof (rule race_inv_dat [OF inv i undisturbed_refl, of "{}"])
      show "acc_ge (r_acc w) \<inter> dat_ge (D_batch evs) = {}"
        using acc_not_held [OF a] R(1) by (fastforce simp: dat_ge_def batch_ok_def)
    qed (use c R(1) pc in \<open>simp_all add: dat_ok_def dat_unlinked_def\<close>)
    from race_inv_mem(2) [OF this env_wait [OF w]] True R(2) p w pc show ?thesis by (auto simp: dat_step_def Let_def)
  next
    case False
    have "race_inv (w\<lparr>r_mem := ?s, r_dat := (r_dat w)(i := D_wait)\<rparr>)"
      by (rule race_inv_idle_dat [OF inv i]) (simp_all add: pc dat_ok_def dat_unlinked_def)
    from race_inv_mem(2) [OF this env_wait [OF w]] False p w pc show ?thesis by (auto simp: dat_step_def Let_def)
  qed
qed

lemma sock_read:
  assumes "core s" "shape (kern s) fd = Some (FK_sock, n)"
  obtains r bs k where "sys_read fd sz (kern s) = Some (r, bs, k)" "0 \<le> r \<or> k_errno k = EAGAIN"
proof -
  from assms(2) obtain f where f: "file_at (kern s) fd = Some f" "f_kind f = FK_sock" by (auto simp: shape_def)
  with coreD(10) [OF assms(1)] have "f_flags f AND O_NONBLOCK \<noteq> 0" by (simp add: nonblocking_def)
  with f mild_now [OF coreD(6) [OF assms(1)]] have "\<exists>r bs k. sys_read fd sz (kern s) = Some (r, bs, k) \<and> (0 \<le> r \<or> k_errno k = EAGAIN)"
    by (cases "fault_now (kern s)") (auto simp: sys_read_def Let_def)
  with that show ?thesis by blast
qed

lemma race_inv_batch:
  assumes inv: "race_inv w" and i: "i \<in> data_pcs" and pc: "r_dat w i = D_batch (ev # evs)"
  shows "\<exists>pc s. dat_step i rdy (r_dat w i) (r_mem w) = Some (pc, s) \<and> race_inv (w\<lparr>r_mem := s, r_dat := (r_dat w)(i := pc)\<rparr>)"
proof -
  let ?s = "r_mem w" and ?ge = "ev_ptr ev"
  have c: "core ?s" and b: "batch_ok ?s i (ev # evs)" using inv i pc by (auto simp: race_inv_def dat_ok_def dest!: bspec [of _ _ i])
  have h: "held ?s i ?ge" "ev_events ev AND EPOLLOUT = 0" "batch_ok ?s i evs" "?ge \<notin> ev_ptr ` set evs" using b by (auto simp: batch_ok_def)
  obtain gev n where g: "gevents ?s ?ge = Some gev" "data_event gev" "shape (kern ?s) (ge_efd gev) = Some (FK_sock, n)"
    by (rule held_facts [OF c i h(1)])
  have go: "race_inv (w\<lparr>r_mem := ?s, r_dat := (r_dat w)(i := D_batch evs)\<rparr>)"
    by (rule race_inv_idle_dat [OF inv i]) (use h in \<open>auto simp: pc dat_ok_def dat_unlinked_def dat_ge_def\<close>)
  have drop: "race_inv (w\<lparr>r_mem := ?s, r_dat := (r_dat w)(i := D_stop ?ge r evs)\<rparr>)" if "0 \<le> r" for r
    by (rule race_inv_idle_dat [OF inv i]) (use h that in \<open>auto simp: pc dat_ok_def dat_unlinked_def dat_ge_def working_def\<close>)
  show ?thesis
  proof (cases "ev_events ev AND EPOLLIN = 0")
    case True
    with h(2) pc go show ?thesis by (simp add: dat_step_def Let_def handle_report_def)
  next
    case False
    show ?thesis
    proof (rule sock_read [OF c g(3), of 127])
      fix r bs k assume r: "sys_read (ge_efd gev) 127 (kern ?s) = Some (r, bs, k)" "0 \<le> r \<or> k_errno k = EAGAIN"
      note E = race_inv_mem(2) [OF _ env_read [OF r(1)]]
      from False g r pc E [OF go] E [OF drop] race_inv_logs(3) show ?thesis
        by (auto simp: dat_step_def Let_def handle_report_def data_event_def gt_errno_def)
    qed
  qed
qed

subsection \<open>Initialising a data poller\<close>

text \<open>A new epoll set \<open>ep\<close>, or none (\<open>ep < 0\<close>), and the poller's fields.\<close>

definition new_set :: "kernel \<Rightarrow> fd \<Rightarrow> kernel \<Rightarrow> bool" where
  "new_set k ep k' \<longleftrightarrow> (ep < 0 \<and> shape k' = shape k \<or>
     0 \<le> ep \<and> shape k ep = None \<and> shape k' = (shape k)(ep \<mapsto> (FK_epoll, Map.empty))) \<and>
     (\<forall>a. a \<noteq> ep \<longrightarrow> map_option f_flags (file_at k' a) = map_option f_flags (file_at k a)) \<and> k_fault k' = k_fault k"

definition with_poller :: "nat \<Rightarrow> gt_poller \<Rightarrow> kernel \<Rightarrow> gt_state \<Rightarrow> gt_state" where
  "with_poller i q k s = s\<lparr>kern := k, gpollers := (gpollers s)(g_gt_datanet_poller i \<mapsto> q)\<rparr>"

lemma shape_negative: "a < 0 \<Longrightarrow> shape k a = None"
  by (simp add: shape_def file_at_def)

lemma new_set_old: "new_set k ep k' \<Longrightarrow> shape k a = Some x \<Longrightarrow> shape k' a = Some x"
  by (auto simp: new_set_def)

lemma new_set_sub:
  "new_set k ep k' \<Longrightarrow> shape k' a = Some (kd, m) \<Longrightarrow> m \<noteq> Map.empty \<or> a \<noteq> ep \<or> kd = FK_sock \<Longrightarrow> shape k a = Some (kd, m)"
  by (auto simp: new_set_def shape_negative split: if_splits)

lemma new_set_nonblocking:
  assumes "new_set k ep k'" "nonblocking k"
  shows "nonblocking k'"
  unfolding nonblocking_def
proof (intro allI impI)
  fix a f assume f: "file_at k' a = Some f" "f_kind f = FK_sock"
  then have sa: "shape k' a = Some (FK_sock, f_interest f)" by (simp add: shape_def)
  then have "a \<noteq> ep" using assms(1) by (auto simp: new_set_def shape_negative)
  with assms(1) have "map_option f_flags (file_at k' a) = map_option f_flags (file_at k a)" by (simp add: new_set_def)
  with new_set_sub [OF assms(1) sa] f(1) obtain g where "file_at k a = Some g" "f_kind g = FK_sock" "f_flags g = f_flags f"
    by (auto simp: shape_def)
  with assms(2) show "f_flags f AND O_NONBLOCK \<noteq> 0" unfolding nonblocking_def by metis
qed

lemma epfd_with_poller:
  "i \<in> data_pcs \<Longrightarrow> j \<in> data_pcs \<Longrightarrow> epfd_of (with_poller i q k s) j = (if j = i then gp_epfd q else epfd_of s j)"
  using dgp_inj [of j i] by (auto simp: epfd_of_def with_poller_def)

lemma new_set_home:
  assumes n: "new_set (kern s) (gp_epfd q) k" and i: "i \<in> data_pcs" and h: "home s"
  shows "home (with_poller i q k s)" (is "home ?t")
  unfolding home_def
proof (intro ballI allI impI)
  fix j m x v assume j: "j \<in> data_pcs" and m: "shape (kern ?t) (epfd_of ?t j) = Some (FK_epoll, m)" "m x = Some v"
  then have ms: "shape (kern s) (epfd_of ?t j) = Some (FK_epoll, m)" using new_set_sub [OF n] by (auto simp: with_poller_def)
  have "j \<noteq> i"
  proof
    assume "j = i"
    with ms epfd_with_poller [OF i i, of q k s] have "shape (kern s) (gp_epfd q) = Some (FK_epoll, m)" by simp
    with n show False by (auto simp: new_set_def shape_negative)
  qed
  with ms epfd_with_poller [OF i j] have "shape (kern s) (epfd_of s j) = Some (FK_epoll, m)" by simp
  with h j m(2) obtain gev n where g: "gevents s (ev_ptr v) = Some gev" "ge_efd gev = x" "data_event gev"
    "ge_gpoller gev = g_gt_datanet_poller j" "shape (kern s) x = Some (FK_sock, n)" unfolding home_def by blast
  with new_set_old [OF assms(1) g(5)] show "\<exists>gev n. gevents ?t (ev_ptr v) = Some gev \<and> ge_efd gev = x \<and> data_event gev \<and>
      ge_gpoller gev = g_gt_datanet_poller j \<and> shape (kern ?t) x = Some (FK_sock, n)" by (simp add: with_poller_def)
qed

lemma new_set_own:
  assumes n: "new_set (kern s) (gp_epfd q) k" and i: "i \<in> data_pcs" and h: "own_sets s"
  shows "own_sets (with_poller i q k s)" (is "own_sets ?t")
proof -
  have e: "epfd_of ?t j = (if j = i then gp_epfd q else epfd_of s j)" if "j \<in> data_pcs" for j
    using epfd_with_poller [OF i that] .
  have live: "epfd_of s j < 0 \<or> (\<exists>kd m. shape (kern s) (epfd_of s j) = Some (kd, m) \<and> kd \<noteq> FK_sock)" if "j \<in> data_pcs" for j
    using h that by (simp add: own_sets_def)
  then have far: "epfd_of s j \<noteq> gp_epfd q \<or> gp_epfd q < 0" if "j \<in> data_pcs" for j
    using n that by (fastforce simp: new_set_def)
  have "epfd_of ?t a \<noteq> epfd_of ?t b" if ab: "a \<in> data_pcs" "b \<in> data_pcs" "a \<noteq> b" "shape k (epfd_of ?t a) = Some (FK_epoll, m)" for a b m
  proof -
    have pos: "\<not> epfd_of ?t a < 0" using ab(4) shape_negative by fastforce
    consider "a = i" | "b = i" "a \<noteq> i" | "a \<noteq> i" "b \<noteq> i" by blast
    then show ?thesis
    proof cases
      case 3
      with pos far [OF ab(1)] e [OF ab(1)] have "epfd_of s a \<noteq> gp_epfd q" by auto
      with new_set_sub [OF n ab(4)] e [OF ab(1)] 3 have "shape (kern s) (epfd_of s a) = Some (FK_epoll, m)" by simp
      with h ab(1-3) e [OF ab(1)] e [OF ab(2)] 3 show ?thesis unfolding own_sets_def by auto
    qed (use pos far [OF ab(1)] far [OF ab(2)] e [OF ab(1)] e [OF ab(2)] ab(3) in auto)
  qed
  moreover have "epfd_of ?t j < 0 \<or> (\<exists>kd m. shape k (epfd_of ?t j) = Some (kd, m) \<and> kd \<noteq> FK_sock)" if "j \<in> data_pcs" for j
    using live [OF that] e [OF that] new_set_old [OF n] n by (cases "j = i") (auto simp: new_set_def)
  ultimately show ?thesis by (simp add: own_sets_def with_poller_def)
qed

lemma maxe_of_datanet: "i \<in> data_pcs \<Longrightarrow> maxe_of (g_gt_datanet_poller i) = GT_NETWORKER_MAXEVENT"
  by (auto simp: maxe_of_def data_pcs_set g_gt_datanet_poller_def g_gt_core_poller_def)

lemma core_epfd:
  assumes c: "core s" and i: "i \<in> data_pcs" and p: "gpollers s (g_gt_datanet_poller i) = Some p"
    and n: "new_set (kern s) (gp_epfd q) k" and q: "gp_ee q = gp_ee p" "gp_maxe q = GT_NETWORKER_MAXEVENT"
  shows "core (with_poller i q k s)" (is "core ?t")
proof -
  note C = coreD [OF c]
  have "entries_ok (shape k) (gevents s)" using n C(1) entries_alloc by (fastforce simp: new_set_def)
  moreover have "buffers_ok ?t" using C(3) p q maxe_of_datanet [OF i] unfolding buffers_ok_def by (auto simp: with_poller_def split: if_splits)
  moreover have "tables_ok ?t" "apart ?t" using C(4,5) p by (auto simp: tables_ok_def apart_def with_poller_def)
  moreover have "mild k" using C(6) n by (simp add: mild_def new_set_def)
  moreover have "lists ?t (gp_elist gp) \<noteq> None" if "gpollers ?t gp \<noteq> None" for gp
    using that C(8) [of gp] p by (auto simp: with_poller_def split: if_splits)
  ultimately show ?thesis
    using C(2,7,11) new_set_old [OF n C(9)] new_set_nonblocking [OF n C(10)] new_set_home [OF n i C(12)] new_set_own [OF n i C(13)]
    by (simp add: core_def with_poller_def)
qed

lemma undisturbed_epfd:
  assumes i: "i \<in> data_pcs" and e0: "shape (kern s) (epfd_of s i) = Some (FK_file, Map.empty)" and n: "new_set (kern s) (gp_epfd q) k"
  shows "undisturbed {} i s (with_poller i q k s)" (is "undisturbed _ _ _ ?t")
proof -
  have "points_at (kern s) a" if "points_at k a" for a
    using that new_set_sub [OF n] unfolding points_at_def by (metis option.distinct(1))
  moreover have "epfd_of ?t j = epfd_of s j" if "j \<in> data_pcs" "j \<noteq> i" for j using epfd_with_poller [OF i that(1)] that(2) by simp
  moreover have "j \<noteq> i" if "shape (kern s) (epfd_of s j) = Some (FK_epoll, m)" for j m using that e0 by auto
  moreover note new_set_old [OF n]
  ultimately show ?thesis unfolding undisturbed_def by (simp add: with_poller_def)
qed

lemma core_ee:
  assumes c: "core s" and i: "i \<in> data_pcs" and p: "gpollers s (g_gt_datanet_poller i) = Some p" "gp_maxe p = GT_NETWORKER_MAXEVENT"
    and k: "env_change (kern s) k"
    and b: "ee = NULL \<and> b = blocks s \<or> blocks s ee = None \<and> gevents s ee = None \<and>
      b = (blocks s)(ee \<mapsto> GT_NETWORKER_MAXEVENT * sizeof_epoll_event)"
  shows "core (s\<lparr>kern := k, blocks := b, gpollers := (gpollers s)(g_gt_datanet_poller i \<mapsto> p\<lparr>gp_ee := ee\<rparr>)\<rparr>)" (is "core ?t")
    "undisturbed {} i s (s\<lparr>kern := k, blocks := b, gpollers := (gpollers s)(g_gt_datanet_poller i \<mapsto> p\<lparr>gp_ee := ee\<rparr>)\<rparr>)"
    "epfd_of (s\<lparr>kern := k, blocks := b, gpollers := (gpollers s)(g_gt_datanet_poller i \<mapsto> p\<lparr>gp_ee := ee\<rparr>)\<rparr>) j = epfd_of s j"
proof -
  note C = coreD [OF core_env [OF c k]]
  have e: "epfd_of ?t a = epfd_of s a" for a using p(1) by (simp add: epfd_of_def)
  have "buffers_ok ?t" using C(3) b p maxe_of_datanet [OF i] unfolding buffers_ok_def by (auto split: if_splits)
  moreover have "home ?t" using C(12) by (simp add: home_def e)
  moreover have "own_sets ?t" using C(13) by (simp add: own_sets_def e)
  moreover have "tables_ok ?t" "apart ?t" using C(4,5) p(1) by (auto simp: tables_ok_def apart_def)
  moreover have "blocks ?t ge \<noteq> None" if "gevents s ge \<noteq> None" for ge using C(7) [of ge] that b by auto
  ultimately show "core ?t" using C p(1) by (auto simp: core_def)
  show "undisturbed {} i s ?t" using env_shape [OF k] by (auto simp: undisturbed_def points_at_def e)
  show "epfd_of ?t j = epfd_of s j" by (rule e)
qed

lemma undisturbed_trans: "undisturbed {} i s s1 \<Longrightarrow> undisturbed {} i s1 s2 \<Longrightarrow> undisturbed {} i s s2"
  unfolding undisturbed_def by (simp, safe; metis)

lemma epoll_create_effect: "sys_epoll_create (GT_NETWORKER_MAXEVENT + 1) k = (ep, k') \<Longrightarrow> new_set k ep k'"
proof -
  assume "sys_epoll_create (GT_NETWORKER_MAXEVENT + 1) k = (ep, k')"
  then consider "ep = -1" "file_at k' = file_at k" "k_fault k' = k_fault k" | "alloc_fd (new_file FK_epoll) (next_call k) = (ep, k')"
    by (cases "fault_now k") (auto simp: sys_epoll_create_def syscall_def sys_fail_def GT_NETWORKER_MAXEVENT_def)
  then show ?thesis
  proof cases
    case 1
    then show ?thesis using shape_file_at [of k' k] by (simp add: new_set_def)
  next
    case 2
    from shape_alloc [OF 2] alloc_fd_spec(3,5) [OF 2] show ?thesis by (simp add: new_set_def new_file_def)
  qed
qed

lemma init_fields_effect:
  assumes c: "core s" and i: "i \<in> data_pcs" and e0: "epfd_of s i = 0"
  shows "\<exists>r t k. init_fields (g_gt_datanet_poller i) s = Some (r, t\<lparr>kern := k\<rparr>) \<and> env_change (kern t) k \<and> core t \<and> undisturbed {} i s t \<and>
    gevents t = gevents s \<and> lists t = lists s \<and> (\<forall>fd. new_sock (kern s) fd \<longrightarrow> new_sock (kern t) fd)"
proof (rule dat_poller [OF c i])
  fix p assume p: "gpollers s (g_gt_datanet_poller i) = Some p"
  obtain ep k1 where k1: "sys_epoll_create (GT_NETWORKER_MAXEVENT + 1) (kern s) = (ep, k1)" by fastforce
  let ?q = "p\<lparr>gp_maxe := GT_NETWORKER_MAXEVENT, gp_timeout := GT_NETWORKER_EPWAIT_TIMEOUT, gp_epfd := ep\<rparr>"
  let ?t1 = "s\<lparr>kern := k1, gpollers := (gpollers s)(g_gt_datanet_poller i \<mapsto> ?q)\<rparr>"
  have n: "new_set (kern s) (gp_epfd ?q) k1" using epoll_create_effect [OF k1] by simp
  have T1: "core ?t1" "undisturbed {} i s ?t1"
    using core_epfd [OF c i p n] undisturbed_epfd [OF i _ n] coreD(9) [OF c] e0 by (simp_all add: with_poller_def)
  have ns: "new_sock k1 fd" if "new_sock (kern s) fd" for fd
    using that n by (auto simp: new_sock_def unregistered_def new_set_def split: if_splits)
  note D = init_fields_def p k1 lift_k_def Let_def
  show ?thesis
  proof (cases "ep < 0")
    case True
    then have "init_fields (g_gt_datanet_poller i) s = Some (GT_ERROR, GT_ERROR_LOG GT_MOD_CORE
        ''Failed to epoll_ctl to epfd[%d]! errno:%d, %s'' [AInt ep, AInt (gt_errno ?t1), AErrstr (gt_errno ?t1)] ?t1)"
      by (simp add: D)
    then obtain k where "init_fields (g_gt_datanet_poller i) s = Some (GT_ERROR, ?t1\<lparr>kern := k\<rparr>)" "env_change (kern ?t1) k"
      unfolding GT_ERROR_LOG_def by (metis env_calls(3))
    with T1 ns show ?thesis by (intro exI [of _ GT_ERROR] exI [of _ ?t1] exI [of _ k]) simp
  next
    case False
    obtain ee s2 where m: "gt_malloc_mem GT_MOD_CORE GT_MEM_TYPE_HEAP (GT_NETWORKER_MAXEVENT * sizeof_epoll_event) ?t1 = (ee, s2)"
      by fastforce
    let ?t2 = "s2\<lparr>gpollers := (gpollers s2)(g_gt_datanet_poller i \<mapsto> ?q\<lparr>gp_ee := ee\<rparr>)\<rparr>"
    have T2: "core ?t2 \<and> undisturbed {} i ?t1 ?t2 \<and> gevents ?t2 = gevents s \<and> lists ?t2 = lists s \<and> shape (kern ?t2) = shape k1"
      using m
    proof (cases rule: malloc_cases)
      case null
      from core_ee(1,2) [OF T1(1) i, of ?q "(next_call k1)\<lparr>k_errno := ENOMEM\<rparr>" NULL "blocks s"] null show ?thesis by simp
    next
      case fresh
      from core_ee(1,2) [OF T1(1) i, of ?q "next_call k1" ee "(blocks s)(ee \<mapsto> GT_NETWORKER_MAXEVENT * sizeof_epoll_event)"] fresh
      show ?thesis by (simp add: fresh_block_def)
    qed
    have u: "undisturbed {} i s ?t2" using T1(2) T2 undisturbed_trans by blast
    have n2: "new_sock (kern ?t2) fd" if "new_sock (kern s) fd" for fd
      using ns [OF that] T2 new_sock_shape [of "kern ?t2" k1 fd] by simp
    have st: "init_fields (g_gt_datanet_poller i) s = Some (if ee = NULL then (GT_ERROR, GT_ERROR_LOG GT_MOD_CORE
        ''Failed to alloc mem for gpoller.'' [] ?t2) else (GT_OK, ?t2))"
      using False m by (simp add: D)
    let ?l = "log_call GT_MOD_CORE False GT_LOG_LEVEL_ERROR ''Failed to alloc mem for gpoller.'' [] (kern ?t2)"
    obtain r k where "init_fields (g_gt_datanet_poller i) s = Some (r, ?t2\<lparr>kern := k\<rparr>)" "env_change (kern ?t2) k"
    proof (cases "ee = NULL")
      case True
      with st that [of GT_ERROR ?l] show thesis by (simp add: GT_ERROR_LOG_def)
    next
      case False
      with st that [of GT_OK "kern ?t2"] show thesis by simp
    qed
    with T2 u n2 show ?thesis by blast
  qed
qed

lemma race_inv_boot:
  assumes inv: "race_inv w" and i: "i \<in> data_pcs" and pc: "r_dat w i = D_start"
  shows "\<exists>pc s. dat_step i rdy (r_dat w i) (r_mem w) = Some (pc, s) \<and> race_inv (w\<lparr>r_mem := s, r_dat := (r_dat w)(i := pc)\<rparr>)"
proof -
  have c: "core (r_mem w)" and e0: "epfd_of (r_mem w) i = 0"
    using inv i pc by (auto simp: race_inv_def dat_ok_def dest!: bspec [of _ _ i])
  from init_fields_effect [OF c i e0] obtain r t k where t: "init_fields (g_gt_datanet_poller i) (r_mem w) = Some (r, t\<lparr>kern := k\<rparr>)"
    "env_change (kern t) k" "core t" "undisturbed {} i (r_mem w) t" "gevents t = gevents (r_mem w)" "lists t = lists (r_mem w)"
    "\<And>fd. new_sock (kern (r_mem w)) fd \<Longrightarrow> new_sock (kern t) fd" by blast
  have "race_inv (w\<lparr>r_mem := t, r_dat := (r_dat w)(i := pc')\<rparr>)" if "pc' = D_exited \<or> pc' = D_init_next" for pc'
    by (rule race_inv_dat [OF inv i t(4) _ t(7,3)]) (use that pc t(5) in \<open>auto simp: dat_ok_def dat_ge_def dat_unlinked_def\<close>)
  note R = race_inv_mem(2) [OF this t(2)]
  from t(1) R [of D_exited] R [of D_init_next] race_inv_logs(2) pc show ?thesis
    by (cases "r = GT_OK") (auto simp: dat_step_def Let_def)
qed

lemma race_inv_dat_step:
  assumes "race_inv w" "i \<in> data_pcs"
  shows "\<exists>pc s. dat_step i rdy (r_dat w i) (r_mem w) = Some (pc, s) \<and> race_inv (w\<lparr>r_mem := s, r_dat := (r_dat w)(i := pc)\<rparr>)"
proof (cases "r_dat w i")
  case (D_batch evs)
  show ?thesis
  proof (cases evs)
    case Nil
    have "race_inv (w\<lparr>r_mem := r_mem w, r_dat := (r_dat w)(i := D_wait)\<rparr>)"
      by (rule race_inv_idle_dat [OF assms]) (use D_batch in \<open>simp_all add: dat_ok_def dat_ge_def dat_unlinked_def\<close>)
    with Nil D_batch show ?thesis by (simp add: dat_step_def Let_def)
  qed (use D_batch race_inv_batch [OF assms] in simp)
next
  case D_exited
  have "race_inv (w\<lparr>r_mem := r_mem w, r_dat := (r_dat w)(i := D_exited)\<rparr>)"
    by (rule race_inv_idle_dat [OF assms]) (use D_exited in \<open>simp_all add: dat_ok_def dat_ge_def dat_unlinked_def\<close>)
  with D_exited show ?thesis by (simp add: dat_step_def Let_def)
next
  case (D_stop ge ret evs)
  then show ?thesis by (intro race_inv_stops [OF assms, of ge ret evs]) simp
next
  case (D_stop_again ge ret evs)
  then show ?thesis by (intro race_inv_stops [OF assms, of ge ret evs]) simp
qed ((rule race_inv_boot [OF assms], assumption) | (rule race_inv_init_next [OF assms], simp; fail) |
     (rule race_inv_wait [OF assms], assumption) | (rule race_inv_del_prev [OF assms], assumption) |
     (rule race_inv_del_next [OF assms], assumption) | (rule race_inv_close [OF assms], assumption) |
     (rule race_inv_free [OF assms], assumption))+

end
