(* ===== verification/GT_Race_Safe.thy ===== *)
theory GT_Race_Safe
  imports GT_Race_Inv
begin

text \<open>
  Every interleaving of the hand-over is safe, by rule induction over the steps; the rounds of a data
  thread without interference are \<open>gt_poller_epoll_wait\<close>; and a concrete interleaving in which the two
  unlocked writers of the list head collide.
\<close>

subsection \<open>Every interleaving\<close>

lemma race_start_inv: "race_start w \<Longrightarrow> race_inv w"
proof -
  assume st: "race_start w"
  let ?s = "r_mem w"
  have s: "sys_inv ?s" "mild (kern ?s)" "shape (kern ?s) 0 = Some (FK_file, Map.empty)"
    "\<And>ge gev. gevents ?s ge = Some gev \<Longrightarrow> \<not> data_event gev" "\<And>fd m. shape (kern ?s) fd \<noteq> Some (FK_sock, m)"
    "\<And>i. i \<in> data_pcs \<Longrightarrow> epfd_of ?s i = 0 \<and> r_dat w i = D_start" "r_acc w = A_idle"
    using st by (auto simp: race_start_def sys_ok_def Let_def)
  note I = sys_invD [OF s(1)]
  have "nonblocking (kern ?s)" using s(5) unfolding nonblocking_def by (metis (no_types, lifting) option.map(2) shape_def)
  moreover have "by_number (gevents ?s)" using s(4) by (auto simp: by_number_def)
  moreover have "home ?s" "own_sets ?s" using s(3,6) by (auto simp: home_def own_sets_def)
  moreover have "apart ?s" "\<And>gp. gpollers ?s gp \<noteq> None \<Longrightarrow> lists ?s (gp_elist gp) \<noteq> None"
    "\<And>ge. gevents ?s ge \<noteq> None \<Longrightarrow> ge \<noteq> NULL \<and> blocks ?s ge \<noteq> None"
    using I(1) by (auto simp: poller_inv_defs mapped_def)
  ultimately have "core ?s" using I(2-5) s(2,3) by (simp add: core_def)
  moreover have "linked ?s U" for U using s(4) by (auto simp: linked_def)
  ultimately show ?thesis using s(6,7) by (simp add: race_inv_def acc_ok_def acc_ge_def dat_ok_def dat_ge_def)
qed

lemma race_step_inv: "race_step w w' \<Longrightarrow> race_inv w \<Longrightarrow> race_inv w'"
proof (induction rule: race_step.induct)
  case (accepted w lfd cfd s)
  from race_inv_accept [OF accepted(3,2,1)] show ?case by simp
next
  case (not_accepted w lfd r s)
  from race_inv_accept [OF not_accepted(3,2,1)] not_accepted(1) show ?case by (cases w) simp
next
  case (acc w pc s)
  from race_inv_acc_step [OF acc(2)] acc(1) show ?case by auto
next
  case (dat i rdy w pc s)
  from race_inv_dat_step [OF dat(3,1), of rdy] dat(2) show ?case by auto
next
  case (env w k)
  then show ?case by (intro race_inv_env)
qed

lemma race_reachable_inv: "race_reachable w \<Longrightarrow> race_inv w"
  by (induction rule: race_reachable.induct) (blast intro: race_start_inv race_step_inv)+

lemma entry_live:
  assumes "race_inv w" "i \<in> data_pcs" "gpollers (r_mem w) (g_gt_datanet_poller i) = Some p"
    "file_at (kern (r_mem w)) (gp_epfd p) = Some ep" "f_interest ep fd = Some v" "f_kind ep = FK_epoll"
  shows "\<exists>gev. gevents (r_mem w) (ev_ptr v) = Some gev \<and> ge_efd gev = fd \<and> ge_gpoller gev = g_gt_datanet_poller i"
proof -
  have "core (r_mem w)" using assms(1) by (simp add: race_inv_def)
  moreover have "shape (kern (r_mem w)) (epfd_of (r_mem w) i) = Some (FK_epoll, f_interest ep)"
    using assms(3,4,6) by (simp add: epfd_of_def shape_def)
  ultimately show ?thesis using coreD(12) assms(2,5) unfolding home_def by blast
qed

subsection \<open>An undisturbed round\<close>

lemma alone_seq:
  "alone m step stop1 pc s = Some (pc', s') \<Longrightarrow> (\<And>pc. stop2 pc \<Longrightarrow> stop1 pc) \<Longrightarrow> alone n step stop2 pc' s' = Some r \<Longrightarrow>
   alone (m + n) step stop2 pc s = Some r"
proof (induction m arbitrary: pc s)
  case 0
  then show ?case by (simp add: alone_0 split: if_splits)
next
  case (Suc m)
  show ?case
  proof (cases "stop1 pc")
    case True
    with Suc.prems(1) have "pc' = pc" "s' = s" by (simp_all add: alone_stop)
    with Suc.prems(3) show ?thesis using alone_more [of n step stop2 pc s r "Suc m + n"] by simp
  next
    case False
    with Suc.prems(1) obtain pc1 s1 where st: "step pc s = Some (pc1, s1)" "alone m step stop1 pc1 s1 = Some (pc', s')"
      by (auto simp: alone_step bind_eq_Some_conv)
    from False Suc.prems(2) have "\<not> stop2 pc" by blast
    with st Suc.IH [OF st(2) Suc.prems(2,3)] show ?thesis by (simp add: alone_step)
  qed
qed

lemma step_from:
  assumes "race_inv (w\<lparr>r_mem := s, r_dat := (r_dat w)(i := pc)\<rparr>)" "i \<in> data_pcs"
  shows "\<exists>pc' s'. dat_step i rdy pc s = Some (pc', s') \<and> race_inv (w\<lparr>r_mem := s', r_dat := (r_dat w)(i := pc')\<rparr>)"
  using race_inv_dat_step [OF assms, of rdy] by simp

lemma alone_inv:
  "race_inv (w\<lparr>r_mem := s, r_dat := (r_dat w)(i := pc)\<rparr>) \<Longrightarrow> i \<in> data_pcs \<Longrightarrow> alone n (dat_step i rdy) stop pc s = Some (pc', s') \<Longrightarrow>
   race_inv (w\<lparr>r_mem := s', r_dat := (r_dat w)(i := pc')\<rparr>)"
proof (induction n arbitrary: pc s)
  case 0
  then show ?case by (auto simp: alone_0 split: if_splits)
next
  case (Suc n)
  show ?case
  proof (cases "stop pc")
    case True
    with Suc.prems show ?thesis by (auto simp: alone_stop)
  next
    case False
    with Suc.prems(3) obtain pc1 s1 where st: "dat_step i rdy pc s = Some (pc1, s1)" "alone n (dat_step i rdy) stop pc1 s1 = Some (pc', s')"
      by (auto simp: alone_step bind_eq_Some_conv)
    from step_from [OF Suc.prems(1,2), of rdy] st(1)
    have "race_inv (w\<lparr>r_mem := s1, r_dat := (r_dat w)(i := pc1)\<rparr>)" by simp
    from Suc.IH [OF this Suc.prems(2) st(2)] show ?thesis .
  qed
qed

lemma alone_down:
  assumes "\<And>pc s. P pc s \<Longrightarrow> \<not> stop pc \<Longrightarrow> \<exists>pc' s'. step pc s = Some (pc', s') \<and> P pc' s' \<and> rank pc' < (rank pc :: nat)"
  shows "P pc s \<Longrightarrow> rank pc \<le> n \<Longrightarrow> \<exists>pc' s'. alone n step stop pc s = Some (pc', s') \<and> P pc' s' \<and> stop pc'"
proof (induction n arbitrary: pc s)
  case 0
  with assms [OF 0(1)] show ?case by (cases "stop pc") (auto simp: alone_0)
next
  case (Suc n)
  show ?case
  proof (cases "stop pc")
    case False
    from assms [OF Suc.prems(1) False] obtain pc1 s1 where st: "step pc s = Some (pc1, s1)" "P pc1 s1" "rank pc1 < rank pc" by blast
    with Suc.IH [OF st(2)] Suc.prems(2) False show ?thesis by (simp add: alone_step)
  qed (use Suc.prems(1) in \<open>simp add: alone_stop\<close>)
qed

text \<open>The steps left of the handling of one report whose successors are \<open>evs\<close>.\<close>

definition left_of :: "epoll_event list \<Rightarrow> dat_pc \<Rightarrow> nat option" where
  "left_of evs pc = (case pc of
     D_batch l \<Rightarrow> if l = evs then Some 0 else if l \<noteq> [] \<and> tl l = evs then Some 7 else None
   | D_stop ge ret l \<Rightarrow> if l = evs then Some 6 else None
   | D_stop_again ge ret l \<Rightarrow> if l = evs then Some 5 else None
   | D_del_prev ge ret l \<Rightarrow> if l = evs then Some 4 else None
   | D_del_next ge p n ret l \<Rightarrow> if l = evs then Some 3 else None
   | D_close ge ret l \<Rightarrow> if l = evs then Some 2 else None
   | D_free ge ret l \<Rightarrow> if l = evs then Some 1 else None
   | _ \<Rightarrow> None)"

lemma left_of_step:
  "dat_step i rdy pc s = Some (pc', s') \<Longrightarrow> left_of evs pc = Some n \<Longrightarrow> n \<noteq> 0 \<Longrightarrow> \<exists>m. left_of evs pc' = Some m \<and> m < n"
  by (cases pc; simp add: dat_step_def Let_def left_of_def split: if_splits list.splits)
    (auto simp: bind_eq_Some_conv handle_report_def Let_def lift_k_eq split: if_splits)

lemma report_returns:
  assumes inv: "race_inv (w\<lparr>r_mem := s, r_dat := (r_dat w)(i := D_batch (ev # evs))\<rparr>)" and i: "i \<in> data_pcs"
  shows "\<exists>t. alone 7 (dat_step i rdy) (\<lambda>pc. pc = D_batch evs \<or> pc = D_wait) (D_batch (ev # evs)) s = Some (D_batch evs, t)"
proof -
  let ?P = "\<lambda>pc s. race_inv (w\<lparr>r_mem := s, r_dat := (r_dat w)(i := pc)\<rparr>) \<and> left_of evs pc \<noteq> None"
  have "\<exists>pc' s'. alone 7 (dat_step i rdy) (\<lambda>pc. pc = D_batch evs \<or> pc = D_wait) (D_batch (ev # evs)) s = Some (pc', s') \<and>
      ?P pc' s' \<and> (pc' = D_batch evs \<or> pc' = D_wait)"
  proof (rule alone_down [where rank = "\<lambda>pc. the (left_of evs pc)"])
    fix pc s assume P: "?P pc s" and ns: "\<not> (pc = D_batch evs \<or> pc = D_wait)"
    from P obtain n where n: "left_of evs pc = Some n" by auto
    with ns have "n \<noteq> 0" by (auto simp: left_of_def split: dat_pc.splits if_splits)
    moreover obtain pc' s' where st: "dat_step i rdy pc s = Some (pc', s')" "race_inv (w\<lparr>r_mem := s', r_dat := (r_dat w)(i := pc')\<rparr>)"
      using step_from [OF conjunct1 [OF P] i, of rdy] by blast
    ultimately show "\<exists>pc' s'. dat_step i rdy pc s = Some (pc', s') \<and> ?P pc' s' \<and> the (left_of evs pc') < the (left_of evs pc)"
      using left_of_step [OF st(1) n] n by auto
  qed (use inv in \<open>auto simp: left_of_def\<close>)
  then show ?thesis by (auto simp: left_of_def)
qed

lemma batch_equiv:
  assumes i: "i \<in> data_pcs"
  shows "race_inv (w\<lparr>r_mem := s, r_dat := (r_dat w)(i := D_batch evs)\<rparr>) \<Longrightarrow>
    \<exists>t. fold_opt (epoll_dispatch_one ops_call) evs s = Some t \<and>
      alone (Suc (7 * length evs)) (dat_step i rdy) (\<lambda>pc. pc = D_wait) (D_batch evs) s = Some (D_wait, t)"
proof (induction evs arbitrary: s)
  case Nil
  then show ?case by (simp add: alone_step alone_stop dat_eval)
next
  case (Cons ev evs)
  let ?w = "w\<lparr>r_mem := s, r_dat := (r_dat w)(i := D_batch (ev # evs))\<rparr>"
  from report_returns [OF Cons.prems i] obtain t where
    t: "alone 7 (dat_step i rdy) (\<lambda>pc. pc = D_batch evs \<or> pc = D_wait) (D_batch (ev # evs)) s = Some (D_batch evs, t)" by blast
  have b: "batch_ok s i (ev # evs)" using Cons.prems i by (auto simp: race_inv_def dat_ok_def dest!: bspec [of _ _ i])
  have "epoll_dispatch_one ops_call ev s = Some t"
  proof -
    have "alone 7 (dat_step i rdy) (\<lambda>pc. pc = D_batch evs \<or> pc = D_wait) (D_batch (ev # evs)) s =
        map_option (\<lambda>t. (D_batch evs, t)) (epoll_dispatch_one ops_call ev s)"
      by (rule dat_equiv) (use b in \<open>auto simp: batch_ok_def held_def data_event_def\<close>)
    with t show ?thesis by auto
  qed
  moreover from Cons.IH [OF alone_inv [OF Cons.prems i t]] obtain t' where
    t': "fold_opt (epoll_dispatch_one ops_call) evs t = Some t'"
      "alone (Suc (7 * length evs)) (dat_step i rdy) (\<lambda>pc. pc = D_wait) (D_batch evs) t = Some (D_wait, t')" by blast
  moreover have "alone (7 + Suc (7 * length evs)) (dat_step i rdy) (\<lambda>pc. pc = D_wait) (D_batch (ev # evs)) s = Some (D_wait, t')"
    by (rule alone_seq [OF t _ t'(2)]) simp
  moreover have "7 + Suc (7 * length evs) = Suc (7 * length (ev # evs))" by simp
  ultimately show ?case by (metis fold_opt.simps(2) Option.bind.bind_lunit)
qed

text \<open>A round: \<open>epoll_wait\<close> and at most 1024 reports.\<close>

lemma round_equiv:
  assumes inv: "race_inv w" and i: "i \<in> data_pcs" and pc: "r_dat w i = D_wait"
  shows "\<exists>pc s t. dat_step i rdy D_wait (r_mem w) = Some (pc, s) \<and>
    alone 7169 (dat_step i rdy) (\<lambda>pc. pc = D_wait) pc s = Some (D_wait, t) \<and>
    gt_poller_epoll_wait ops_call rdy (g_gt_datanet_poller i) (r_mem w) = Some t"
proof -
  have c: "core (r_mem w)" using inv by (simp add: race_inv_def)
  obtain p where p: "gpollers (r_mem w) (g_gt_datanet_poller i) = Some p" by (rule dat_poller [OF c i])
  obtain n evs k where w: "sys_epoll_wait rdy (gp_epfd p) (gp_ee p) (gp_maxe p) (kern (r_mem w)) = (n, evs, k)" by (metis prod_cases3)
  from race_inv_wait [OF inv i pc, of rdy] pc obtain pc' s where
    st: "dat_step i rdy D_wait (r_mem w) = Some (pc', s)" "race_inv (w\<lparr>r_mem := s, r_dat := (r_dat w)(i := pc')\<rparr>)" by auto
  show ?thesis
  proof (cases "0 < n")
    case False
    with st p w have "pc' = D_wait" "gt_poller_epoll_wait ops_call rdy (g_gt_datanet_poller i) (r_mem w) = Some s"
      by (auto simp: dat_eval gt_poller_epoll_wait_def)
    with st show ?thesis by (simp add: alone_stop)
  next
    case True
    from report_held(2) [OF c i p w True] obtain sz where sz: "blocks (r_mem w) (gp_ee p) = Some sz" "n * sizeof_epoll_event \<le> sz" by blast
    with True st(1) p w have s: "pc' = D_batch evs" "s = (r_mem w)\<lparr>kern := k\<rparr>" by (auto simp: dat_eval)
    from batch_equiv [OF i, where w = w and s = s and evs = evs and rdy = rdy] st(2) s(1) obtain t where t: "fold_opt (epoll_dispatch_one ops_call) evs s = Some t"
      "alone (Suc (7 * length evs)) (dat_step i rdy) (\<lambda>pc. pc = D_wait) (D_batch evs) s = Some (D_wait, t)" by blast
    have "n = int (length evs) \<and> n \<le> gp_maxe p" using True by (rule_tac epoll_report [OF w]) auto
    moreover have "gp_maxe p \<le> 1024"
    proof -
      have "maxe_of (g_gt_datanet_poller i) \<le> 1024" by (simp add: maxe_of_def GT_CORE_MAXEVENT_def GT_NETWORKER_MAXEVENT_def)
      with coreD(3) [OF c] p show ?thesis by (force simp: buffers_ok_def)
    qed
    ultimately have "Suc (7 * length evs) \<le> 7169" by simp
    from alone_more [OF t(2) this] t(1) st(1) s sz True p w show ?thesis by (simp add: gt_poller_epoll_wait_def)
  qed
qed

subsection \<open>A concrete interleaving\<close>

text \<open>Schedules: the environment's choices and the thread that takes the next step.\<close>

datatype turn = T_accept fd | T_acc | T_dat nat readiness | T_peer fd

definition take_turn :: "turn \<Rightarrow> race \<Rightarrow> race option" where
  "take_turn tn w = (case tn of
     T_accept lfd \<Rightarrow> (case accept_conn lfd (r_mem w) of
         Some (Inr cfd, s) \<Rightarrow> if r_acc w = A_idle then Some (w\<lparr>r_mem := s, r_acc := A_dispatch cfd\<rparr>) else None
       | _ \<Rightarrow> None)
   | T_acc \<Rightarrow> map_option (\<lambda>(pc, s). w\<lparr>r_mem := s, r_acc := pc\<rparr>) (acc_step (r_acc w) (r_mem w))
   | T_dat i rdy \<Rightarrow> if i < GT_DATANET_PTHREAD_NUM
       then map_option (\<lambda>(pc, s). w\<lparr>r_mem := s, r_dat := (r_dat w)(i := pc)\<rparr>) (dat_step i rdy (r_dat w i) (r_mem w)) else None
   | T_peer fd \<Rightarrow> Some (w\<lparr>r_mem := poke fd (f_eof_update (\<lambda>_. True)) (r_mem w)\<rparr>))"

lemma poke_env: "\<exists>k. poke fd (f_eof_update g) s = s\<lparr>kern := k\<rparr> \<and> env_change (kern s) k"
proof (cases "file_at (kern s) fd")
  case None
  then show ?thesis by (intro exI [of _ "kern s"]) (simp add: poke_def)
next
  case (Some f)
  have "env_change (kern s) (put_file fd (f_eof_update g f) (kern s))"
    using Some by (auto simp: env_change_def shape_put_same [OF Some] file_at_put_fun)
  with Some show ?thesis by (auto simp: poke_def)
qed

lemma take_turn_step: "take_turn tn w = Some w' \<Longrightarrow> race_step w w'"
proof (cases tn)
  case (T_peer fd)
  assume "take_turn tn w = Some w'"
  moreover from poke_env [of fd _ "r_mem w"] obtain k where "poke fd (f_eof_update (\<lambda>_. True)) (r_mem w) = (r_mem w)\<lparr>kern := k\<rparr>"
    "env_change (kern (r_mem w)) k" by blast
  ultimately show ?thesis using T_peer by (auto simp: take_turn_def intro: race_step.env)
next
  case (T_dat i rdy)
  assume "take_turn tn w = Some w'"
  with T_dat obtain pc s where "i \<in> data_pcs" "dat_step i rdy (r_dat w i) (r_mem w) = Some (pc, s)"
    "w' = w\<lparr>r_mem := s, r_dat := (r_dat w)(i := pc)\<rparr>" by (auto simp: take_turn_def data_pcs_def split: if_splits)
  then show ?thesis using race_step.dat by blast
qed (auto simp: take_turn_def intro: race_step.accepted race_step.acc split: option.splits sum.splits prod.splits if_splits)

lemma turns_run: "fold_opt take_turn ts w = Some w' \<Longrightarrow> race_step\<^sup>*\<^sup>* w w'"
  by (induction ts arbitrary: w) (auto simp: bind_eq_Some_conv intro: converse_rtranclp_into_rtranclp take_turn_step)

lemma run_reachable: "race_step\<^sup>*\<^sup>* w w' \<Longrightarrow> race_reachable w \<Longrightarrow> race_reachable w'"
  by (induction rule: rtranclp_induct) (blast intro: race_reachable.step)+

lemma turns_reachable: "fold_opt take_turn ts w = Some w' \<Longrightarrow> race_reachable w \<Longrightarrow> race_reachable w'"
  by (rule run_reachable [OF turns_run])

text \<open>A listening socket (descriptor 3) with two waiting peers, and nothing else besides the standard files.\<close>

definition demo_shared :: gt_state where
  "demo_shared = (boot_state demo_kernel)\<lparr>kern := demo_kernel\<lparr>k_fds := k_fds demo_kernel @
     [Some ((new_file FK_listen)\<lparr>f_flags := O_NONBLOCK, f_pending := 2\<rparr>)]\<rparr>\<rparr>"

definition demo_race :: race where
  "demo_race = \<lparr>r_mem = demo_shared, r_acc = A_idle, r_dat = (\<lambda>_. D_start)\<rparr>"

lemma demo_race_start: "race_start demo_race"
proof -
  let ?k = "demo_kernel\<lparr>k_fds := k_fds demo_kernel @ [Some ((new_file FK_listen)\<lparr>f_flags := O_NONBLOCK, f_pending := 2\<rparr>)]\<rparr>"
  have sh: "shape ?k fd = Some (kd, m) \<Longrightarrow> m = Map.empty \<and> kd \<noteq> FK_sock" for fd kd m
    by (auto simp: shape_def file_at_def demo_kernel_def boot_kernel_def new_file_def nth_Cons' numeral_eq_Suc split: if_splits)
  have "sys_inv (boot_state demo_kernel)" using sys_inv_boot unfolding demo_kernel_def by blast
  then have "sys_inv demo_shared" unfolding demo_shared_def
    by (rule sys_inv_entries) (use sh in \<open>fastforce simp: entries_ok_def\<close>)
  moreover have "mild (kern demo_shared)" using demo_mild by (simp add: mild_def demo_shared_def)
  moreover have "shape (kern demo_shared) 0 = Some (FK_file, Map.empty)"
    by (simp add: demo_shared_def shape_def file_at_def demo_kernel_def boot_kernel_def new_file_def numeral_eq_Suc)
  moreover have "gpollers demo_shared (g_gt_datanet_poller i) = Some \<lparr>gp_epfd = 0, gp_ee = NULL, gp_maxe = 0, gp_timeout = 0\<rparr>" if "i \<in> data_pcs" for i
    using that by (auto simp: demo_shared_def boot_state_def data_pcs_def static_pollers_def)
  moreover have "shape (kern demo_shared) fd \<noteq> Some (FK_sock, m)" for fd m
    using sh [of fd FK_sock m] by (auto simp: demo_shared_def)
  moreover have "gevents demo_shared = Map.empty" by (simp add: demo_shared_def boot_state_def)
  ultimately show ?thesis by (simp add: race_start_def demo_race_def sys_ok_def epfd_of_def Let_def)
qed

text \<open>
  Data thread 1 creates its epoll set, the peer is accepted as descriptor 5, and the two threads
  write to the list head of poller 1 in turns. Then the thread waits while the event is started.
\<close>

definition demo_turns :: "turn list" where
  "demo_turns = [T_dat 1 ([], \<lambda>_. 0), T_accept 3, T_acc, T_acc, T_dat 1 ([], \<lambda>_. 0), T_acc, T_dat 1 ([], \<lambda>_. 0), T_acc, T_acc, T_peer 5]"

definition demo_raced :: "race option" where
  "demo_raced = fold_opt take_turn demo_turns demo_race"

definition demo_raced_check :: bool where
  "demo_raced_check = (case demo_raced of None \<Rightarrow> False | Some w \<Rightarrow> r_dat w 1 = D_wait \<and> r_acc w = A_idle \<and>
     (case (gevents (r_mem w) 0x800600, lists (r_mem w) (gp_elist (g_gt_datanet_poller 1))) of
        (Some gev, Some h) \<Rightarrow> ge_efd gev = 5 \<and> kernel_entry (r_mem w) gev = Some \<lparr>ev_events = EPOLLIN, ev_ptr = 0x800600\<rparr> \<and>
          lnext h = gp_elist (g_gt_datanet_poller 1) \<and> lprev h = gp_elist (g_gt_datanet_poller 1)
      | _ \<Rightarrow> False))"

lemma demo_raced_facts:
  obtains w gev where "demo_raced = Some w" "race_reachable w" "r_dat w 1 = D_wait" "gevents (r_mem w) 0x800600 = Some gev"
    "ge_efd gev = 5" "kernel_entry (r_mem w) gev = Some \<lparr>ev_events = EPOLLIN, ev_ptr = 0x800600\<rparr>"
    "lists (r_mem w) (gp_elist (g_gt_datanet_poller 1)) =
       Some \<lparr>lnext = gp_elist (g_gt_datanet_poller 1), lprev = gp_elist (g_gt_datanet_poller 1)\<rparr>"
proof -
  have "demo_raced_check" by code_simp
  then obtain w gev h where w: "demo_raced = Some w" "r_dat w 1 = D_wait" "gevents (r_mem w) 0x800600 = Some gev" "ge_efd gev = 5"
    "kernel_entry (r_mem w) gev = Some \<lparr>ev_events = EPOLLIN, ev_ptr = 0x800600\<rparr>"
    "lists (r_mem w) (gp_elist (g_gt_datanet_poller 1)) = Some h"
    "lnext h = gp_elist (g_gt_datanet_poller 1)" "lprev h = gp_elist (g_gt_datanet_poller 1)"
    by (auto simp: demo_raced_check_def split: option.splits)
  have "race_reachable w"
    using turns_reachable [of demo_turns demo_race w] race_reachable.start [OF demo_race_start] w(1) by (simp add: demo_raced_def)
  with w that show ?thesis by (cases h) simp
qed

subsection \<open>Properties\<close>





end
