(* ===== verification/GT_Race_Spec.thy ===== *)
theory GT_Race_Spec
  imports GT_Race_Safe
begin

text \<open>
  What the hand-over of \<open>GT_Race\<close> promises, as a state machine of connections without memory, links,
  epoll sets or program positions, and the proof that every interleaving of the threads refines it.
\<close>

subsection \<open>Refinement maps\<close>

text \<open>
  A machine with an invariant and a function to the states of another machine that follows each of its
  steps with one step or none. What the other machine keeps, the first one keeps.
\<close>

locale refinement_map =
  fixes init :: "'c \<Rightarrow> bool" and step :: "'c \<Rightarrow> 'c \<Rightarrow> bool" and inv :: "'c \<Rightarrow> bool"
    and abs_of :: "'c \<Rightarrow> 'a" and ainit :: "'a \<Rightarrow> bool" and astep :: "'a \<Rightarrow> 'a \<Rightarrow> bool"
  assumes inv_init: "init c \<Longrightarrow> inv c"
    and inv_step: "inv c \<Longrightarrow> step c c' \<Longrightarrow> inv c'"
    and abs_init: "init c \<Longrightarrow> ainit (abs_of c)"
    and abs_step: "inv c \<Longrightarrow> step c c' \<Longrightarrow> astep\<^sup>=\<^sup>= (abs_of c) (abs_of c')"
begin

lemma run_inv: "step\<^sup>*\<^sup>* c c' \<Longrightarrow> inv c \<Longrightarrow> inv c'"
  by (induction rule: rtranclp_induct) (blast intro: inv_step)+

lemma run_refines: "step\<^sup>*\<^sup>* c c' \<Longrightarrow> inv c \<Longrightarrow> astep\<^sup>*\<^sup>* (abs_of c) (abs_of c')"
proof (induction rule: rtranclp_induct)
  case (step d e)
  from abs_step [OF run_inv [OF step.hyps(1) step.prems] step.hyps(2)] step.IH [OF step.prems]
  show ?case by (auto intro: rtranclp.rtrancl_into_rtrancl)
qed simp

lemma run_keeps:
  assumes "step\<^sup>*\<^sup>* c c'" "inv c" "P (abs_of c)" and keep: "\<And>a a'. astep a a' \<Longrightarrow> P a \<Longrightarrow> P a'"
  shows "P (abs_of c')"
  using run_refines [OF assms(1,2)] assms(3)
  by (induction rule: rtranclp_induct) (blast intro: keep)+

lemma reached_keeps:
  assumes "init c" "step\<^sup>*\<^sup>* c c'" and start: "\<And>a. ainit a \<Longrightarrow> P a" and keep: "\<And>a a'. astep a a' \<Longrightarrow> P a \<Longrightarrow> P a'"
  shows "P (abs_of c')"
  using run_keeps [where P = P, OF assms(2) inv_init [OF assms(1)]] abs_init [OF assms(1)] start keep by blast

end

subsection \<open>The life of a connection\<close>

text \<open>
  A connection is handed over by the accepting thread, then served by a data thread until that thread
  closes it, or it is lost: open, but in no thread's set. Each step is the step of one actor.
\<close>

datatype stage = Handed | Served nat | Lost

type_synonym conns = "fd \<rightharpoonup> stage"

definition one_handed :: "conns \<Rightarrow> bool" where
  "one_handed c \<longleftrightarrow> (\<forall>fd fd'. c fd = Some Handed \<longrightarrow> c fd' = Some Handed \<longrightarrow> fd = fd')"

definition served_by_number :: "conns \<Rightarrow> bool" where
  "served_by_number c \<longleftrightarrow> (\<forall>fd i. c fd = Some (Served i) \<longrightarrow> i = nat (fd mod 4))"

datatype actor = Acceptor | Data nat | World

inductive conn_step :: "actor \<Rightarrow> conns \<Rightarrow> conns \<Rightarrow> bool" where
  accept: "c fd = None \<Longrightarrow> \<forall>x. c x \<noteq> Some Handed \<Longrightarrow> conn_step Acceptor c (c(fd \<mapsto> Handed))"
| serve: "c fd = Some Handed \<Longrightarrow> conn_step Acceptor c (c(fd \<mapsto> Served (nat (fd mod 4))))"
| lose: "c fd = Some Handed \<Longrightarrow> conn_step Acceptor c (c(fd \<mapsto> Lost))"
| close: "c fd = Some (Served i) \<Longrightarrow> conn_step (Data i) c (c(fd := None))"

lemma conn_step_one_handed: "conn_step a c c' \<Longrightarrow> one_handed c \<Longrightarrow> one_handed c'"
  by (induction rule: conn_step.induct) (simp_all add: one_handed_def)

lemma conn_step_by_number: "conn_step a c c' \<Longrightarrow> served_by_number c \<Longrightarrow> served_by_number c'"
  by (induction rule: conn_step.induct) (simp_all add: served_by_number_def)

lemma conn_step_lost: "conn_step a c c' \<Longrightarrow> c fd = Some Lost \<Longrightarrow> c' fd = Some Lost"
  by (induction rule: conn_step.induct) auto

subsection \<open>The connections of a state\<close>

text \<open>The descriptor that the accepting thread has in hand, and the sets of the data threads.\<close>

definition acc_fd :: "acc_pc \<Rightarrow> fd option" where
  "acc_fd pc = (case pc of A_idle \<Rightarrow> None | A_dispatch fd \<Rightarrow> Some fd | A_head_next fd gp ge n \<Rightarrow> Some fd
     | A_head_prev fd gp ge \<Rightarrow> Some fd | A_close_ring fd gp ge \<Rightarrow> Some fd | A_start fd ge \<Rightarrow> Some fd)"

definition is_conn :: "gt_state \<Rightarrow> fd \<Rightarrow> bool" where
  "is_conn s fd = (case shape (kern s) fd of Some (FK_sock, _) \<Rightarrow> True | _ \<Rightarrow> False)"

definition in_set :: "gt_state \<Rightarrow> nat \<Rightarrow> fd \<Rightarrow> bool" where
  "in_set s i fd = (case shape (kern s) (epfd_of s i) of Some (FK_epoll, m) \<Rightarrow> m fd \<noteq> None | _ \<Rightarrow> False)"

definition stage_of :: "acc_pc \<Rightarrow> gt_state \<Rightarrow> fd \<Rightarrow> stage" where
  "stage_of pc s fd = (case List.find (\<lambda>i. in_set s i fd) [0..<GT_DATANET_PTHREAD_NUM] of Some i \<Rightarrow> Served i
     | None \<Rightarrow> if acc_fd pc = Some fd then Handed else Lost)"

definition conns_of :: "race \<Rightarrow> conns" where
  "conns_of w fd = (if is_conn (r_mem w) fd then Some (stage_of (r_acc w) (r_mem w) fd) else None)"

lemma is_conn_iff: "is_conn s fd \<longleftrightarrow> (\<exists>m. shape (kern s) fd = Some (FK_sock, m))"
  by (auto simp: is_conn_def split: option.splits fkind.splits)

lemma in_set_iff: "in_set s i fd \<longleftrightarrow> (\<exists>m v. shape (kern s) (epfd_of s i) = Some (FK_epoll, m) \<and> m fd = Some v)"
  by (auto simp: in_set_def split: option.splits fkind.splits)

text \<open>A step that leaves the connections as they are.\<close>

definition quiet :: "gt_state \<Rightarrow> gt_state \<Rightarrow> bool" where
  "quiet s s' \<longleftrightarrow> (\<forall>fd. is_conn s' fd = is_conn s fd) \<and> (\<forall>i \<in> data_pcs. \<forall>fd. in_set s' i fd = in_set s i fd)"

lemma data_list: "set [0..<GT_DATANET_PTHREAD_NUM] = data_pcs"
  by (auto simp: data_pcs_def)

lemma stage_cong:
  assumes "\<And>i. i \<in> data_pcs \<Longrightarrow> in_set s' i fd = in_set s i fd" "acc_fd pc' = Some fd \<longleftrightarrow> acc_fd pc = Some fd"
  shows "stage_of pc' s' fd = stage_of pc s fd"
proof -
  have "List.find (\<lambda>i. in_set s' i fd) [0..<GT_DATANET_PTHREAD_NUM] = List.find (\<lambda>i. in_set s i fd) [0..<GT_DATANET_PTHREAD_NUM]"
    using assms(1) data_list by (intro find_cong) auto
  with assms(2) show ?thesis by (simp add: stage_of_def split: option.split)
qed

lemma stage_unset:
  assumes "\<And>i. i \<in> data_pcs \<Longrightarrow> \<not> in_set s i fd"
  shows "stage_of pc s fd = (if acc_fd pc = Some fd then Handed else Lost)"
proof -
  have "List.find (\<lambda>i. in_set s i fd) [0..<GT_DATANET_PTHREAD_NUM] = None"
    unfolding find_None_iff using assms data_list by blast
  then show ?thesis by (simp add: stage_of_def)
qed

lemma stage_set:
  assumes "in_set s i fd" "i \<in> data_pcs" "\<And>j. j \<in> data_pcs \<Longrightarrow> in_set s j fd \<Longrightarrow> j = i"
  shows "stage_of pc s fd = Served i"
proof (cases "List.find (\<lambda>i. in_set s i fd) [0..<GT_DATANET_PTHREAD_NUM]")
  case None
  with assms(1,2) data_list show ?thesis unfolding find_None_iff by blast
next
  case (Some j)
  then have "j \<in> data_pcs" "in_set s j fd" using data_list unfolding find_Some_iff by (auto simp: data_pcs_def)
  with assms(3) Some show ?thesis by (simp add: stage_of_def)
qed

lemma conns_quiet:
  "quiet (r_mem w) (r_mem w') \<Longrightarrow> acc_fd (r_acc w') = acc_fd (r_acc w) \<Longrightarrow> conns_of w' = conns_of w"
  by (rule ext) (auto simp: conns_of_def quiet_def intro: stage_cong)

lemma quiet_shape: "shape (kern s') = shape (kern s) \<Longrightarrow> epfd_of s' = epfd_of s \<Longrightarrow> quiet s s'"
  by (simp add: quiet_def is_conn_def in_set_def)

subsection \<open>Steps of the accepting thread\<close>

lemma new_sock_handed:
  assumes "new_sock (kern (r_mem w)) fd" "acc_fd (r_acc w) = Some fd"
  shows "conns_of w fd = Some Handed"
proof -
  from assms(1) have "is_conn (r_mem w) fd" "\<not> in_set (r_mem w) i fd" for i
    by (auto simp: new_sock_def is_conn_iff in_set_iff unregistered_def)
  with assms(2) show ?thesis by (simp add: conns_of_def stage_unset)
qed

lemma acc_fd_sock: "acc_ok s pc \<Longrightarrow> acc_fd pc = Some fd \<Longrightarrow> new_sock (kern s) fd"
  by (cases pc) (auto simp: acc_ok_def acc_fd_def building_def)

text \<open>The thread lets go of the descriptor, whose stage becomes \<open>st\<close>.\<close>

lemma conns_let_go:
  assumes inv: "race_inv w" and fd: "acc_fd (r_acc w) = Some fd" and idle: "r_acc w' = A_idle"
    and k: "\<And>x. is_conn (r_mem w') x = is_conn (r_mem w) x"
    and old: "\<And>i x. i \<in> data_pcs \<Longrightarrow> x \<noteq> fd \<Longrightarrow> in_set (r_mem w') i x = in_set (r_mem w) i x"
    and new: "stage_of A_idle (r_mem w') fd = st"
  shows "conns_of w fd = Some Handed" "conns_of w' = (conns_of w)(fd \<mapsto> st)"
proof -
  have n: "new_sock (kern (r_mem w)) fd" using inv acc_fd_sock [OF _ fd] by (simp add: race_inv_def)
  from new_sock_handed [OF this fd] show h: "conns_of w fd = Some Handed" .
  have "conns_of w' x = conns_of w x" if "x \<noteq> fd" for x
  proof -
    have "stage_of (r_acc w') (r_mem w') x = stage_of (r_acc w) (r_mem w) x"
      using that old [OF _ that] fd idle by (intro stage_cong) (auto simp: acc_fd_def)
    then show ?thesis by (simp add: conns_of_def k)
  qed
  moreover have "conns_of w' fd = Some st" using h new idle by (simp add: conns_of_def k split: if_splits)
  ultimately show "conns_of w' = (conns_of w)(fd \<mapsto> st)" by auto
qed

lemma acc_frame:
  assumes "acc_step pc s = Some (pc', s')" "\<forall>fd ge. pc \<noteq> A_start fd ge"
  shows "shape (kern s') = shape (kern s)" "epfd_of s' = epfd_of s" "acc_fd pc' = acc_fd pc \<or> pc' = A_idle"
proof -
  have "shape (kern s') = shape (kern s) \<and> gpollers s' = gpollers s \<and> (acc_fd pc' = acc_fd pc \<or> pc' = A_idle)"
  proof (cases pc)
    case (A_dispatch fd)
    obtain ge s1 where m: "gt_malloc_mem GT_MOD_CORE GT_MEM_TYPE_FML sizeof_gt_event s = (ge, s1)" by fastforce
    then have "shape (kern s1) = shape (kern s)" "gpollers s1 = gpollers s" by (cases rule: malloc_cases; simp)+
    with assms A_dispatch m show ?thesis
      by (auto simp: acc_step_def Let_def bind_eq_Some_conv memset_event_def put_event_def acc_fd_def GT_ERROR_LOG_def split: if_splits)
  qed (use assms in \<open>auto simp: acc_step_def Let_def bind_eq_Some_conv put_event_def acc_fd_def\<close>)
  then show "shape (kern s') = shape (kern s)" "epfd_of s' = epfd_of s" "acc_fd pc' = acc_fd pc \<or> pc' = A_idle"
    by (auto simp: epfd_of_def fun_eq_iff)
qed

text \<open>Starting or stopping an event changes at most the entry of its descriptor in the set of its poller.\<close>

definition entered :: "nat \<Rightarrow> fd \<Rightarrow> gt_state \<Rightarrow> gt_state \<Rightarrow> bool" where
  "entered i fd s s' \<longleftrightarrow> epfd_of s' = epfd_of s \<and> (shape (kern s') = shape (kern s) \<or>
     (\<exists>m v. shape (kern s) (epfd_of s i) = Some (FK_epoll, m) \<and>
        shape (kern s') = (shape (kern s))(epfd_of s i \<mapsto> (FK_epoll, m(fd \<mapsto> v)))))"

lemma ctl_entered:
  assumes "gevents s ge = Some gev" "ge_gpoller gev = g_gt_datanet_poller i"
    and "gt_poller_event_start fl ge s = Some (r, s') \<or> gt_poller_event_stop fl ge s = Some (r, s')"
  shows "entered i (ge_efd gev) s s'"
proof -
  have ctl: "entered i (ge_efd gev) s t"
    if "gpollers s (ge_gpoller gev) = Some p" "sys_epoll_ctl (gp_epfd p) cop (ge_efd gev) v (kern s) = (q, k)" "cop \<noteq> EPOLL_CTL_DEL"
      "shape (kern t) = shape k" "gpollers t = gpollers s" for p cop v q k t
  proof -
    have e: "epfd_of s i = gp_epfd p" "epfd_of t = epfd_of s" using that(1,5) assms(2) by (auto simp: epfd_of_def fun_eq_iff)
    with ctl_effect(3) [OF that(2,3)] that(4) show ?thesis by (auto simp: entered_def)
  qed
  from assms(3) show ?thesis
  proof
    assume st: "gt_poller_event_start fl ge s = Some (r, s')"
    show ?thesis
    proof (cases "ev_events (ge_e gev) AND fl = 0")
      case False
      with st assms(1) show ?thesis by (simp add: gt_poller_event_start_def entered_def)
    next
      case True
      let ?v = "\<lparr>ev_events = ev_events (ge_e gev) OR fl, ev_ptr = ge\<rparr>" and ?c = "if ev_events (ge_e gev) \<noteq> 0 then EPOLL_CTL_MOD else EPOLL_CTL_ADD"
      from st assms(1) True obtain p where p: "gpollers s (ge_gpoller gev) = Some p"
        by (auto simp: gt_poller_event_start_def Let_def bind_eq_Some_conv put_event_def)
      obtain q k where k: "sys_epoll_ctl (gp_epfd p) ?c (ge_efd gev) ?v (kern s) = (q, k)" by fastforce
      show ?thesis
        by (rule ctl [OF p k]) (use event_start_eval [OF assms(1) p True refl refl k refl] st in
          \<open>auto simp: put_event_def GT_ERROR_LOG_def split: if_splits\<close>)
    qed
  next
    assume st: "gt_poller_event_stop fl ge s = Some (r, s')"
    show ?thesis
    proof (cases "ev_events (ge_e gev) AND fl = 0")
      case True
      with st assms(1) show ?thesis by (simp add: gt_poller_event_stop_def entered_def)
    next
      case False
      let ?v = "(ge_e gev)\<lparr>ev_events := ev_events (ge_e gev) AND NOT fl\<rparr>"
      from st assms(1) False obtain p where p: "gpollers s (ge_gpoller gev) = Some p"
        by (auto simp: gt_poller_event_stop_def Let_def bind_eq_Some_conv put_event_def)
      obtain q k where k: "sys_epoll_ctl (gp_epfd p) EPOLL_CTL_MOD (ge_efd gev) ?v (kern s) = (q, k)" by fastforce
      show ?thesis
        by (rule ctl [OF p k]) (use event_stop_eval [OF assms(1) p False refl k refl] st in
          \<open>auto simp: put_event_def GT_ERROR_LOG_def split: if_splits\<close>)
    qed
  qed
qed

text \<open>The sets of two threads are different, so an entry is in the set of one thread.\<close>

lemma entered_sets:
  assumes e: "entered i fd s s'" and c: "core s" and i: "i \<in> data_pcs"
  shows "is_conn s' x = is_conn s x" "j \<in> data_pcs \<Longrightarrow> j \<noteq> i \<or> x \<noteq> fd \<Longrightarrow> in_set s' j x = in_set s j x"
    "in_set s i fd \<Longrightarrow> in_set s' i fd"
proof -
  consider "shape (kern s') = shape (kern s)" "epfd_of s' = epfd_of s" |
    m v where "shape (kern s) (epfd_of s i) = Some (FK_epoll, m)" "epfd_of s' = epfd_of s"
      "shape (kern s') = (shape (kern s))(epfd_of s i \<mapsto> (FK_epoll, m(fd \<mapsto> v)))"
    using e by (auto simp: entered_def)
  then have "is_conn s' x = is_conn s x \<and> (j \<in> data_pcs \<longrightarrow> j \<noteq> i \<or> x \<noteq> fd \<longrightarrow> in_set s' j x = in_set s j x) \<and>
    (in_set s i fd \<longrightarrow> in_set s' i fd)"
  proof cases
    case 1
    then show ?thesis by (simp add: is_conn_def in_set_def)
  next
    case 2
    have "epfd_of s j \<noteq> epfd_of s i" if "j \<in> data_pcs" "j \<noteq> i"
      using coreD(13) [OF c] i that 2(1) unfolding own_sets_def by metis
    with 2 show ?thesis by (auto simp: is_conn_iff in_set_iff)
  qed
  then show "is_conn s' x = is_conn s x" "j \<in> data_pcs \<Longrightarrow> j \<noteq> i \<or> x \<noteq> fd \<Longrightarrow> in_set s' j x = in_set s j x"
    "in_set s i fd \<Longrightarrow> in_set s' i fd" by blast+
qed

lemma conns_start:
  assumes inv: "race_inv w" and a: "r_acc w = A_start fd ge" and st: "acc_step (r_acc w) (r_mem w) = Some (pc, s)"
  shows "conn_step Acceptor (conns_of w) (conns_of (w\<lparr>r_mem := s, r_acc := pc\<rparr>))"
proof -
  let ?s = "r_mem w" and ?i = "nat (fd mod 4)" and ?w = "w\<lparr>r_mem := s, r_acc := pc\<rparr>"
  have c: "core ?s" and n: "new_sock (kern ?s) fd"
    and g: "gevents ?s ge = Some (with_reader FN_datanet_ops_read (created_event fd (g_gt_datanet_poller ?i)))"
    using inv a by (auto simp: race_inv_def acc_ok_def)
  from st a obtain r t where t: "gt_poller_event_start EPOLLIN ge ?s = Some (r, t)" and
    s: "shape (kern s) = shape (kern t)" "gpollers s = gpollers t" "pc = A_idle"
    by (auto simp: acc_step_def Let_def bind_eq_Some_conv GT_ERROR_LOG_def split: if_splits)
  have e: "entered ?i fd ?s s"
    using ctl_entered [OF g, of ?i EPOLLIN r t] t s by (auto simp: with_reader_def entered_def epfd_of_def fun_eq_iff)
  note E = entered_sets [OF e c mod4_data]
  have un: "\<not> in_set ?s i fd" for i using n by (auto simp: new_sock_def in_set_iff unregistered_def)
  have fd: "acc_fd (r_acc w) = Some fd" using a by (simp add: acc_fd_def)
  note L = conns_let_go [OF inv fd, of ?w]
  show ?thesis
  proof (cases "in_set s ?i fd")
    case True
    have "j = ?i" if "j \<in> data_pcs" "in_set s j fd" for j using E(2) [of j fd] that un by blast
    then have "stage_of A_idle s fd = Served ?i" by (rule stage_set [OF True mod4_data])
    with L [of "Served ?i"] E s(3) show ?thesis by (auto intro: conn_step.serve)
  next
    case False
    have "\<not> in_set s j fd" if "j \<in> data_pcs" for j using E(2) [OF that, of fd] un False by (cases "j = ?i") auto
    then have "stage_of A_idle s fd = Lost" by (simp add: stage_unset acc_fd_def)
    with L [of Lost] E s(3) show ?thesis by (auto intro: conn_step.lose)
  qed
qed

lemma conns_acc:
  assumes inv: "race_inv w" and st: "acc_step (r_acc w) (r_mem w) = Some (pc, s)"
  shows "(conn_step Acceptor)\<^sup>=\<^sup>= (conns_of w) (conns_of (w\<lparr>r_mem := s, r_acc := pc\<rparr>))"
proof (cases "\<exists>fd ge. r_acc w = A_start fd ge")
  case True
  with conns_start [OF inv _ st] show ?thesis by auto
next
  case False
  let ?w = "w\<lparr>r_mem := s, r_acc := pc\<rparr>"
  from False have ns: "\<forall>fd ge. r_acc w \<noteq> A_start fd ge" by blast
  note F = acc_frame [OF st ns]
  have q: "quiet (r_mem w) s" using F(1,2) by (rule quiet_shape)
  show ?thesis
  proof (cases "acc_fd pc = acc_fd (r_acc w)")
    case True
    with q conns_quiet [of w ?w] show ?thesis by simp
  next
    case False
    with F(3) have idle: "pc = A_idle" by simp
    with False obtain fd where fd: "acc_fd (r_acc w) = Some fd" by (cases "acc_fd (r_acc w)") (auto simp: acc_fd_def)
    have "new_sock (kern (r_mem w)) fd" using inv acc_fd_sock [OF _ fd] by (simp add: race_inv_def)
    then have "\<not> in_set s i fd" if "i \<in> data_pcs" for i
      using q that by (auto simp: quiet_def new_sock_def in_set_iff unregistered_def)
    then have "stage_of A_idle s fd = Lost" by (simp add: stage_unset acc_fd_def)
    with conns_let_go [OF inv fd, of ?w Lost] q idle show ?thesis by (auto simp: quiet_def intro: conn_step.lose)
  qed
qed

lemma conns_accept:
  assumes inv: "race_inv w" and a: "accept_conn lfd (r_mem w) = Some (Inr cfd, s)" and idle: "r_acc w = A_idle"
  shows "conn_step Acceptor (conns_of w) (conns_of (w\<lparr>r_mem := s, r_acc := A_dispatch cfd\<rparr>))"
proof -
  let ?s = "r_mem w" and ?w = "w\<lparr>r_mem := s, r_acc := A_dispatch cfd\<rparr>"
  have c: "core ?s" using inv by (simp add: race_inv_def)
  from accept_conn_effect [OF a coreD(1) [OF c]] obtain k where s: "s = ?s\<lparr>kern := k\<rparr>" and g: "grown (kern ?s) cfd k" by auto
  have sh: "shape k = (shape (kern ?s))(cfd \<mapsto> (FK_sock, Map.empty))" "shape (kern ?s) cfd = None" using g by (auto simp: grown_def)
  have un: "unregistered (kern ?s) cfd" using unregisteredI [OF coreD(1) [OF c] sh(2)] .
  have i: "in_set s i x = in_set ?s i x" for i x using sh by (auto simp: s in_set_iff)
  have "conns_of ?w x = conns_of w x" if "x \<noteq> cfd" for x
  proof -
    have "is_conn s x = is_conn ?s x" using that sh by (simp add: s is_conn_iff)
    moreover have "stage_of (A_dispatch cfd) s x = stage_of (r_acc w) ?s x"
      by (rule stage_cong) (use i idle that in \<open>auto simp: acc_fd_def\<close>)
    ultimately show ?thesis by (simp add: conns_of_def)
  qed
  moreover have "conns_of ?w cfd = Some Handed"
  proof -
    have "\<not> in_set s i cfd" for i using un i by (auto simp: in_set_iff unregistered_def)
    then show ?thesis using sh by (simp add: conns_of_def stage_unset acc_fd_def s is_conn_iff)
  qed
  ultimately have "conns_of ?w = (conns_of w)(cfd \<mapsto> Handed)" by auto
  moreover have "conns_of w cfd = None" using sh by (simp add: conns_of_def is_conn_iff)
  moreover have "conns_of w x \<noteq> Some Handed" for x
    using idle by (auto simp: conns_of_def stage_of_def acc_fd_def split: option.splits)
  ultimately show ?thesis using conn_step.accept [of "conns_of w" cfd] by simp
qed

subsection \<open>Steps of a data thread\<close>

lemma conns_dat_quiet:
  assumes "race_inv w" "quiet (r_mem w) s"
  shows "(conn_step (Data i))\<^sup>=\<^sup>= (conns_of w) (conns_of (w\<lparr>r_mem := s, r_dat := d\<rparr>))"
  using conns_quiet [of w "w\<lparr>r_mem := s, r_dat := d\<rparr>"] assms(2) by simp

lemma quiet_env: "env_change (kern s) k \<Longrightarrow> quiet s (s\<lparr>kern := k\<rparr>)"
  by (intro quiet_shape) (auto simp: env_shape)

lemma quiet_trans: "quiet s t \<Longrightarrow> quiet t u \<Longrightarrow> quiet s u"
  by (simp add: quiet_def)

lemma quiet_logs: "quiet s (GT_ERROR_LOG md f a s)" "quiet s (GT_INFO_LOG md f a s)"
  by (simp_all add: GT_ERROR_LOG_def GT_INFO_LOG_def quiet_env)

lemma stop_quiet:
  assumes c: "core s" and i: "i \<in> data_pcs" and h: "held s i ge" and st: "gt_poller_event_stop fl ge s = Some (r, s')"
  shows "quiet s s'"
proof (rule held_facts [OF c i h])
  fix gev m v n assume g: "gevents s ge = Some gev" "ge_gpoller gev = g_gt_datanet_poller i"
    "shape (kern s) (epfd_of s i) = Some (FK_epoll, m)" "m (ge_efd gev) = Some v"
  have "entered i (ge_efd gev) s s'" using ctl_entered [OF g(1,2)] st by blast
  note E = entered_sets [OF this c i]
  have "in_set s i (ge_efd gev)" using g(3,4) by (simp add: in_set_iff)
  with E show ?thesis unfolding quiet_def by metis
qed

lemma init_fields_quiet:
  assumes c: "core s" and i: "i \<in> data_pcs" and e0: "epfd_of s i = 0" and st: "init_fields (g_gt_datanet_poller i) s = Some (r, s')"
  shows "quiet s s'"
proof (rule dat_poller [OF c i])
  fix p assume p: "gpollers s (g_gt_datanet_poller i) = Some p"
  obtain ep k1 where k1: "sys_epoll_create (GT_NETWORKER_MAXEVENT + 1) (kern s) = (ep, k1)" by fastforce
  note n = epoll_create_effect [OF k1]
  let ?q = "p\<lparr>gp_maxe := GT_NETWORKER_MAXEVENT, gp_timeout := GT_NETWORKER_EPWAIT_TIMEOUT, gp_epfd := ep\<rparr>"
  let ?t = "s\<lparr>kern := k1, gpollers := (gpollers s)(g_gt_datanet_poller i \<mapsto> ?q)\<rparr>"
  obtain ee s2 where m: "gt_malloc_mem GT_MOD_CORE GT_MEM_TYPE_HEAP (GT_NETWORKER_MAXEVENT * sizeof_epoll_event) ?t = (ee, s2)" by fastforce
  from m have m2: "shape (kern s2) = shape k1" "gpollers s2 = gpollers ?t" by (cases rule: malloc_cases; simp)+
  have sh: "shape (kern s') = shape k1"
    using st p k1 m m2 by (auto simp: init_fields_def Let_def lift_k_def GT_ERROR_LOG_def split: if_splits)
  have gp: "map_option gp_epfd (gpollers s' a) = (if a = g_gt_datanet_poller i then Some ep else map_option gp_epfd (gpollers s a))" for a
    using st p k1 m m2 by (auto simp: init_fields_def Let_def lift_k_def GT_ERROR_LOG_def split: if_splits)
  have ep: "epfd_of s' j = (if j = i then ep else epfd_of s j)" if "j \<in> data_pcs" for j
    using gp [of "g_gt_datanet_poller j"] dgp_inj [OF that i]
    by (auto simp: epfd_of_def split: option.splits if_splits)
  have "is_conn s' x = is_conn s x" for x
    using n by (auto simp: is_conn_iff sh new_set_def split: if_splits)
  moreover have "in_set s' j x = in_set s j x" if j: "j \<in> data_pcs" for j x
  proof (cases "j = i")
    case True
    with n ep [OF i] e0 coreD(9) [OF c] show ?thesis by (auto simp: in_set_iff sh new_set_def shape_negative)
  next
    case False
    with j ep [OF j] coreD(13) [OF c] have "epfd_of s' j = epfd_of s j" "epfd_of s j < 0 \<or> shape (kern s) (epfd_of s j) \<noteq> None"
      by (auto simp: own_sets_def)
    with n show ?thesis by (auto simp: in_set_iff sh new_set_def shape_negative split: if_splits)
  qed
  ultimately show ?thesis by (simp add: quiet_def)
qed

lemma in_set_number:
  assumes c: "core s" and j: "j \<in> data_pcs" and f: "in_set s j fd"
  shows "j = nat (fd mod 4)"
proof -
  from f obtain m v where "shape (kern s) (epfd_of s j) = Some (FK_epoll, m)" "m fd = Some v" by (auto simp: in_set_iff)
  with coreD(12) [OF c] j obtain gev where "gevents s (ev_ptr v) = Some gev" "ge_efd gev = fd" "data_event gev"
    "ge_gpoller gev = g_gt_datanet_poller j" unfolding home_def by blast
  with coreD(11) [OF c] have "g_gt_datanet_poller j = g_gt_datanet_poller (nat (fd mod 4))" unfolding by_number_def by metis
  then show ?thesis by (rule dgp_inj [OF j mod4_data])
qed

lemma conns_close:
  assumes inv: "race_inv w" and i: "i \<in> data_pcs" and pc: "r_dat w i = D_close ge ret evs"
    and st: "dat_step i rdy (r_dat w i) (r_mem w) = Some (pc', s)"
  shows "conn_step (Data i) (conns_of w) (conns_of (w\<lparr>r_mem := s, r_dat := d\<rparr>))"
proof -
  let ?s = "r_mem w" and ?w = "w\<lparr>r_mem := s, r_dat := d\<rparr>"
  have c: "core ?s" and h: "held ?s i ge" using inv i pc by (auto simp: race_inv_def dat_ok_def working_def dest!: bspec [of _ _ i])
  obtain gev m v n where g: "gevents ?s ge = Some gev" "data_event gev" "ge_gpoller gev = g_gt_datanet_poller i"
    "shape (kern ?s) (epfd_of ?s i) = Some (FK_epoll, m)" "m (ge_efd gev) = Some v"
    "shape (kern ?s) (ge_efd gev) = Some (FK_sock, n)" by (rule held_facts [OF c i h])
  let ?fd = "ge_efd gev"
  have s: "s = ?s\<lparr>kern := snd (sys_close ?fd (kern ?s))\<rparr>" using st pc g(1) by (simp add: dat_step_def Let_def lift_k_eq)
  have sh: "shape (kern s) a = (if a = ?fd then None else map_option (\<lambda>(kd, m). (kd, m(?fd := None))) (shape (kern ?s) a))" for a
    using g(6) by (simp add: s shape_close)
  have ep: "epfd_of s j = epfd_of ?s j" for j by (simp add: s)
  have far: "epfd_of ?s j \<noteq> ?fd" if "j \<in> data_pcs" for j
    using coreD(13) [OF c] that g(6) by (auto simp: own_sets_def shape_negative)
  have "in_set s j x \<longleftrightarrow> x \<noteq> ?fd \<and> in_set ?s j x" if "j \<in> data_pcs" for j x
    using far [OF that] by (auto simp: in_set_iff ep sh split: if_splits)
  moreover have "is_conn s x \<longleftrightarrow> x \<noteq> ?fd \<and> is_conn ?s x" for x by (auto simp: is_conn_iff sh)
  ultimately have "conns_of ?w x = (if x = ?fd then None else conns_of w x)" for x
    using stage_cong [of s x ?s "r_acc w" "r_acc w"] by (simp add: conns_of_def)
  then have "conns_of ?w = (conns_of w)(?fd := None)" by auto
  moreover have "in_set ?s i ?fd" using g(4,5) by (simp add: in_set_iff)
  then have "conns_of w ?fd = Some (Served i)"
  proof -
    assume f: "in_set ?s i ?fd"
    have "j = i" if "j \<in> data_pcs" "in_set ?s j ?fd" for j
      using in_set_number [OF c that] in_set_number [OF c i f] by (rule trans [OF _ sym])
    from stage_set [OF f i this] g(6) show ?thesis by (simp add: conns_of_def is_conn_iff)
  qed
  ultimately show ?thesis using conn_step.close by metis
qed

lemma dat_quiet:
  assumes inv: "race_inv w" and i: "i \<in> data_pcs" and st: "dat_step i rdy (r_dat w i) (r_mem w) = Some (pc, s)"
    and nc: "\<forall>ge ret evs. r_dat w i \<noteq> D_close ge ret evs"
  shows "quiet (r_mem w) s"
proof -
  have c: "core (r_mem w)" and d: "dat_ok (r_mem w) i (r_dat w i)" using inv i by (simp_all add: race_inv_def)
  note U = dat_step_def Let_def bind_eq_Some_conv
  show ?thesis
  proof (cases "r_dat w i")
    case D_start
    with st obtain r t where t: "init_fields (g_gt_datanet_poller i) (r_mem w) = Some (r, t)"
      "s = t \<or> s = GT_ERROR_LOG GT_MOD_CORE ''Failed to init poller.'' [] t" by (auto simp: U split: if_splits)
    from D_start d have "quiet (r_mem w) t" by (intro init_fields_quiet [OF c i _ t(1)]) (simp add: dat_ok_def)
    with t(2) quiet_logs(1) quiet_trans show ?thesis by blast
  next
    case D_wait
    obtain p where p: "gpollers (r_mem w) (g_gt_datanet_poller i) = Some p" by (rule dat_poller [OF c i])
    obtain n evs k where k: "sys_epoll_wait rdy (gp_epfd p) (gp_ee p) (gp_maxe p) (kern (r_mem w)) = (n, evs, k)" by (metis prod_cases3)
    from D_wait st p k have "s = (r_mem w)\<lparr>kern := k\<rparr>" by (auto simp: U split: if_splits)
    with quiet_env [OF env_wait [OF k]] show ?thesis by simp
  next
    case (D_batch evs)
    have "quiet (r_mem w) s" if "handle_report ev evs' (r_mem w) = Some (pc, s)" for ev evs'
      using that by (auto simp: handle_report_def Let_def bind_eq_Some_conv quiet_shape split: if_splits
        intro: quiet_trans [OF quiet_env [OF env_read] quiet_logs(2)] quiet_env [OF env_read])
    with D_batch st show ?thesis by (cases evs) (auto simp: U quiet_shape)
  next
    case (D_stop ge ret evs)
    with st d show ?thesis by (auto simp: U dat_ok_def working_def intro: stop_quiet [OF c i])
  next
    case (D_stop_again ge ret evs)
    with st d show ?thesis by (auto simp: U dat_ok_def working_def intro: stop_quiet [OF c i])
  next
    case (D_free ge ret evs)
    with st obtain t where t: "gt_free_mem ge (r_mem w) = Some t" and s: "s = t \<or> (\<exists>md f a. s = GT_ERROR_LOG md f a t)"
      by (auto simp: U split: if_splits)
    from t have "quiet (r_mem w) t" by (intro quiet_shape) (auto simp: gt_free_mem_def epfd_of_def split: if_splits option.splits)
    with s quiet_logs(1) quiet_trans show ?thesis by blast
  qed (use st nc in \<open>auto simp: U intro!: quiet_shape\<close>)
qed

lemma conns_dat:
  assumes inv: "race_inv w" and i: "i \<in> data_pcs" and st: "dat_step i rdy (r_dat w i) (r_mem w) = Some (pc, s)"
  shows "(conn_step (Data i))\<^sup>=\<^sup>= (conns_of w) (conns_of (w\<lparr>r_mem := s, r_dat := (r_dat w)(i := pc)\<rparr>))"
proof (cases "\<exists>ge ret evs. r_dat w i = D_close ge ret evs")
  case True
  with conns_close [OF inv i _ st] show ?thesis by blast
next
  case False
  then show ?thesis by (intro conns_dat_quiet [OF inv dat_quiet [OF inv i st]]) blast
qed

subsection \<open>The refinement\<close>

text \<open>The steps of all threads together, with the one that takes the step.\<close>

inductive race_by :: "actor \<Rightarrow> race \<Rightarrow> race \<Rightarrow> bool" where
  accepted: "r_acc w = A_idle \<Longrightarrow> accept_conn lfd (r_mem w) = Some (Inr cfd, s) \<Longrightarrow>
    race_by Acceptor w (w\<lparr>r_mem := s, r_acc := A_dispatch cfd\<rparr>)"
| not_accepted: "r_acc w = A_idle \<Longrightarrow> accept_conn lfd (r_mem w) = Some (Inl r, s) \<Longrightarrow> race_by Acceptor w (w\<lparr>r_mem := s\<rparr>)"
| acc: "acc_step (r_acc w) (r_mem w) = Some (pc, s) \<Longrightarrow> race_by Acceptor w (w\<lparr>r_mem := s, r_acc := pc\<rparr>)"
| dat: "i \<in> data_pcs \<Longrightarrow> dat_step i rdy (r_dat w i) (r_mem w) = Some (pc, s) \<Longrightarrow>
    race_by (Data i) w (w\<lparr>r_mem := s, r_dat := (r_dat w)(i := pc)\<rparr>)"
| env: "env_change (kern (r_mem w)) k \<Longrightarrow> race_by World w (w\<lparr>r_mem := (r_mem w)\<lparr>kern := k\<rparr>\<rparr>)"

lemma race_step_by: "race_step w w' \<longleftrightarrow> (\<exists>a. race_by a w w')"
proof
  show "race_step w w' \<Longrightarrow> \<exists>a. race_by a w w'" by (induction rule: race_step.induct) (blast intro: race_by.intros)+
  show "\<exists>a. race_by a w w' \<Longrightarrow> race_step w w'"
  proof (elim exE)
    fix a assume "race_by a w w'"
    then show "race_step w w'" by (induction rule: race_by.induct) (blast intro: race_step.intros)+
  qed
qed

lemma race_by_refines: "race_by a w w' \<Longrightarrow> race_inv w \<Longrightarrow> (conn_step a)\<^sup>=\<^sup>= (conns_of w) (conns_of w')"
proof (induction rule: race_by.induct)
  case (accepted w lfd cfd s)
  from conns_accept [OF accepted(3,2,1)] show ?case by simp
next
  case (not_accepted w lfd r s)
  have "core (r_mem w)" using not_accepted(3) by (simp add: race_inv_def)
  from accept_conn_effect [OF not_accepted(2) coreD(1) [OF this]] have "quiet (r_mem w) s" using quiet_env by auto
  then show ?case using conns_quiet [of w "w\<lparr>r_mem := s\<rparr>"] by simp
next
  case (env w k)
  then show ?case using conns_quiet [of w "w\<lparr>r_mem := (r_mem w)\<lparr>kern := k\<rparr>\<rparr>"] quiet_env by simp
qed (use conns_acc conns_dat in auto)

lemma race_start_conns: "race_start w \<Longrightarrow> conns_of w = Map.empty"
  by (rule ext) (simp add: race_start_def Let_def conns_of_def is_conn_iff)

interpretation conns: refinement_map race_start race_step race_inv conns_of "\<lambda>c. c = Map.empty" "\<lambda>c c'. \<exists>a. conn_step a c c'"
proof unfold_locales
  show "(\<lambda>c c'. \<exists>a. conn_step a c c')\<^sup>=\<^sup>= (conns_of w) (conns_of w')" if "race_inv w" "race_step w w'" for w w'
    using that race_by_refines by (fastforce simp: race_step_by)
qed (auto intro: race_start_inv race_step_inv race_start_conns)

lemma reachable_run: "race_reachable w \<longleftrightarrow> (\<exists>w0. race_start w0 \<and> race_step\<^sup>*\<^sup>* w0 w)"
proof
  show "race_reachable w \<Longrightarrow> \<exists>w0. race_start w0 \<and> race_step\<^sup>*\<^sup>* w0 w"
    by (induction rule: race_reachable.induct) (blast intro: rtranclp.rtrancl_into_rtrancl)+
  show "\<exists>w0. race_start w0 \<and> race_step\<^sup>*\<^sup>* w0 w \<Longrightarrow> race_reachable w"
    by (blast intro: run_reachable race_reachable.start)
qed

subsection \<open>Properties\<close>

text \<open>
  C4: the hand-over refines the life cycle of connections. Under every interleaving of single shared
  accesses the connections change only as the abstract machine allows: a new descriptor comes into the
  hands of the accepting thread, which has one at a time, and from there into the set of data
  thread \<open>fd mod 4\<close> or into none; a connection is closed by the data thread that serves it and by no
  other. Every state's connections are reachable in the abstract machine, each step of an actor is at
  most one abstract step of the same actor, the environment takes none, and a connection is never
  served by another thread than its number says.
\<close>

theorem handover_refines:
  assumes "race_reachable w" "race_by a w w'"
  shows "(\<lambda>c c'. \<exists>b. conn_step b c c')\<^sup>*\<^sup>* Map.empty (conns_of w) \<and> (conn_step a)\<^sup>=\<^sup>= (conns_of w) (conns_of w') \<and>
    one_handed (conns_of w') \<and> served_by_number (conns_of w')"
proof -
  obtain w0 where w0: "race_start w0" "race_step\<^sup>*\<^sup>* w0 w" using assms(1) reachable_run by blast
  have "race_step w w'" using assms(2) race_step_by by blast
  with w0(2) have run: "race_step\<^sup>*\<^sup>* w0 w'" by (rule rtranclp.rtrancl_into_rtrancl)
  have "(\<lambda>c c'. \<exists>b. conn_step b c c')\<^sup>*\<^sup>* Map.empty (conns_of w)"
    using conns.run_refines [OF w0(2) race_start_inv [OF w0(1)]] race_start_conns [OF w0(1)] by simp
  moreover have "(conn_step a)\<^sup>=\<^sup>= (conns_of w) (conns_of w')" using race_by_refines [OF assms(2) race_reachable_inv [OF assms(1)]] .
  moreover have "one_handed (conns_of w')"
    by (rule conns.reached_keeps [OF w0(1) run]) (auto simp: one_handed_def [of Map.empty] intro: conn_step_one_handed)
  moreover have "served_by_number (conns_of w')"
    by (rule conns.reached_keeps [OF w0(1) run]) (auto simp: served_by_number_def [of Map.empty] intro: conn_step_by_number)
  ultimately show ?thesis by blast
qed

text \<open>The step of the concrete interleaving that registers the connection.\<close>

definition serve_turns :: "turn list" where
  "serve_turns = [T_dat 1 ([], \<lambda>_. 0), T_accept 3, T_acc, T_acc, T_dat 1 ([], \<lambda>_. 0), T_acc, T_dat 1 ([], \<lambda>_. 0), T_acc]"

definition serve_check :: bool where
  "serve_check = (case fold_opt take_turn serve_turns demo_race of None \<Rightarrow> False | Some w \<Rightarrow> conns_of w 5 = Some Handed \<and>
     (case take_turn T_acc w of None \<Rightarrow> False | Some w' \<Rightarrow> conns_of w' 5 = Some (Served 1)))"

theorem handover_refines_witness:
  "\<exists>w w'. fold_opt take_turn serve_turns demo_race = Some w \<and> take_turn T_acc w = Some w' \<and>
     conns_of w 5 = Some Handed \<and> conns_of w' 5 = Some (Served 1) \<and> (conn_step Acceptor)\<^sup>=\<^sup>= (conns_of w) (conns_of w')"
proof -
  have serve_check by code_simp
  then obtain w w' where w: "fold_opt take_turn serve_turns demo_race = Some w" "take_turn T_acc w = Some w'"
    "conns_of w 5 = Some Handed" "conns_of w' 5 = Some (Served 1)" by (auto simp: serve_check_def split: option.splits)
  have "race_reachable w" by (rule turns_reachable [OF w(1) race_reachable.start [OF demo_race_start]])
  moreover have "race_by Acceptor w w'" using w(2) by (auto simp: take_turn_def intro: race_by.acc)
  ultimately show ?thesis using handover_refines w by blast
qed

text \<open>
  C40: a connection that the accepting thread could not register is never closed. Whatever the threads
  do afterwards, its descriptor stays open and stays out of the sets of all data threads.
\<close>

theorem lost_connection_leaks:
  assumes "race_reachable w" "race_step\<^sup>*\<^sup>* w w'" "conns_of w fd = Some Lost"
  shows "(\<exists>f. file_at (kern (r_mem w')) fd = Some f \<and> f_kind f = FK_sock) \<and> (\<forall>i \<in> data_pcs. \<not> in_set (r_mem w') i fd)"
proof -
  have "conns_of w' fd = Some Lost"
    using conns.run_keeps [where P = "\<lambda>c. c fd = Some Lost", OF assms(2) race_reachable_inv [OF assms(1)] assms(3)] conn_step_lost by blast
  then have l: "is_conn (r_mem w') fd" "stage_of (r_acc w') (r_mem w') fd = Lost" by (auto simp: conns_of_def split: if_splits)
  then have "List.find (\<lambda>i. in_set (r_mem w') i fd) [0..<GT_DATANET_PTHREAD_NUM] = None"
    by (auto simp: stage_of_def split: option.splits)
  then have "\<forall>i \<in> data_pcs. \<not> in_set (r_mem w') i fd" unfolding find_None_iff using data_list by blast
  moreover from l(1) have "\<exists>f. file_at (kern (r_mem w')) fd = Some f \<and> f_kind f = FK_sock"
    by (auto simp: is_conn_iff shape_def)
  ultimately show ?thesis by blast
qed

text \<open>
  A connection is dispatched before data thread 0 has created its set; then the thread initialises its
  poller, and the connection is still open and in no set.
\<close>

definition lose_turns :: "turn list" where
  "lose_turns = [T_accept 3, T_acc, T_acc, T_acc, T_acc, T_acc]"

definition later_turns :: "turn list" where
  "later_turns = [T_dat 0 ([], \<lambda>_. 0), T_dat 0 ([], \<lambda>_. 0), T_dat 0 ([], \<lambda>_. 0), T_peer 4]"

definition lose_check :: bool where
  "lose_check = (case fold_opt take_turn lose_turns demo_race of None \<Rightarrow> False | Some w \<Rightarrow> conns_of w 4 = Some Lost \<and>
     (case fold_opt take_turn later_turns w of None \<Rightarrow> False | Some w' \<Rightarrow> r_dat w' 0 = D_wait))"

theorem lost_connection_leaks_witness:
  "\<exists>w w'. fold_opt take_turn lose_turns demo_race = Some w \<and> fold_opt take_turn later_turns w = Some w' \<and> r_dat w' 0 = D_wait \<and>
     (\<exists>f. file_at (kern (r_mem w')) 4 = Some f \<and> f_kind f = FK_sock) \<and> \<not> in_set (r_mem w') 0 4"
proof -
  have lose_check by code_simp
  then obtain w w' where w: "fold_opt take_turn lose_turns demo_race = Some w" "conns_of w 4 = Some Lost"
    "fold_opt take_turn later_turns w = Some w'" "r_dat w' 0 = D_wait" by (auto simp: lose_check_def split: option.splits)
  have "race_reachable w" by (rule turns_reachable [OF w(1) race_reachable.start [OF demo_race_start]])
  moreover have "0 \<in> data_pcs" by (simp add: data_pcs_set)
  ultimately show ?thesis using lost_connection_leaks [OF _ turns_run [OF w(3)] w(2)] w by blast
qed

end
