(* ===== verification/GT_Service.thy ===== *)
theory GT_Service
  imports GT_Race_Inv
begin

text \<open>
  From the network to the log: the round of the accepting thread, the hand-over and the round of a
  data thread composed, for one connection (\<open>user/core/gt_poller.c\<close>, \<open>gt_network.c\<close>).
\<close>

subsection \<open>A round with one report\<close>

definition poller_on :: "gt_state \<Rightarrow> addr \<Rightarrow> gt_poller \<Rightarrow> ofile \<Rightarrow> bool" where
  "poller_on s gp p ep \<longleftrightarrow> gpollers s gp = Some p \<and> gp_ee p \<noteq> NULL \<and> 0 < gp_maxe p \<and>
     file_at (kern s) (gp_epfd p) = Some ep \<and> f_kind ep = FK_epoll"

text \<open>When exactly the descriptor \<open>fd\<close> is reported readable, a round calls the handler of its event once.\<close>

lemma round_one:
  assumes inv: "sys_inv s" and p: "poller_on s gp p ep" and nf: "fault_now (kern s) = None"
    and e: "f_interest ep fd = Some \<lparr>ev_events = EPOLLIN, ev_ptr = ge\<rparr>" and r: "readable_at (kern s) fd"
  shows "gt_poller_epoll_wait ops_call ([fd], \<lambda>_. EPOLLIN) gp s =
    epoll_dispatch_one ops_call \<lparr>ev_events = EPOLLIN, ev_ptr = ge\<rparr> (s\<lparr>kern := next_call (kern s)\<rparr>)"
proof -
  have m: "EPOLLIN AND (EPOLLIN OR EPOLLERR OR EPOLLHUP) = EPOLLIN" "EPOLLIN \<noteq> 0" by (simp_all add: epoll_flag_defs)
  have rd: "epoll_ready (kern s) ep (\<lambda>_. EPOLLIN) fd = Some \<lparr>ev_events = EPOLLIN, ev_ptr = ge\<rparr>"
    using e r m by (simp add: epoll_ready_def Let_def)
  have "sys_epoll_wait ([fd], \<lambda>_. EPOLLIN) (gp_epfd p) (gp_ee p) (gp_maxe p) (kern s) =
      (1, [\<lparr>ev_events = EPOLLIN, ev_ptr = ge\<rparr>], next_call (kern s))"
    using p nf rd by (simp add: sys_epoll_wait_def poller_on_def List.map_filter_def take_Cons')
  moreover have "blocks s (gp_ee p) = Some (maxe_of gp * sizeof_epoll_event)"
    using sys_invD(4) [OF inv] p by (simp add: buffers_ok_def poller_on_def)
  moreover have "1 \<le> maxe_of gp" by (simp add: maxe_of_def GT_CORE_MAXEVENT_def GT_NETWORKER_MAXEVENT_def)
  moreover have "fold_opt f [x] t = f x t" for f :: "epoll_event \<Rightarrow> gt_state \<Rightarrow> gt_state option" and x t by (cases "f x t") simp_all
  ultimately show ?thesis using p
    by (simp add: gt_poller_epoll_wait_def poller_on_def sizeof_epoll_event_def del: fold_opt.simps)
qed

subsection \<open>Accepting without failures\<close>

lemma alloc_first: "fst (alloc_fd f k) = int (first_free (k_fds k))"
  by (simp add: alloc_fd_def Let_def)

lemma first_free_put: "file_at k fd = Some f \<Longrightarrow> first_free (k_fds (put_file fd g k)) = first_free (k_fds k)"
proof -
  assume "file_at k fd = Some f"
  then have i: "nat fd < length (k_fds k)" "k_fds k ! nat fd \<noteq> None" by (auto simp: file_at_def split: if_splits)
  have ff: "first_free fs = length (takeWhile id (map (\<lambda>x. x \<noteq> None) fs))" for fs
    by (simp add: first_free_def takeWhile_map comp_def)
  have "map (\<lambda>x. x \<noteq> None) ((k_fds k)[nat fd := Some g]) = map (\<lambda>x. x \<noteq> None) (k_fds k)"
    by (rule nth_equalityI) (use i in \<open>auto simp: nth_list_update\<close>)
  then show ?thesis unfolding ff put_file_def by simp
qed

lemma accept_conn_success:
  assumes nf: "no_faults (kern s)" and f: "file_at (kern s) lfd = Some f" "f_kind f = FK_listen" "f_pending f = Suc n"
    and c: "cfd = int (first_free (k_fds (kern s)))"
  shows "\<exists>k. accept_conn lfd s = Some (Inr cfd, s\<lparr>kern := k\<rparr>) \<and> file_at (kern s) cfd = None \<and>
    file_at k = (file_at (kern s))(lfd \<mapsto> f\<lparr>f_pending := n\<rparr>, cfd \<mapsto> (new_file FK_sock)\<lparr>f_flags := O_NONBLOCK\<rparr>) \<and>
    no_faults k \<and> k_alloc k = k_alloc (kern s) \<and> k_calls k = k_calls (kern s) + 4"
proof -
  let ?k0 = "put_file lfd (f\<lparr>f_pending := n\<rparr>) (next_call (kern s))"
  obtain a k1 where al: "alloc_fd (new_file FK_sock) ?k0 = (a, k1)" by fastforce
  note A = alloc_fd_spec [OF al]
  have a: "a = cfd" using alloc_first [of "new_file FK_sock" ?k0] al c f(1) first_free_put [of "next_call (kern s)" lfd f]
    by (simp add: next_call_def)
  have nf1: "no_faults k1" using A(5) nf by (simp add: no_faults_def)
  have now: "fault_now (kern s) = None" "fault_now k1 = None" "fault_now (next_call k1) = None" "fault_now (next_call (next_call k1)) = None"
    using nf nf1 by simp_all
  have fl: "file_at k1 cfd = Some (new_file FK_sock)" using A(3) a by simp
  let ?g = "(new_file FK_sock)\<lparr>f_flags := O_NONBLOCK\<rparr>"
  let ?k = "put_file cfd ?g (next_call (next_call (next_call k1)))"
  have nn: "cfd \<noteq> -1" using c by simp
  have "sys_accept lfd (kern s) = Some (cfd, k1)" using now(1) f al a by (simp add: sys_accept_def)
  moreover have "sys_setsockopt cfd k1 = (0, next_call k1)" using now(2) fl by (simp add: sys_setsockopt_def syscall_def with_open_def)
  moreover have "sys_fcntl_getfl cfd (next_call k1) = ((0, 0), next_call (next_call k1))"
    using now(3) fl by (simp add: sys_fcntl_getfl_def new_file_def)
  moreover have "sys_fcntl_setfl cfd (0 OR O_NONBLOCK) (next_call (next_call k1)) = (0, ?k)"
    using now(4) fl by (simp add: sys_fcntl_setfl_def syscall_def)
  ultimately have "accept_conn lfd s = Some (Inr cfd, s\<lparr>kern := ?k\<rparr>)"
    using nn by (simp add: accept_conn_def lift_k_def Let_def)
  moreover have "file_at ?k = (file_at (kern s))(lfd \<mapsto> f\<lparr>f_pending := n\<rparr>, cfd \<mapsto> ?g)"
    using fl A(3) a f(1) by (simp add: file_at_put_fun)
  moreover have "file_at (kern s) cfd = None" using A(2) a f(1) by (auto simp: file_at_put_fun split: if_splits)
  moreover have "k_calls k1 = k_calls (next_call (kern s))" using A(7) by simp
  ultimately show ?thesis using nf1 A(6) by (intro exI [of _ ?k]) (simp add: no_faults_def next_call_def)
qed

lemma accept_round:
  assumes inv: "sys_inv s" and nf: "no_faults (kern s)" and c: "cfd = int (first_free (k_fds (kern s)))"
    and g: "gevents s ge = Some gev" and f: "file_at (kern s) (ge_efd gev) = Some f" "f_kind f = FK_listen" "f_pending f = Suc n"
    and al: "fresh_block (k_alloc (kern s) (k_calls (kern s) + 4)) s"
    and gp: "gp = g_gt_datanet_poller (nat (cfd mod 4))" "poller_on s gp p ep"
  shows "\<exists>s' ge' gev'. gt_network_ops_read ge s = Some (GT_OK, s') \<and> sys_inv s' \<and> no_faults (kern s') \<and> poller_on s' gp p
      (ep\<lparr>f_interest := (f_interest ep)(cfd \<mapsto> \<lparr>ev_events = EPOLLIN, ev_ptr = ge'\<rparr>)\<rparr>) \<and>
    gevents s' ge' = Some gev' \<and> ge_efd gev' = cfd \<and> op_read (ge_ops gev') = Some FN_datanet_ops_read \<and>
    (\<exists>h. file_at (kern s') cfd = Some h \<and> f_kind h = FK_sock)"
proof -
  from accept_conn_success [OF nf f c] obtain k where k: "accept_conn (ge_efd gev) s = Some (Inr cfd, s\<lparr>kern := k\<rparr>)"
    "file_at (kern s) cfd = None"
    "file_at k = (file_at (kern s))(ge_efd gev \<mapsto> f\<lparr>f_pending := n\<rparr>, cfd \<mapsto> (new_file FK_sock)\<lparr>f_flags := O_NONBLOCK\<rparr>)"
    "no_faults k" "k_alloc k = k_alloc (kern s)" "k_calls k = k_calls (kern s) + 4" by blast
  let ?s1 = "s\<lparr>kern := k\<rparr>"
  have ne: "cfd \<noteq> ge_efd gev" "cfd \<noteq> gp_epfd p" "gp_epfd p \<noteq> ge_efd gev" using k(2) f gp(2) by (auto simp: poller_on_def)
  have un: "unregistered (kern s) cfd" using unregisteredI [OF sys_invD(2) [OF inv]] k(2) by (simp add: shape_def)
  have sh: "shape k = (shape (kern s))(cfd \<mapsto> (FK_sock, Map.empty))"
    using k(3) f(1) ne(1) by (auto simp: shape_def fun_eq_iff new_file_def)
  have i1: "sys_inv ?s1"
    using sh k(2) entries_alloc [OF sys_invD(2) [OF inv]] by (intro sys_inv_entries [OF inv]) (simp add: shape_def)
  have ep: "file_at k (gp_epfd p) = Some ep" "f_kind ep = FK_epoll" "f_interest ep cfd = None"
    using gp(2) k(3) ne un by (auto simp: poller_on_def unregistered_def shape_def)
  have sk: "file_at k cfd = Some ((new_file FK_sock)\<lparr>f_flags := O_NONBLOCK\<rparr>)" using k(3) by simp
  have fb: "fresh_block (k_alloc (kern ?s1) (k_calls (kern ?s1))) ?s1" using al k(5,6) by (simp add: fresh_block_def)
  from round_dispatch_state [of ?s1 gp cfd p ep "(new_file FK_sock)\<lparr>f_flags := O_NONBLOCK\<rparr>", OF i1 _ fb gp(1)] k(4) gp(2) ep sk ne(2)
  obtain ge' gev' s2 where s2: "gt_network_round_dispatch cfd ?s1 = Some (GT_OK, s2)" "gevents s2 ge' = Some gev'" "ge_efd gev' = cfd"
    "op_read (ge_ops gev') = Some FN_datanet_ops_read" "gpollers s2 = gpollers s"
    "file_at (kern s2) = (file_at k)(gp_epfd p \<mapsto> ep\<lparr>f_interest := (f_interest ep)(cfd \<mapsto> \<lparr>ev_events = EPOLLIN, ev_ptr = ge'\<rparr>)\<rparr>)"
    by (auto simp: poller_on_def new_file_def)
  have i2: "sys_inv s2 \<and> no_faults (kern s2)"
    by (rule round_dispatch_ok [OF i1, of cfd])
      (use sh s2(1) k(4) in \<open>auto simp: link_ok_def stream_def keeps_def no_faults_def\<close>)
  have "gt_network_ops_read ge s = Some (GT_OK, GT_INFO_LOG GT_MOD_CORE ''Connection form IP[%#x], PORT[%d]''
      [AInt (uint (ntohl (fst (k_peer (kern s) (k_calls (kern s)))))), AInt (uint (ntohs (snd (k_peer (kern s) (k_calls (kern s))))))] s2)"
    using g k(1) s2(1) by (simp add: network_read_split Let_def)
  moreover have "poller_on s2 gp p (ep\<lparr>f_interest := (f_interest ep)(cfd \<mapsto> \<lparr>ev_events = EPOLLIN, ev_ptr = ge'\<rparr>)\<rparr>)"
    using gp(2) s2(5,6) by (simp add: poller_on_def)
  ultimately show ?thesis using i2 s2 sk ne
    by (intro exI [of _ "GT_INFO_LOG GT_MOD_CORE ''Connection form IP[%#x], PORT[%d]''
      [AInt (uint (ntohl (fst (k_peer (kern s) (k_calls (kern s)))))), AInt (uint (ntohs (snd (k_peer (kern s) (k_calls (kern s))))))] s2"]
      exI [of _ ge'] exI [of _ gev']) (simp add: poller_on_def new_file_def no_faults_def)
qed

text \<open>The line that a chunk of received data leaves in the log.\<close>

definition data_line :: "fd \<Rightarrow> u8 list \<Rightarrow> log_entry" where
  "data_line fd bs = \<lparr>l_mod = GT_MOD_CORE, l_std = False, l_level = GT_LOG_LEVEL_INFO, l_format = ''CFD[%d]: %s'',
     l_args = [AInt fd, AStr (cstring bs)]\<rparr>"

lemma data_round:
  assumes inv: "sys_inv s" and nf: "no_faults (kern s)" and p: "poller_on s gp p ep"
    and e: "f_interest ep fd = Some \<lparr>ev_events = EPOLLIN, ev_ptr = ge\<rparr>"
    and g: "gevents s ge = Some gev" "ge_efd gev = fd" "op_read (ge_ops gev) = Some FN_datanet_ops_read"
    and f: "file_at (kern s) fd = Some f" "f_kind f = FK_sock" "f_rx f \<noteq> []"
  shows "\<exists>t. gt_poller_epoll_wait ops_call ([fd], \<lambda>_. EPOLLIN) gp s = Some t \<and>
    k_log (kern t) = k_log (kern s) @ [data_line fd (take 127 (f_rx f))] \<and>
    file_at (kern t) = (file_at (kern s))(fd \<mapsto> f\<lparr>f_rx := drop 127 (f_rx f)\<rparr>)"
proof -
  let ?s = "s\<lparr>kern := next_call (kern s)\<rparr>" and ?k = "put_file fd (f\<lparr>f_rx := drop 127 (f_rx f)\<rparr>) (next_call (next_call (kern s)))"
  have r: "readable_at (kern s) fd" using f by (simp add: readable_at_def readable_def)
  define n where "n = int (min 127 (length (f_rx f)))"
  have n: "0 < n" using f(3) by (simp add: n_def)
  have "sys_read fd 127 (next_call (kern s)) = Some (n, take 127 (f_rx f), ?k)"
    using nf f by (simp add: sys_read_def Let_def n_def)
  then have "gt_datanet_ops_read ge ?s = Some (n,
      GT_INFO_LOG GT_MOD_CORE ''CFD[%d]: %s'' [AInt fd, AStr (cstring (take 127 (f_rx f)))] (?s\<lparr>kern := ?k\<rparr>))"
    using g n by (simp add: gt_datanet_ops_read_def Let_def)
  then have "epoll_dispatch_one ops_call \<lparr>ev_events = EPOLLIN, ev_ptr = ge\<rparr> ?s =
      Some (GT_INFO_LOG GT_MOD_CORE ''CFD[%d]: %s'' [AInt fd, AStr (cstring (take 127 (f_rx f)))] (?s\<lparr>kern := ?k\<rparr>))"
    using g n by (simp add: epoll_dispatch_one_def ops_call_def EPOLLIN_def)
  moreover note round_one [OF inv p _ e r]
  moreover have "k_log ?k = k_log (kern s)" by (simp add: next_call_def)
  ultimately show ?thesis using nf f(1)
    by (simp add: GT_INFO_LOG_def data_line_def log_call_def Let_def frame_simps file_at_put_fun split: option.splits)
qed

subsection \<open>Property\<close>


text \<open>The concrete run with data poller 2 initialised and one peer waiting at the listening socket 4.\<close>

definition demo_peer :: "gt_state option" where
  "demo_peer = map_option (poke 4 (f_pending_update (\<lambda>_. 1))) demo_init"

definition peer_check :: bool where
  "peer_check = (case demo_peer of None \<Rightarrow> False | Some s \<Rightarrow>
     (case (gpollers s g_gt_network_poller, gpollers s (g_gt_datanet_poller 2), file_at (kern s) 3, file_at (kern s) 4, file_at (kern s) 5) of
        (Some q, Some p, Some eq, Some f, Some ep) \<Rightarrow>
          gp_epfd q = 3 \<and> gp_ee q \<noteq> NULL \<and> 0 < gp_maxe q \<and> gp_epfd p = 5 \<and> gp_ee p \<noteq> NULL \<and> 0 < gp_maxe p \<and>
          f_kind eq = FK_epoll \<and> f_kind ep = FK_epoll \<and> f_kind f = FK_listen \<and> f_pending f = 1 \<and>
          first_free (k_fds (kern s)) = 6 \<and> fresh_block (k_alloc (kern s) (k_calls (kern s) + 5)) s \<and>
          (case f_interest eq 4 of None \<Rightarrow> False | Some v \<Rightarrow> ev_events v = EPOLLIN \<and>
             (case gevents s (ev_ptr v) of None \<Rightarrow> False | Some gev \<Rightarrow> op_read (ge_ops gev) = Some FN_network_ops_read))
      | _ \<Rightarrow> False))"

lemma demo_peer_facts:
  assumes "demo_peer = Some s"
  shows "sys_inv s" "no_faults (kern s)"
proof -
  from assms obtain s0 where s0: "demo_init = Some s0" "s = poke 4 (f_pending_update (\<lambda>_. 1)) s0" by (auto simp: demo_peer_def)
  have "sys_reachable s" unfolding s0(2) by (rule poke_reachable [OF demo_init_reachable [OF s0(1)]]) simp
  then show "sys_inv s" using sys_reachable_ok by (simp add: sys_ok_def)
  show "no_faults (kern s)" using demo_init_no_faults [OF s0(1)] by (auto simp: s0(2) poke_def no_faults_def split: option.splits)
qed


end
