(* ===== verification/GT_Spinlock.thy ===== *)
theory GT_Spinlock
  imports GT_Prelude
begin

text \<open>
  The spin lock of \<open>user/core/gt_spinlock.h\<close> and its stress test \<open>test/spinlock_test.c\<close>.

  The atomic builtin \<open>__sync_bool_compare_and_swap\<close> is one step on the word \<open>locked\<close>; a
  spinning loop is a sequence of such steps with the other threads running in between. The lock as
  a sequential function receives these other threads as an argument; the stress test is a step
  relation in which every access to the shared counter is a step of its own.
\<close>

subsection \<open>The lock\<close>

record gt_spinlock =
  locked :: int

definition compare_and_swap :: "int \<Rightarrow> int \<Rightarrow> gt_spinlock \<Rightarrow> bool \<times> gt_spinlock" where
  "compare_and_swap old new spl = (if locked spl = old then (True, spl\<lparr>locked := new\<rparr>) else (False, spl))"

definition gt_spinlock_init :: "gt_spinlock \<Rightarrow> gt_spinlock" where
  "gt_spinlock_init spl = spl\<lparr>locked := 0\<rparr>"

definition gt_spinlock_trylock :: "gt_spinlock \<Rightarrow> bool \<times> gt_spinlock" where
  "gt_spinlock_trylock spl = compare_and_swap 0 1 spl"

definition gt_spinlock_unlock :: "gt_spinlock \<Rightarrow> gt_spinlock" where
  "gt_spinlock_unlock spl = spl\<lparr>locked := 0\<rparr>"

text \<open>
  The loops. \<open>others n\<close> is what the other threads do to the lock before attempt \<open>n\<close>; a loop
  that never succeeds has the value \<open>None\<close>. The result tells how many attempts failed.
\<close>

partial_function (option) cas_loop ::
  "(nat \<Rightarrow> gt_spinlock \<Rightarrow> gt_spinlock) \<Rightarrow> int \<Rightarrow> int \<Rightarrow> nat \<Rightarrow> gt_spinlock \<Rightarrow> (nat \<times> gt_spinlock) option" where
  "cas_loop others old new n spl =
     (let (ok, spl) = compare_and_swap old new (others n spl)
      in if ok then Some (n, spl) else cas_loop others old new (Suc n) spl)"

declare cas_loop.simps [code]

definition gt_spinlock_lock where
  "gt_spinlock_lock others spl = cas_loop others 0 1 0 spl"

definition gt_spinlock_lock_with_val where
  "gt_spinlock_lock_with_val others val spl = cas_loop others 0 val 0 spl"

definition gt_spinlock_unlock_with_val where
  "gt_spinlock_unlock_with_val others val spl = cas_loop others val 0 0 spl"

text \<open>The lock before attempt \<open>n\<close>'s interference, while all earlier attempts failed.\<close>

fun before :: "(nat \<Rightarrow> gt_spinlock \<Rightarrow> gt_spinlock) \<Rightarrow> gt_spinlock \<Rightarrow> nat \<Rightarrow> gt_spinlock" where
  "before others spl 0 = spl"
| "before others spl (Suc n) = others n (before others spl n)"

text \<open>Attempt \<open>n\<close> finds the value it waits for.\<close>

definition sees :: "(nat \<Rightarrow> gt_spinlock \<Rightarrow> gt_spinlock) \<Rightarrow> gt_spinlock \<Rightarrow> nat \<Rightarrow> int" where
  "sees others spl n = locked (others n (before others spl n))"

lemma cas_loop_step:
  "cas_loop others old new n (before others spl n) =
     (if sees others spl n = old then Some (n, (before others spl (Suc n))\<lparr>locked := new\<rparr>)
      else cas_loop others old new (Suc n) (before others spl (Suc n)))"
  by (simp add: cas_loop.simps [of others old new n] compare_and_swap_def sees_def)

lemma cas_loop_skip:
  "\<forall>k < n. sees others spl k \<noteq> old \<Longrightarrow>
   cas_loop others old new 0 spl = cas_loop others old new n (before others spl n)"
  by (induction n) (simp_all add: cas_loop_step del: before.simps(2))

lemma cas_loop_found:
  assumes "cas_loop others old new m l = Some y"
  shows "\<forall>spl. l = before others spl m \<longrightarrow> sees others spl (fst y) = old"
proof (rule cas_loop.raw_induct [where P = "\<lambda>others old new m l y. \<forall>spl. l = before others spl m \<longrightarrow>
      sees others spl (fst y) = old", OF _ assms], intro allI impI)
  fix loop others old new m l y spl
  assume ih: "\<And>others old new m l y. loop others old new m l = Some y \<Longrightarrow>
      \<forall>spl. l = before others spl m \<longrightarrow> sees others spl (fst y) = old"
    and body: "(let (ok, spl) = compare_and_swap old new (others m l)
      in if ok then Some (m, spl) else loop others old new (Suc m) spl) = Some y"
    and l: "l = before others spl m"
  show "sees others spl (fst y) = old"
  proof (cases "sees others spl m = old")
    case True
    with body l show ?thesis by (auto simp: compare_and_swap_def sees_def split: if_splits)
  next
    case False
    with body l have "loop others old new (Suc m) (before others spl (Suc m)) = Some y"
      by (simp add: compare_and_swap_def sees_def)
    with ih show ?thesis by blast
  qed
qed

lemma first_seen:
  assumes "sees others spl n = old"
  obtains m where "sees others spl m = old" "\<forall>k < m. sees others spl k \<noteq> old"
  using assms exists_least_iff [of "\<lambda>k. sees others spl k = old"] by blast

lemma cas_loop_first:
  assumes "sees others spl n = old" "\<forall>k < n. sees others spl k \<noteq> old"
  shows "cas_loop others old new 0 spl = Some (n, (before others spl (Suc n))\<lparr>locked := new\<rparr>)"
  using cas_loop_skip [OF assms(2), of new] assms(1) by (simp add: cas_loop_step del: before.simps(2))

lemma cas_loop_iff:
  "cas_loop others old new 0 spl = Some (n, l') \<longleftrightarrow>
   (\<forall>k < n. sees others spl k \<noteq> old) \<and> sees others spl n = old \<and> l' = (before others spl (Suc n))\<lparr>locked := new\<rparr>"
proof
  assume r: "cas_loop others old new 0 spl = Some (n, l')"
  then have "sees others spl n = old" using cas_loop_found by fastforce
  then obtain m where m: "sees others spl m = old" "\<forall>k < m. sees others spl k \<noteq> old" by (rule first_seen)
  from cas_loop_first [OF this] r have "m = n" "l' = (before others spl (Suc n))\<lparr>locked := new\<rparr>" by auto
  with m show "(\<forall>k < n. sees others spl k \<noteq> old) \<and> sees others spl n = old \<and>
      l' = (before others spl (Suc n))\<lparr>locked := new\<rparr>" by blast
qed (simp add: cas_loop_first del: before.simps(2))

lemma cas_loop_None: "cas_loop others old new 0 spl = None \<longleftrightarrow> (\<forall>n. sees others spl n \<noteq> old)"
proof
  assume "cas_loop others old new 0 spl = None"
  then show "\<forall>n. sees others spl n \<noteq> old" using cas_loop_first first_seen by (metis option.distinct(1))
next
  assume "\<forall>n. sees others spl n \<noteq> old"
  then show "cas_loop others old new 0 spl = None"
    using cas_loop_iff by (metis not_None_eq surj_pair)
qed

text \<open>
  C33: the spinning operations return exactly when one of their attempts finds the value they
  wait for, the first such attempt is the one that succeeds, and the lock then holds 1, the given
  value or 0; against threads that never leave that value the loop does not end. \<open>gt_spinlock_trylock\<close>
  is one such attempt.
\<close>

theorem spin_loops_return:
  "(gt_spinlock_lock others spl = Some (n, l) \<longleftrightarrow> (\<forall>k < n. sees others spl k \<noteq> 0) \<and> sees others spl n = 0 \<and>
      l = (before others spl (Suc n))\<lparr>locked := 1\<rparr>) \<and>
   (gt_spinlock_lock_with_val others val spl = Some (n, l) \<longleftrightarrow> (\<forall>k < n. sees others spl k \<noteq> 0) \<and>
      sees others spl n = 0 \<and> l = (before others spl (Suc n))\<lparr>locked := val\<rparr>) \<and>
   (gt_spinlock_unlock_with_val others val spl = Some (n, l) \<longleftrightarrow> (\<forall>k < n. sees others spl k \<noteq> val) \<and>
      sees others spl n = val \<and> l = (before others spl (Suc n))\<lparr>locked := 0\<rparr>) \<and>
   (gt_spinlock_lock others spl = None \<longleftrightarrow> (\<forall>n. sees others spl n \<noteq> 0)) \<and>
   (gt_spinlock_unlock_with_val others val spl = None \<longleftrightarrow> (\<forall>n. sees others spl n \<noteq> val)) \<and>
   gt_spinlock_trylock spl = (if locked spl = 0 then (True, spl\<lparr>locked := 1\<rparr>) else (False, spl))"
  unfolding gt_spinlock_lock_def gt_spinlock_lock_with_val_def gt_spinlock_unlock_with_val_def
  by (simp add: cas_loop_iff cas_loop_None gt_spinlock_trylock_def compare_and_swap_def)

theorem spin_loops_return_witness:
  "gt_spinlock_lock (\<lambda>n l. if n = 2 then gt_spinlock_unlock l else l) \<lparr>locked = 7\<rparr> = Some (2, \<lparr>locked = 1\<rparr>) \<and>
   gt_spinlock_lock (\<lambda>n l. l) \<lparr>locked = 1\<rparr> = None"
proof -
  let ?o = "\<lambda>n l. if n = (2 :: nat) then gt_spinlock_unlock l else l"
  have b: "before ?o \<lparr>locked = 7\<rparr> 1 = \<lparr>locked = 7\<rparr>" "before ?o \<lparr>locked = 7\<rparr> 2 = \<lparr>locked = 7\<rparr>"
    by (simp_all add: numeral_2_eq_2)
  have "sees ?o \<lparr>locked = 7\<rparr> k \<noteq> 0" if "k < 2" for k
    using that b by (auto simp: sees_def less_2_cases_iff)
  moreover have "sees ?o \<lparr>locked = 7\<rparr> 2 = 0" "before ?o \<lparr>locked = 7\<rparr> (Suc 2) = \<lparr>locked = 0\<rparr>"
    unfolding sees_def before.simps(2) b(2) by (simp_all add: gt_spinlock_unlock_def)
  ultimately have 1: "gt_spinlock_lock ?o \<lparr>locked = 7\<rparr> = Some (2, \<lparr>locked = 1\<rparr>)"
    using spin_loops_return [of ?o "\<lparr>locked = 7\<rparr>" 2 "\<lparr>locked = 1\<rparr>" 0] by (simp del: before.simps)
  have "before (\<lambda>n l. l) spl n = spl" for n spl by (induction n) simp_all
  then have "\<forall>n. sees (\<lambda>n l. l) \<lparr>locked = 1\<rparr> n \<noteq> 0" by (simp add: sees_def)
  then have "gt_spinlock_lock (\<lambda>n l. l) \<lparr>locked = 1\<rparr> = None"
    using spin_loops_return [of "\<lambda>n l. l" "\<lparr>locked = 1\<rparr>" 0 "\<lparr>locked = 1\<rparr>" 0] by blast
  with 1 show ?thesis by blast
qed

subsection \<open>The stress test\<close>

text \<open>
  Every thread runs \<open>pthread_routine\<close>: ten thousand times it takes the lock, adds the time it
  waited to \<open>g_spinlock_cast\<close>, increments \<open>g_total_count\<close> by a load and a store, and releases
  the lock. \<open>acquire\<close> and \<open>release\<close> are one attempt of the operation, \<open>None\<close> when the
  compare-and-swap fails and the thread spins.
\<close>

definition TEST_LOOPS :: nat where "TEST_LOOPS = 10000"

datatype test_pc =
    At_lock nat
  | At_cast nat
  | At_load nat
  | At_store nat u32
  | At_unlock nat
  | Finished

record 'l test_state =
  t_lock :: 'l
  g_total_count :: u32
  g_spinlock_cast :: u64
  t_pc :: "nat \<Rightarrow> test_pc"

definition goto :: "nat \<Rightarrow> test_pc \<Rightarrow> 'l test_state \<Rightarrow> 'l test_state" where
  "goto t pc s = s\<lparr>t_pc := (t_pc s)(t := pc)\<rparr>"

inductive test_step ::
  "(nat \<Rightarrow> 'l \<Rightarrow> 'l option) \<Rightarrow> (nat \<Rightarrow> 'l \<Rightarrow> 'l option) \<Rightarrow> nat \<Rightarrow> 'l test_state \<Rightarrow> 'l test_state \<Rightarrow> bool"
  for acquire release N where
  lock: "t < N \<Longrightarrow> t_pc s t = At_lock i \<Longrightarrow> i < TEST_LOOPS \<Longrightarrow> acquire t (t_lock s) = Some l \<Longrightarrow>
    test_step acquire release N s (goto t (At_cast i) (s\<lparr>t_lock := l\<rparr>))"
| cast: "t < N \<Longrightarrow> t_pc s t = At_cast i \<Longrightarrow>
    test_step acquire release N s (goto t (At_load i) (s\<lparr>g_spinlock_cast := g_spinlock_cast s + d\<rparr>))"
| load: "t < N \<Longrightarrow> t_pc s t = At_load i \<Longrightarrow>
    test_step acquire release N s (goto t (At_store i (g_total_count s)) s)"
| store: "t < N \<Longrightarrow> t_pc s t = At_store i v \<Longrightarrow>
    test_step acquire release N s (goto t (At_unlock i) (s\<lparr>g_total_count := v + 1\<rparr>))"
| unlock: "t < N \<Longrightarrow> t_pc s t = At_unlock i \<Longrightarrow> release t (t_lock s) = Some l \<Longrightarrow>
    test_step acquire release N s (goto t (At_lock (Suc i)) (s\<lparr>t_lock := l\<rparr>))"
| finish: "t < N \<Longrightarrow> t_pc s t = At_lock i \<Longrightarrow> \<not> i < TEST_LOOPS \<Longrightarrow>
    test_step acquire release N s (goto t Finished s)"

definition test_start :: "'l \<Rightarrow> 'l test_state" where
  "test_start l = \<lparr>t_lock = l, g_total_count = 0, g_spinlock_cast = 0, t_pc = (\<lambda>_. At_lock 0)\<rparr>"

definition in_section :: "test_pc \<Rightarrow> bool" where
  "in_section pc = (case pc of At_lock i \<Rightarrow> False | Finished \<Rightarrow> False | _ \<Rightarrow> True)"

text \<open>Increments a thread has made, and steps it has left.\<close>

fun made :: "test_pc \<Rightarrow> nat" where
  "made (At_lock i) = i"
| "made (At_cast i) = i"
| "made (At_load i) = i"
| "made (At_store i v) = i"
| "made (At_unlock i) = Suc i"
| "made Finished = TEST_LOOPS"

fun todo :: "test_pc \<Rightarrow> nat" where
  "todo (At_lock i) = Suc (5 * (TEST_LOOPS - i))"
| "todo (At_cast i) = 5 * (TEST_LOOPS - i)"
| "todo (At_load i) = 5 * (TEST_LOOPS - i) - 1"
| "todo (At_store i v) = 5 * (TEST_LOOPS - i) - 2"
| "todo (At_unlock i) = 5 * (TEST_LOOPS - i) - 3"
| "todo Finished = 0"

fun pc_ok :: "test_pc \<Rightarrow> bool" where
  "pc_ok (At_lock i) = (i \<le> TEST_LOOPS)"
| "pc_ok (At_cast i) = (i < TEST_LOOPS)"
| "pc_ok (At_load i) = (i < TEST_LOOPS)"
| "pc_ok (At_store i v) = (i < TEST_LOOPS)"
| "pc_ok (At_unlock i) = (i < TEST_LOOPS)"
| "pc_ok Finished = True"

lemma sum_goto:
  assumes "t < N"
  shows "(\<Sum>u < N. g (t_pc (goto t pc s) u)) + g (t_pc s t) = (\<Sum>u < N. g (t_pc s u)) + (g pc :: nat)"
proof -
  have "(\<Sum>u < N. g (t_pc (goto t pc s) u)) = g pc + (\<Sum>u \<in> {..<N} - {t}. g (t_pc s u))"
    using assms by (subst sum.remove [of _ t]) (auto simp: goto_def intro!: sum.cong)
  moreover have "(\<Sum>u < N. g (t_pc s u)) = g (t_pc s t) + (\<Sum>u \<in> {..<N} - {t}. g (t_pc s u))"
    using assms by (subst sum.remove [of _ t]) auto
  ultimately show ?thesis by simp
qed

lemma goto_fields [simp]:
  "t_pc (goto t pc s) = (t_pc s)(t := pc)" "t_lock (goto t pc s) = t_lock s"
  "g_total_count (goto t pc s) = g_total_count s"
  by (simp_all add: goto_def)

text \<open>
  What a thread may expect of a lock, and that the test is correct with any lock that keeps to it:
  an attempt succeeds exactly on a free lock and makes the thread its owner, and an owner's release
  frees it.
\<close>

locale mutex =
  fixes acquire release :: "nat \<Rightarrow> 'l \<Rightarrow> 'l option"
    and is_free :: "'l \<Rightarrow> bool" and owned_by :: "nat \<Rightarrow> 'l \<Rightarrow> bool"
  assumes acquire_free: "is_free l \<Longrightarrow> \<exists>l'. acquire t l = Some l' \<and> \<not> is_free l' \<and> owned_by t l'"
    and acquire_held: "\<not> is_free l \<Longrightarrow> acquire t l = None"
    and release_owned: "owned_by t l \<Longrightarrow> \<exists>l'. release t l = Some l' \<and> is_free l'"
begin

definition exclusive :: "nat \<Rightarrow> 'l \<Rightarrow> (nat \<Rightarrow> test_pc) \<Rightarrow> bool" where
  "exclusive N l pcs \<longleftrightarrow> (if is_free l then \<forall>t < N. \<not> in_section (pcs t)
      else \<exists>t < N. owned_by t l \<and> (\<forall>u < N. in_section (pcs u) \<longleftrightarrow> u = t))"

definition mutex_inv :: "nat \<Rightarrow> 'l test_state \<Rightarrow> bool" where
  "mutex_inv N s \<longleftrightarrow> (\<forall>t < N. pc_ok (t_pc s t)) \<and> exclusive N (t_lock s) (t_pc s) \<and>
     (\<forall>t < N. \<forall>i v. t_pc s t = At_store i v \<longrightarrow> v = g_total_count s) \<and>
     g_total_count s = of_nat (\<Sum>t < N. made (t_pc s t))"

lemma exclusive_same:
  "exclusive N l pcs \<Longrightarrow> in_section pc = in_section (pcs t) \<Longrightarrow> exclusive N l (pcs(t := pc))"
  by (auto simp: exclusive_def split: if_splits)

lemma exclusive_owner:
  assumes "exclusive N l pcs" "t < N" "in_section (pcs t)"
  shows "\<not> is_free l" "owned_by t l" "\<And>u. u < N \<Longrightarrow> in_section (pcs u) \<Longrightarrow> u = t"
  using assms by (auto simp: exclusive_def split: if_splits)

lemma exclusive_enter:
  assumes "exclusive N l pcs" "t < N" "acquire t l = Some l'" "in_section pc"
  shows "exclusive N l' (pcs(t := pc))"
proof -
  have f: "is_free l" using assms(3) acquire_held [of l t] by fastforce
  with acquire_free [OF f, of t] assms show ?thesis by (auto simp: exclusive_def)
qed

lemma exclusive_leave:
  assumes "exclusive N l pcs" "t < N" "in_section (pcs t)" "release t l = Some l'" "\<not> in_section pc"
  shows "exclusive N l' (pcs(t := pc))"
proof -
  have "is_free l'" using release_owned [OF exclusive_owner(2) [OF assms(1-3)]] assms(4) by auto
  moreover have "\<not> in_section ((pcs(t := pc)) u)" if "u < N" for u
    using exclusive_owner(3) [OF assms(1-3) that] assms(5) by auto
  ultimately show ?thesis by (simp add: exclusive_def)
qed

lemma mutex_inv_start: "is_free l \<Longrightarrow> mutex_inv N (test_start l)"
  by (simp add: mutex_inv_def exclusive_def test_start_def in_section_def)

lemma mutex_step:
  assumes "test_step acquire release N s s'" "mutex_inv N s"
  shows "mutex_inv N s'"
  using assms
proof (cases rule: test_step.cases)
  case (lock t i l)
  with assms(2) exclusive_enter [of N "t_lock s" "t_pc s" t l "At_cast i"]
    sum_goto [of t N made "At_cast i" "s\<lparr>t_lock := l\<rparr>"]
  show ?thesis by (auto simp: mutex_inv_def in_section_def)
next
  case (cast t i d)
  with assms(2) exclusive_same [of N "t_lock s" "t_pc s" "At_load i" t]
    sum_goto [of t N made "At_load i" "s\<lparr>g_spinlock_cast := g_spinlock_cast s + d\<rparr>"]
  show ?thesis by (auto simp: mutex_inv_def in_section_def)
next
  case (load t i)
  with assms(2) exclusive_same [of N "t_lock s" "t_pc s" "At_store i (g_total_count s)" t]
    sum_goto [of t N made "At_store i (g_total_count s)" s]
  show ?thesis by (auto simp: mutex_inv_def in_section_def)
next
  case (store t i v)
  have ex: "exclusive N (t_lock s) (t_pc s)" and v: "v = g_total_count s"
    and sum: "g_total_count s = of_nat (\<Sum>t < N. made (t_pc s t))"
    using assms(2) store by (auto simp: mutex_inv_def)
  have one: "u = t" if "u < N" "t_pc s u = At_store j w" for u j w
    using exclusive_owner(3) [OF ex store(2) _ that(1)] store(3) that(2) by (simp add: in_section_def)
  have "(\<Sum>u < N. made (t_pc s' u)) = Suc (\<Sum>u < N. made (t_pc s u))"
    using sum_goto [of t N made "At_unlock i" "s\<lparr>g_total_count := v + 1\<rparr>"] store by simp
  moreover have "g_total_count s' = g_total_count s + 1" using store(1) v by simp
  ultimately have "g_total_count s' = of_nat (\<Sum>u < N. made (t_pc s' u))" by (simp only: sum of_nat_Suc add.commute)
  moreover have "\<forall>u < N. pc_ok (t_pc s' u)" using assms(2) store by (auto simp: mutex_inv_def)
  moreover have "exclusive N (t_lock s') (t_pc s')"
    using exclusive_same [OF ex, of "At_unlock i" t] store by (simp add: in_section_def)
  moreover have "t_pc s' u \<noteq> At_store j w" if "u < N" for u j w using one [OF that] store(1) by auto
  ultimately show ?thesis unfolding mutex_inv_def by blast
next
  case (unlock t i l)
  with assms(2) exclusive_leave [of N "t_lock s" "t_pc s" t l "At_lock (Suc i)"]
    sum_goto [of t N made "At_lock (Suc i)" "s\<lparr>t_lock := l\<rparr>"]
  show ?thesis by (auto simp: mutex_inv_def in_section_def)
next
  case (finish t i)
  with assms(2) have "i = TEST_LOOPS" by (auto simp: mutex_inv_def)
  with finish assms(2) exclusive_same [of N "t_lock s" "t_pc s" Finished t] sum_goto [of t N made Finished s]
  show ?thesis by (auto simp: mutex_inv_def in_section_def)
qed

lemma mutex_steps:
  "(test_step acquire release N)\<^sup>*\<^sup>* s s' \<Longrightarrow> mutex_inv N s \<Longrightarrow> mutex_inv N s'"
  by (induction rule: rtranclp_induct) (auto intro: mutex_step)

definition work :: "nat \<Rightarrow> 'l test_state \<Rightarrow> nat" where
  "work N s = (\<Sum>t < N. todo (t_pc s t))"

lemma work_goto: "t < N \<Longrightarrow> todo pc < todo (t_pc s t) \<Longrightarrow> work N (goto t pc s) < work N s"
  using sum_goto [of t N todo pc s] by (simp add: work_def)

lemma work_fields [simp]:
  "work N (s\<lparr>t_lock := l\<rparr>) = work N s" "work N (s\<lparr>g_spinlock_cast := c\<rparr>) = work N s"
  "work N (s\<lparr>g_total_count := n\<rparr>) = work N s"
  by (simp_all add: work_def)

lemma work_decreases:
  assumes "test_step acquire release N s s'" "mutex_inv N s"
  shows "work N s' < work N s"
proof -
  have ok: "pc_ok (t_pc s t)" if "t < N" for t using assms(2) that by (simp add: mutex_inv_def)
  from assms(1) show ?thesis
  proof (cases rule: test_step.cases)
    case (lock t i l)
    with work_goto [of t N "At_cast i" "s\<lparr>t_lock := l\<rparr>"] show ?thesis by simp
  next
    case (cast t i d)
    with ok [of t] work_goto [of t N "At_load i" "s\<lparr>g_spinlock_cast := g_spinlock_cast s + d\<rparr>"] show ?thesis by simp
  next
    case (load t i)
    with ok [of t] work_goto [of t N "At_store i (g_total_count s)" s] show ?thesis by simp
  next
    case (store t i v)
    with ok [of t] work_goto [of t N "At_unlock i" "s\<lparr>g_total_count := v + 1\<rparr>"] show ?thesis by simp
  next
    case (unlock t i l)
    with ok [of t] work_goto [of t N "At_lock (Suc i)" "s\<lparr>t_lock := l\<rparr>"] show ?thesis by simp
  next
    case (finish t i)
    with work_goto [of t N Finished s] show ?thesis by simp
  qed
qed

lemma progress:
  assumes inv: "mutex_inv N s" and t: "t < N" "t_pc s t \<noteq> Finished"
  shows "\<exists>s'. test_step acquire release N s s'"
proof (cases "\<exists>u < N. in_section (t_pc s u)")
  case True
  then obtain u where u: "u < N" "in_section (t_pc s u)" by blast
  have ex: "exclusive N (t_lock s) (t_pc s)" using inv by (simp add: mutex_inv_def)
  have "owned_by u (t_lock s)" by (rule exclusive_owner(2) [OF ex u])
  then obtain l where "release u (t_lock s) = Some l" using release_owned by blast
  with u show ?thesis
    by (cases "t_pc s u") (auto simp: in_section_def intro: test_step.intros)
next
  case False
  then have "is_free (t_lock s)" using inv by (auto simp: mutex_inv_def exclusive_def split: if_splits)
  then obtain l where "acquire t (t_lock s) = Some l" using acquire_free by blast
  moreover have "\<not> in_section (t_pc s t)" using False t(1) by blast
  with t(2) obtain i where "t_pc s t = At_lock i" by (cases "t_pc s t") (auto simp: in_section_def)
  ultimately show ?thesis
    using t(1) test_step.lock [of t N s i acquire l release] test_step.finish [of t N s i acquire release] by blast
qed

lemma can_finish:
  "mutex_inv N s \<Longrightarrow> \<exists>s'. (test_step acquire release N)\<^sup>*\<^sup>* s s' \<and> (\<forall>t < N. t_pc s' t = Finished)"
proof (induction "work N s" arbitrary: s rule: less_induct)
  case less
  show ?case
  proof (cases "\<forall>t < N. t_pc s t = Finished")
    case False
    then obtain s1 where s1: "test_step acquire release N s s1" using progress [OF less.prems] by blast
    from less.hyps [OF work_decreases [OF s1 less.prems] mutex_step [OF s1 less.prems]]
    show ?thesis using s1 by (meson converse_rtranclp_into_rtranclp)
  qed blast
qed

lemma steps_bounded:
  "(test_step acquire release N ^^ n) s s' \<Longrightarrow> mutex_inv N s \<Longrightarrow> n + work N s' \<le> work N s \<and> mutex_inv N s'"
proof (induction n arbitrary: s')
  case (Suc n)
  then obtain s1 where s1: "(test_step acquire release N ^^ n) s s1" "test_step acquire release N s1 s'" by auto
  with Suc.IH [OF s1(1) Suc.prems(2)] work_decreases [OF s1(2)] mutex_step [OF s1(2)] show ?case by force
qed simp

lemma finished_total:
  assumes "mutex_inv N s" "\<forall>t < N. t_pc s t = Finished"
  shows "g_total_count s = of_nat (N * TEST_LOOPS)"
  using assms by (simp add: mutex_inv_def)

lemma test_correct:
  assumes "is_free l" "(test_step acquire release N)\<^sup>*\<^sup>* (test_start l) s"
  shows "\<forall>t < N. \<forall>u < N. in_section (t_pc s t) \<longrightarrow> in_section (t_pc s u) \<longrightarrow> t = u"
    and "(\<forall>t < N. t_pc s t = Finished) \<longrightarrow> g_total_count s = of_nat (N * TEST_LOOPS)"
    and "\<exists>s'. (test_step acquire release N)\<^sup>*\<^sup>* s s' \<and> (\<forall>t < N. t_pc s' t = Finished)"
    and "(test_step acquire release N ^^ n) s s' \<Longrightarrow> n \<le> N * Suc (5 * TEST_LOOPS)"
proof -
  have inv: "mutex_inv N s" by (rule mutex_steps [OF assms(2) mutex_inv_start [OF assms(1)]])
  show "\<forall>t < N. \<forall>u < N. in_section (t_pc s t) \<longrightarrow> in_section (t_pc s u) \<longrightarrow> t = u"
    using exclusive_owner(3) inv by (simp add: mutex_inv_def) blast
  show "(\<forall>t < N. t_pc s t = Finished) \<longrightarrow> g_total_count s = of_nat (N * TEST_LOOPS)"
    using finished_total [OF inv] by blast
  show "\<exists>s'. (test_step acquire release N)\<^sup>*\<^sup>* s s' \<and> (\<forall>t < N. t_pc s' t = Finished)" by (rule can_finish [OF inv])
  assume n: "(test_step acquire release N ^^ n) s s'"
  obtain k where "(test_step acquire release N ^^ k) (test_start l) s"
    using assms(2) rtranclp_imp_relpowp by fastforce
  with steps_bounded [OF this mutex_inv_start [OF assms(1)]] have "work N s \<le> work N (test_start l)" by simp
  moreover have "n \<le> work N s" using steps_bounded [OF n inv] by simp
  ultimately show "n \<le> N * Suc (5 * TEST_LOOPS)" by (simp add: work_def test_start_def)
qed

end

subsection \<open>The locks of the header are mutexes\<close>

definition attempt :: "bool \<times> gt_spinlock \<Rightarrow> gt_spinlock option" where
  "attempt r = (if fst r then Some (snd r) else None)"

definition spin_acquire :: "nat \<Rightarrow> gt_spinlock \<Rightarrow> gt_spinlock option" where
  "spin_acquire t spl = attempt (compare_and_swap 0 1 spl)"

definition spin_release :: "nat \<Rightarrow> gt_spinlock \<Rightarrow> gt_spinlock option" where
  "spin_release t spl = Some (gt_spinlock_unlock spl)"

definition val_acquire :: "(nat \<Rightarrow> int) \<Rightarrow> nat \<Rightarrow> gt_spinlock \<Rightarrow> gt_spinlock option" where
  "val_acquire val t spl = attempt (compare_and_swap 0 (val t) spl)"

definition val_release :: "(nat \<Rightarrow> int) \<Rightarrow> nat \<Rightarrow> gt_spinlock \<Rightarrow> gt_spinlock option" where
  "val_release val t spl = attempt (compare_and_swap (val t) 0 spl)"

lemmas attempt_defs = attempt_def compare_and_swap_def spin_acquire_def spin_release_def val_acquire_def val_release_def
  gt_spinlock_unlock_def

interpretation plain: mutex spin_acquire spin_release "\<lambda>l. locked l = 0" "\<lambda>t l. locked l = 1"
  by unfold_locales (auto simp: attempt_defs)

lemma val_mutex:
  "\<forall>t. val t \<noteq> 0 \<Longrightarrow> mutex (val_acquire val) (val_release val) (\<lambda>l. locked l = 0) (\<lambda>t l. locked l = val t)"
  by unfold_locales (auto simp: attempt_defs)

text \<open>
  C11: the stress test does what it is meant to show, with the plain lock and with the lock that
  stores a value other than zero. In every reachable state at most one thread is between its lock
  and its unlock; when all have finished, the counter is ten thousand times their number (modulo
  the width of \<open>unsigned int\<close>) although it is incremented by a separate load and store; the test
  cannot get stuck, and no schedule makes more than 50001 successful steps per thread.
\<close>

theorem spinlock_test_counts:
  assumes "\<forall>t. val t \<noteq> 0"
    and ops: "acquire = spin_acquire \<and> release = spin_release \<or> acquire = val_acquire val \<and> release = val_release val"
    and reach: "(test_step acquire release N)\<^sup>*\<^sup>* (test_start (gt_spinlock_init l)) s"
  shows "(\<forall>t < N. \<forall>u < N. in_section (t_pc s t) \<longrightarrow> in_section (t_pc s u) \<longrightarrow> t = u) \<and>
    ((\<forall>t < N. t_pc s t = Finished) \<longrightarrow> g_total_count s = of_nat (N * TEST_LOOPS)) \<and>
    (\<exists>s'. (test_step acquire release N)\<^sup>*\<^sup>* s s' \<and> (\<forall>t < N. t_pc s' t = Finished)) \<and>
    (\<forall>n s'. (test_step acquire release N ^^ n) s s' \<longrightarrow> n \<le> N * Suc (5 * TEST_LOOPS))"
proof -
  have free: "locked (gt_spinlock_init l) = 0" by (simp add: gt_spinlock_init_def)
  from ops show ?thesis
  proof
    assume "acquire = spin_acquire \<and> release = spin_release"
    with plain.test_correct [OF free, of N s] reach show ?thesis by blast
  next
    assume "acquire = val_acquire val \<and> release = val_release val"
    with mutex.test_correct [OF val_mutex [OF assms(1)] free, of N s] reach show ?thesis by blast
  qed
qed

theorem spinlock_test_counts_witness:
  "\<exists>s. (test_step spin_acquire spin_release 2)\<^sup>*\<^sup>* (test_start \<lparr>locked = 0\<rparr>) s \<and>
     t_pc s 0 = Finished \<and> t_pc s 1 = Finished \<and> g_total_count s = 20000"
proof -
  have l: "gt_spinlock_init \<lparr>locked = 5\<rparr> = \<lparr>locked = 0\<rparr>" by (simp add: gt_spinlock_init_def)
  note T = spinlock_test_counts [of "\<lambda>_. 1" spin_acquire spin_release 2 "\<lparr>locked = 5\<rparr>", unfolded l]
  obtain s where s: "(test_step spin_acquire spin_release 2)\<^sup>*\<^sup>* (test_start \<lparr>locked = 0\<rparr>) s" "\<forall>t < 2. t_pc s t = Finished"
    using T [of "test_start \<lparr>locked = 0\<rparr>"] by auto
  with T [of s] show ?thesis by (auto simp: TEST_LOOPS_def)
qed

subsection \<open>The value zero\<close>

definition test_two :: "u32 \<Rightarrow> test_pc \<Rightarrow> test_pc \<Rightarrow> gt_spinlock test_state" where
  "test_two c p q = \<lparr>t_lock = \<lparr>locked = 0\<rparr>, g_total_count = c, g_spinlock_cast = 0,
     t_pc = (\<lambda>_. At_lock 0)(0 := p, 1 := q)\<rparr>"

abbreviation zero_step :: "gt_spinlock test_state \<Rightarrow> gt_spinlock test_state \<Rightarrow> bool" where
  "zero_step \<equiv> test_step (val_acquire (\<lambda>_. 0)) (val_release (\<lambda>_. 0)) 2"

lemma zero_lock: "zero_step (test_two c (At_lock 0) q) (test_two c (At_cast 0) q)"
  "zero_step (test_two c p (At_lock 0)) (test_two c p (At_cast 0))"
  using test_step.lock [of 0 2 "test_two c (At_lock 0) q" 0 "val_acquire (\<lambda>_. 0)" "\<lparr>locked = 0\<rparr>"]
    test_step.lock [of 1 2 "test_two c p (At_lock 0)" 0 "val_acquire (\<lambda>_. 0)" "\<lparr>locked = 0\<rparr>"]
  by (simp_all add: test_two_def goto_def attempt_defs TEST_LOOPS_def fun_upd_twist)

lemma zero_cast: "zero_step (test_two c (At_cast 0) q) (test_two c (At_load 0) q)"
  "zero_step (test_two c p (At_cast 0)) (test_two c p (At_load 0))"
  using test_step.cast [of 0 2 "test_two c (At_cast 0) q" 0 _ _ 0] test_step.cast [of 1 2 "test_two c p (At_cast 0)" 0 _ _ 0]
  by (simp_all add: test_two_def goto_def fun_upd_twist)

lemma zero_load: "zero_step (test_two c (At_load 0) q) (test_two c (At_store 0 c) q)"
  "zero_step (test_two c p (At_load 0)) (test_two c p (At_store 0 c))"
  using test_step.load [of 0 2 "test_two c (At_load 0) q" 0] test_step.load [of 1 2 "test_two c p (At_load 0)" 0]
  by (simp_all add: test_two_def goto_def fun_upd_twist)

lemma zero_store: "zero_step (test_two c (At_store 0 v) q) (test_two (v + 1) (At_unlock 0) q)"
  "zero_step (test_two c p (At_store 0 v)) (test_two (v + 1) p (At_unlock 0))"
  using test_step.store [of 0 2 "test_two c (At_store 0 v) q" 0 v] test_step.store [of 1 2 "test_two c p (At_store 0 v)" 0 v]
  by (simp_all add: test_two_def goto_def fun_upd_twist)

lemma three_steps: "r a b \<Longrightarrow> r b c \<Longrightarrow> r c d \<Longrightarrow> r\<^sup>*\<^sup>* a d"
  by (meson r_into_rtranclp rtranclp_trans)

lemma zero_both_inside: "zero_step\<^sup>*\<^sup>* (test_two 0 (At_lock 0) (At_lock 0)) (test_two 0 (At_store 0 0) (At_store 0 0))"
proof -
  have a: "zero_step\<^sup>*\<^sup>* (test_two 0 (At_lock 0) q) (test_two 0 (At_store 0 0) q)" for q
    by (rule three_steps [of zero_step]) (rule zero_lock(1), rule zero_cast(1), rule zero_load(1))
  have b: "zero_step\<^sup>*\<^sup>* (test_two 0 p (At_lock 0)) (test_two 0 p (At_store 0 0))" for p
    by (rule three_steps [of zero_step]) (rule zero_lock(2), rule zero_cast(2), rule zero_load(2))
  from a b show ?thesis by (rule rtranclp_trans)
qed

text \<open>
  C34: the value 0 passed to \<open>gt_spinlock_lock_with_val\<close> gives no exclusion. Two threads can both
  be inside, and then one increment is lost: both have made theirs and the counter is 1.
\<close>

theorem zero_val_no_exclusion:
  "\<exists>s s'. (test_step (val_acquire (\<lambda>_. 0)) (val_release (\<lambda>_. 0)) 2)\<^sup>*\<^sup>* (test_start (gt_spinlock_init l)) s \<and>
     in_section (t_pc s 0) \<and> in_section (t_pc s 1) \<and>
     (test_step (val_acquire (\<lambda>_. 0)) (val_release (\<lambda>_. 0)) 2)\<^sup>*\<^sup>* s s' \<and>
     made (t_pc s' 0) = 1 \<and> made (t_pc s' 1) = 1 \<and> g_total_count s' = 1"
proof -
  have "test_start (gt_spinlock_init l) = test_two 0 (At_lock 0) (At_lock 0)"
    by (auto simp: test_start_def test_two_def gt_spinlock_init_def fun_eq_iff)
  moreover have "zero_step\<^sup>*\<^sup>* (test_two 0 (At_store 0 0) (At_store 0 0)) (test_two 1 (At_unlock 0) (At_unlock 0))"
    using zero_store(1) [of 0 0 "At_store 0 0"] zero_store(2) [of 1 "At_unlock 0" 0]
    by (auto intro: converse_rtranclp_into_rtranclp)
  ultimately show ?thesis
    using zero_both_inside
    by (intro exI [of _ "test_two 0 (At_store 0 0) (At_store 0 0)"] exI [of _ "test_two 1 (At_unlock 0) (At_unlock 0)"])
      (simp_all add: test_two_def in_section_def)
qed

end
