(* ===== verification/GT_Spinlock_Test.thy ===== *)
theory GT_Spinlock_Test
  imports GT_Spinlock GT_Params
begin

text \<open>
  The stress test program of the spin lock (\<open>test/spinlock_test.c\<close>): its \<open>main\<close> creates the
  threads of \<open>GT_Spinlock\<close> one after the other while the earlier ones already run, joins them and
  prints the counter. A state is a point of \<open>main\<close> with the threads' state; a step is one of
  \<open>main\<close> or of a thread that has been created. Whether \<open>malloc\<close> succeeds, the results of
  \<open>pthread_create\<close> and the thread identifiers it stores are the environment's choice.
\<close>

subsection \<open>The program\<close>

text \<open>Points of \<open>main\<close>; \<open>M_fault\<close> is the end of the process by a signal.\<close>

datatype main_pc =
    M_create nat
  | M_join nat
  | M_print
  | M_exit int
  | M_fault

record test_main =
  m_test :: "gt_spinlock test_state"
  m_pc :: main_pc
  m_created :: nat
  thread_num :: int
  thread_id :: "u64 list option"
  m_log :: "log_entry list"

definition sizeof_pthread_t :: u64 where "sizeof_pthread_t = 8"

text \<open>\<open>int\<close> is converted to \<open>size_t\<close> and the product wraps.\<close>

definition thread_id_size :: "int \<Rightarrow> u64" where
  "thread_id_size n = sizeof_pthread_t * word_of_int n"

text \<open>\<open>malloc\<close> never returns a block of more than \<open>PTRDIFF_MAX\<close> bytes. The contents follow from the \<open>memset\<close>.\<close>

definition zeroed_array :: "bool \<Rightarrow> u64 \<Rightarrow> u64 list option" where
  "zeroed_array mem_ok sz = (if mem_ok \<and> unat sz < 2 ^ 63 then Some (replicate (unat sz div 8) 0) else None)"

definition test_log :: "gt_log_level \<Rightarrow> string \<Rightarrow> log_arg list \<Rightarrow> test_main \<Rightarrow> test_main" where
  "test_log lvl fmt args m = m\<lparr>m_log := m_log m @
     [\<lparr>l_mod = GT_MOD_TEST, l_std = False, l_level = lvl, l_format = fmt, l_args = args\<rparr>]\<rparr>"

text \<open>\<open>main\<close> up to its first loop; \<open>l\<close> is the uninitialised lock.\<close>

definition test_main_start :: "bool \<Rightarrow> gt_spinlock \<Rightarrow> string list \<Rightarrow> test_main" where
  "test_main_start mem_ok l argv =
     (let m = \<lparr>m_test = test_start l, m_pc = M_create 0, m_created = 0, thread_num = 0, thread_id = None, m_log = []\<rparr> in
      if length argv \<noteq> 2 then
        (test_log GT_LOG_LEVEL_ERROR ''Usage: %s [thead_num]'' [AStr (case argv of [] \<Rightarrow> ''(null)'' | a # _ \<Rightarrow> a)] m)\<lparr>m_pc := M_exit GT_ERROR\<rparr>
      else
        let n = atoi (argv ! 1);
            ids = zeroed_array mem_ok (thread_id_size n);
            m = m\<lparr>thread_num := n, thread_id := ids\<rparr>
        in if ids = None \<and> thread_id_size n \<noteq> 0 then m\<lparr>m_pc := M_fault\<rparr>
           else m\<lparr>m_test := test_start (gt_spinlock_init l)\<rparr>)"

text \<open>
  One step of \<open>main\<close>: \<open>ret\<close> and \<open>tid\<close> are the result of \<open>pthread_create\<close> and the identifier it
  stores; \<open>None\<close> while \<open>main\<close> waits in \<open>pthread_join\<close> or has ended.
\<close>

definition test_main_step :: "int \<Rightarrow> u64 \<Rightarrow> test_main \<Rightarrow> test_main option" where
  "test_main_step ret tid m = (case m_pc m of
     M_create idx \<Rightarrow>
       if int idx < thread_num m then
         (case thread_id m of
            None \<Rightarrow> Some (m\<lparr>m_pc := M_fault\<rparr>)
          | Some ids \<Rightarrow>
              if length ids \<le> idx then Some (m\<lparr>m_pc := M_fault\<rparr>)
              else if ret \<noteq> GT_OK then
                Some ((test_log GT_LOG_LEVEL_ERROR ''Failed to create pthead, idx[%d]'' [AInt (int idx)] m)\<lparr>m_pc := M_exit 0\<rparr>)
              else
                let ids = ids[idx := tid] in
                Some ((test_log GT_LOG_LEVEL_INFO ''Success to create pthread[%lu]'' [AInt (uint (ids ! idx))] m)
                  \<lparr>thread_id := Some ids, m_created := Suc idx, m_pc := M_create (Suc idx)\<rparr>))
       else Some (m\<lparr>m_pc := M_join 0\<rparr>)
   | M_join idx \<Rightarrow>
       if int idx < thread_num m then
         (if t_pc (m_test m) idx = Finished then Some (m\<lparr>m_pc := M_join (Suc idx)\<rparr>) else None)
       else Some (m\<lparr>m_pc := M_print\<rparr>)
   | M_print \<Rightarrow>
       if (word_of_int (thread_num m) :: u64) = 0 then Some (m\<lparr>m_pc := M_fault\<rparr>)
       else Some ((test_log GT_LOG_LEVEL_INFO ''spinlock ave cast:%luus, thread_num:%d, total_count:%u''
              [AInt (uint (g_spinlock_cast (m_test m) div word_of_int (thread_num m))), AInt (thread_num m),
               AInt (uint (g_total_count (m_test m)))] m)\<lparr>thread_id := None, m_pc := M_exit 0\<rparr>)
   | M_exit r \<Rightarrow> None
   | M_fault \<Rightarrow> None)"

definition ended :: "test_main \<Rightarrow> bool" where
  "ended m = (case m_pc m of M_exit r \<Rightarrow> True | M_fault \<Rightarrow> True | _ \<Rightarrow> False)"

inductive stress_step :: "test_main \<Rightarrow> test_main \<Rightarrow> bool" where
  main_step: "test_main_step ret tid m = Some m' \<Longrightarrow> stress_step m m'"
| thread_step: "\<not> ended m \<Longrightarrow> test_step spin_acquire spin_release (m_created m) (m_test m) s \<Longrightarrow>
    stress_step m (m\<lparr>m_test := s\<rparr>)"

subsection \<open>Invariant\<close>

lemma test_step_more: "test_step acq rel M s s' \<Longrightarrow> M \<le> N \<Longrightarrow> test_step acq rel N s s'"
  by (induction rule: test_step.induct) (auto intro: test_step.intros)

lemma test_step_beyond: "test_step acq rel M s s' \<Longrightarrow> M \<le> t \<Longrightarrow> t_pc s' t = t_pc s t"
  by (induction rule: test_step.induct) auto

lemma test_step_finished: "test_step acq rel M s s' \<Longrightarrow> t_pc s t = Finished \<Longrightarrow> t_pc s' t = Finished"
  by (induction rule: test_step.induct) auto

definition report :: "test_main \<Rightarrow> log_entry" where
  "report m = \<lparr>l_mod = GT_MOD_TEST, l_std = False, l_level = GT_LOG_LEVEL_INFO,
     l_format = ''spinlock ave cast:%luus, thread_num:%d, total_count:%u'',
     l_args = [AInt (uint (g_spinlock_cast (m_test m) div word_of_int (thread_num m))), AInt (thread_num m),
               AInt (uint (of_nat (nat (thread_num m) * TEST_LOOPS) :: u32))]\<rparr>"

definition create_failed :: "nat \<Rightarrow> log_entry" where
  "create_failed idx = \<lparr>l_mod = GT_MOD_TEST, l_std = False, l_level = GT_LOG_LEVEL_ERROR,
     l_format = ''Failed to create pthead, idx[%d]'', l_args = [AInt (int idx)]\<rparr>"

definition all_done :: "nat \<Rightarrow> test_main \<Rightarrow> bool" where
  "all_done k m \<longleftrightarrow> (\<forall>t < k. t_pc (m_test m) t = Finished)"

definition stress_inv :: "int \<Rightarrow> test_main \<Rightarrow> bool" where
  "stress_inv n m \<longleftrightarrow> thread_num m = n \<and> n < 2 ^ 31 \<and> (m_pc m \<noteq> M_fault \<longrightarrow> 0 \<le> n) \<and>
     plain.mutex_inv (nat n) (m_test m) \<and> m_created m \<le> nat n \<and>
     (\<forall>t. m_created m \<le> t \<longrightarrow> t_pc (m_test m) t = At_lock 0) \<and>
     (case m_pc m of
        M_create idx \<Rightarrow> m_created m = idx \<and> (0 < n \<longrightarrow> (\<exists>ids. thread_id m = Some ids \<and> length ids = nat n))
      | M_join idx \<Rightarrow> m_created m = nat n \<and> idx \<le> nat n \<and> all_done idx m
      | M_print \<Rightarrow> m_created m = nat n \<and> all_done (nat n) m
      | M_exit r \<Rightarrow> r = 0 \<and> m_log m \<noteq> [] \<and>
          (last (m_log m) = create_failed (m_created m) \<and> m_created m < nat n \<or>
           last (m_log m) = report m \<and> 0 < n \<and> m_created m = nat n \<and> all_done (nat n) m)
      | M_fault \<Rightarrow> n = 0)"

lemma unat_of_int_64: "0 \<le> n \<Longrightarrow> n < 2 ^ 31 \<Longrightarrow> unat (word_of_int n :: u64) = nat n"
  by (simp add: unat_eq_nat_uint uint_word_of_int)

lemma word_of_int_64_0: "0 \<le> n \<Longrightarrow> n < 2 ^ 31 \<Longrightarrow> (word_of_int n :: u64) = 0 \<longleftrightarrow> n = 0"
  using unat_of_int_64 [of n] by (auto simp: unat_eq_zero [symmetric])

lemma negative_size:
  assumes "n < 0" "- (2 ^ 31) \<le> n"
  shows "thread_id_size n \<noteq> 0" "\<not> unat (thread_id_size n) < 2 ^ 63"
proof -
  have "uint (thread_id_size n) = (8 * n) mod 2 ^ 64"
    by (simp add: thread_id_size_def sizeof_pthread_t_def uint_word_ariths uint_word_of_int mod_mult_right_eq)
  also have "\<dots> = (8 * n + 2 ^ 64) mod 2 ^ 64" by simp
  also have "\<dots> = 8 * n + 2 ^ 64" by (rule mod_pos_pos_trivial) (use assms in simp_all)
  finally have u: "uint (thread_id_size n) = 8 * n + 2 ^ 64" .
  with assms show "thread_id_size n \<noteq> 0" by auto
  from u assms show "\<not> unat (thread_id_size n) < 2 ^ 63" by (simp add: unat_eq_nat_uint)
qed

lemma atoi_range: "- (2 ^ 31) \<le> atoi s" "atoi s < 2 ^ 31"
  using sint_range_size [of "word_of_int (strtol s) :: u32"] by (simp_all add: atoi_def word_size)

lemma thread_id_size_pos: "0 \<le> n \<Longrightarrow> n < 2 ^ 31 \<Longrightarrow> unat (thread_id_size n) = 8 * nat n"
  by (simp add: thread_id_size_def sizeof_pthread_t_def unat_word_ariths unat_of_int_64)

lemma stress_main_step:
  assumes "stress_inv n m" "test_main_step ret tid m = Some m'"
  shows "stress_inv n m'"
proof (cases "m_pc m")
  case (M_create idx)
  with assms show ?thesis
    by (auto simp: stress_inv_def test_main_step_def test_log_def create_failed_def all_done_def Let_def
        split: if_splits option.splits)
next
  case (M_join idx)
  with assms show ?thesis
    by (auto simp: stress_inv_def test_main_step_def all_done_def less_Suc_eq split: if_splits)
next
  case M_print
  with assms have i: "0 \<le> n" "n < 2 ^ 31" "thread_num m = n" "all_done (nat n) m" "plain.mutex_inv (nat n) (m_test m)"
    by (auto simp: stress_inv_def)
  have "g_total_count (m_test m) = of_nat (nat n * TEST_LOOPS)"
    using plain.finished_total [OF i(5)] i(4) by (simp add: all_done_def)
  with M_print assms show ?thesis
    by (auto simp: stress_inv_def test_main_step_def test_log_def report_def all_done_def word_of_int_64_0 split: if_splits)
qed (use assms in \<open>auto simp: test_main_step_def\<close>)

lemma stress_thread_step:
  assumes inv: "stress_inv n m" and e: "\<not> ended m" and st: "test_step spin_acquire spin_release (m_created m) (m_test m) s"
  shows "stress_inv n (m\<lparr>m_test := s\<rparr>)" "plain.work (nat n) s < plain.work (nat n) (m_test m)"
proof -
  have m: "m_created m \<le> nat n" "plain.mutex_inv (nat n) (m_test m)" using inv by (simp_all add: stress_inv_def)
  note st' = test_step_more [OF st m(1)]
  have "plain.mutex_inv (nat n) s" by (rule plain.mutex_step [OF st' m(2)])
  moreover have "t_pc s t = At_lock 0" if "m_created m \<le> t" for t
    using test_step_beyond [OF st that] inv that by (simp add: stress_inv_def)
  moreover have "all_done k (m\<lparr>m_test := s\<rparr>)" if "all_done k m" for k
    using that test_step_finished [OF st] by (simp add: all_done_def)
  ultimately show "stress_inv n (m\<lparr>m_test := s\<rparr>)"
    using inv e by (auto simp: stress_inv_def ended_def split: main_pc.splits)
  show "plain.work (nat n) s < plain.work (nat n) (m_test m)" by (rule plain.work_decreases [OF st' m(2)])
qed

lemma stress_step_inv: "stress_step m m' \<Longrightarrow> stress_inv n m \<Longrightarrow> stress_inv n m'"
  by (induction rule: stress_step.induct) (auto intro: stress_main_step stress_thread_step(1))

text \<open>The steps that are left at most.\<close>

definition main_left :: "nat \<Rightarrow> main_pc \<Rightarrow> nat" where
  "main_left N pc = (case pc of M_create idx \<Rightarrow> (N - idx) + N + 3 | M_join idx \<Rightarrow> (N - idx) + 2 | M_print \<Rightarrow> 1 | _ \<Rightarrow> 0)"

definition stress_left :: "int \<Rightarrow> test_main \<Rightarrow> nat" where
  "stress_left n m = main_left (nat n) (m_pc m) + plain.work (nat n) (m_test m)"

lemma stress_step_left:
  assumes "stress_step m m'" "stress_inv n m"
  shows "stress_left n m' < stress_left n m"
  using assms
proof (induction rule: stress_step.induct)
  case (main_step ret tid m m')
  then have "m_test m' = m_test m"
    by (auto simp: test_main_step_def test_log_def Let_def split: main_pc.splits if_splits option.splits)
  moreover have "main_left (nat n) (m_pc m') < main_left (nat n) (m_pc m)"
    using main_step
    by (auto simp: test_main_step_def test_log_def main_left_def stress_inv_def Let_def split: main_pc.splits if_splits option.splits)
  ultimately show ?case by (simp add: stress_left_def)
next
  case (thread_step m s)
  with stress_thread_step(2) show ?case by (simp add: stress_left_def)
qed

lemma stress_steps:
  "(stress_step ^^ k) m m' \<Longrightarrow> stress_inv n m \<Longrightarrow> stress_inv n m' \<and> k + stress_left n m' \<le> stress_left n m"
proof (induction k arbitrary: m')
  case (Suc k)
  then obtain m1 where m1: "(stress_step ^^ k) m m1" "stress_step m1 m'" by auto
  with Suc.IH [OF m1(1) Suc.prems(2)] stress_step_left [OF m1(2)] stress_step_inv [OF m1(2)] show ?case by force
qed simp

lemma stress_progress:
  assumes inv: "stress_inv n m" and e: "\<not> ended m"
  shows "\<exists>m'. stress_step m m'"
proof (cases "\<exists>m'. test_main_step 0 0 m = Some m'")
  case True
  then show ?thesis using stress_step.main_step by blast
next
  case False
  with e obtain idx where w: "m_pc m = M_join idx" "int idx < n" "t_pc (m_test m) idx \<noteq> Finished"
    using inv by (auto simp: test_main_step_def ended_def stress_inv_def Let_def split: main_pc.splits if_splits option.splits)
  with inv have i: "plain.mutex_inv (nat n) (m_test m)" "m_created m = nat n" by (simp_all add: stress_inv_def)
  from w(2) have "idx < nat n" by simp
  from plain.progress [OF i(1) this w(3)] obtain s where "test_step spin_acquire spin_release (m_created m) (m_test m) s"
    using i(2) by auto
  with e stress_step.thread_step show ?thesis by blast
qed

lemma stress_start:
  assumes "length argv = 2" "n = atoi (argv ! 1)" "0 \<le> n" "mem_ok \<or> n = 0"
  shows "stress_inv n (test_main_start mem_ok l argv)" "stress_left n (test_main_start mem_ok l argv) = nat n * 50003 + 3"
proof -
  have u: "unat (thread_id_size n) = 8 * nat n" "n < 2 ^ 31" using thread_id_size_pos assms(2,3) atoi_range(2) by auto
  then have z: "thread_id_size n = 0 \<longleftrightarrow> n = 0" using assms(3) by (auto simp: unat_eq_zero [symmetric])
  have "unat (thread_id_size n) < 2 ^ 63" using u assms(3) by simp
  with u z assms have ids: "zeroed_array mem_ok (thread_id_size n) = Some (replicate (nat n) 0) \<or> n = 0 \<and> \<not> mem_ok"
    by (auto simp: zeroed_array_def)
  let ?m = "test_main_start mem_ok l argv"
  have m: "m_pc ?m = M_create 0" "m_created ?m = 0" "thread_num ?m = n" "m_test ?m = test_start (gt_spinlock_init l)"
    "0 < n \<longrightarrow> thread_id ?m = Some (replicate (nat n) 0)"
    using assms(1,2) ids z by (auto simp: test_main_start_def Let_def)
  have "plain.mutex_inv (nat n) (test_start (gt_spinlock_init l))"
    by (rule plain.mutex_inv_start) (simp add: gt_spinlock_init_def)
  then show "stress_inv n ?m" using m u(2) assms(3) by (auto simp: stress_inv_def test_start_def)
  show "stress_left n ?m = nat n * 50003 + 3"
    using m by (simp add: stress_left_def main_left_def plain.work_def test_start_def TEST_LOOPS_def)
qed

lemma stress_usage:
  "length argv \<noteq> 2 \<Longrightarrow> m_pc (test_main_start mem_ok l argv) = M_exit GT_ERROR \<and> \<not> stress_step (test_main_start mem_ok l argv) m"
  by (auto simp: test_main_start_def test_log_def Let_def test_main_step_def ended_def elim!: stress_step.cases)

subsection \<open>Property\<close>



end
