(* ===== verification/GT_Ring_Queue.thy ===== *)
theory GT_Ring_Queue
  imports GT_Prelude
begin

text \<open>
  The ring queue of \<open>user/core/gt_ring_queue.h\<close>: the cell that packs a 40 bit value and a 24 bit
  version in one 64 bit word, the queue header and the one operation \<open>gt_ring_queue.c\<close> defines.
  Bit fields are laid out as the compilers for the target do it, the first field in the low bits.
  The other three operations are declared and never defined.
\<close>

definition ADDR_BIT_LEN :: nat where "ADDR_BIT_LEN = 40"
definition CACHE_LINE_SIZE :: nat where "CACHE_LINE_SIZE = 64"

datatype rq_type = GT_RQ_TYPE_SPSC | GT_RQ_TYPE_SPMC | GT_RQ_TYPE_MPSC | GT_RQ_TYPE_MPMC | GT_RQ_TYPE_MAX

record gt_ring_data =
  uint64_addr :: u64

definition data_val :: "gt_ring_data \<Rightarrow> u64" where
  "data_val d = take_bit ADDR_BIT_LEN (uint64_addr d)"

definition data_ver :: "gt_ring_data \<Rightarrow> u64" where
  "data_ver d = drop_bit ADDR_BIT_LEN (uint64_addr d)"

definition set_data_val :: "u64 \<Rightarrow> gt_ring_data \<Rightarrow> gt_ring_data" where
  "set_data_val v d = d\<lparr>uint64_addr := push_bit ADDR_BIT_LEN (data_ver d) OR take_bit ADDR_BIT_LEN v\<rparr>"

definition set_data_ver :: "u64 \<Rightarrow> gt_ring_data \<Rightarrow> gt_ring_data" where
  "set_data_ver v d = d\<lparr>uint64_addr := push_bit ADDR_BIT_LEN v OR data_val d\<rparr>"

record gt_ring_queue =
  prod_head :: u32
  prod_tail :: u32
  cons_head :: u32
  cons_tail :: u32
  rq_size :: u32
  rq_data :: "gt_ring_data list"

definition gt_ring_queue_mp_enqueue :: "gt_ring_queue \<Rightarrow> u64 \<Rightarrow> int \<times> gt_ring_queue" where
  "gt_ring_queue_mp_enqueue rq val = (GT_OK, rq)"

text \<open>The two fields together are the word.\<close>

lemma data_eqI:
  assumes "data_val d = data_val e" "data_ver d = data_ver e"
  shows "d = e"
proof -
  have "uint64_addr d = uint64_addr e"
  proof (rule bit_word_eqI)
    fix n
    show "bit (uint64_addr d) n = bit (uint64_addr e) n"
    proof (cases "n < ADDR_BIT_LEN")
      case True
      have "bit (data_val d) n = bit (data_val e) n" using assms(1) by simp
      with True show ?thesis by (simp add: data_val_def bit_take_bit_iff)
    next
      case False
      have "bit (data_ver d) (n - ADDR_BIT_LEN) = bit (data_ver e) (n - ADDR_BIT_LEN)" using assms(2) by simp
      with False show ?thesis by (simp add: data_ver_def bit_drop_bit_eq)
    qed
  qed
  then show ?thesis by simp
qed

lemma high_bits: "bit (w :: u64) (40 + n) \<Longrightarrow> n < 24"
  using bit_imp_le_length [of w "40 + n"] by simp

lemma set_val_fields: "data_val (set_data_val v d) = take_bit 40 v" "data_ver (set_data_val v d) = data_ver d"
  by (rule bit_word_eqI, auto simp: data_val_def data_ver_def set_data_val_def ADDR_BIT_LEN_def bit_simps dest: high_bits)+

lemma set_ver_fields: "data_val (set_data_ver v d) = data_val d" "data_ver (set_data_ver v d) = take_bit 24 v"
  by (rule bit_word_eqI, auto simp: data_val_def data_ver_def set_data_ver_def ADDR_BIT_LEN_def bit_simps dest: high_bits)+


end
