(* ===== verification/Spec2Isabelle.thy ===== *)
theory Spec2Isabelle
  imports GT_Main GT_Race_Spec GT_Service GT_Spinlock_Test GT_Ring_Queue
begin

text \<open>
  \<^bold>\<open>A verification of guitar\&tea (gt)\<close>, a framework for server daemons in C: a daemon with a
  fixed set of threads, each running an epoll loop or idling, an accepting thread that hands
  connections to four data threads, signals turned into events by a socket pair, a table of
  start-up functions ordered by phases, and a log engine. Sources are named relative to \<open>src/\<close>.

  \<^bold>\<open>Parts and theories.\<close>
  \<^item> \<open>GT_Prelude\<close>: the machine types of \<open>user/comm/gt_typedef.h\<close> as word types, result codes, byte
    order, decimal text, the lemma collections \<open>heap_eval\<close> and \<open>frame_simps\<close>.
  \<^item> \<open>GT_List\<close>: \<open>user/comm/gt_list.h\<close>, every function and iteration macro, over a memory of list
    heads (an address either holds a head or is unmapped; an access to an unmapped address is
    \<open>None\<close>). Loops are partial functions, so that not ending is \<open>None\<close> too.
  \<^item> \<open>GT_Posix\<close>: what the program uses of the C library and Linux: descriptors, epoll sets, sockets,
    socket pairs, \<open>errno\<close>, signal dispositions and mask, log calls.
  \<^item> \<open>GT_State\<close>: the globals of all modules and the objects in memory (events, pollers, heap blocks,
    list heads, threads) as the record \<open>gt_state\<close>, and \<open>user/core/gt_memory.c\<close>.
  \<^item> \<open>GT_Poller\<close>: \<open>user/core/gt_poller.c\<close>. \<open>GT_Core\<close>: \<open>gt_core.c\<close>. \<open>GT_Worker\<close>: the thread-id cache,
    thread creation and broadcast of \<open>gt_worker.c\<close>. \<open>GT_Network\<close>: \<open>gt_network.c\<close>.
    \<open>GT_Signal\<close>: \<open>gt_signal.c\<close>. \<open>GT_Log\<close>: \<open>gt_log.c\<close>, on the bytes of its stack buffer.
    \<open>GT_Params\<close>: the command line of \<open>user/main/main.c\<close>.
  \<^item> \<open>GT_Events\<close>: the dispatch loop and the handlers together, the invariant \<open>sys_inv\<close>.
    \<open>GT_System\<close>: start-up functions, rounds, signals and environment as steps of one machine.
    \<open>GT_Threads\<close>: the thread routines of \<open>gt_worker.c\<close> cut into atomic pieces and interleaved with
    all that. \<open>GT_Main\<close>: daemonisation, initialisation, main loop and \<open>main\<close> of \<open>main.c\<close>.
  \<^item> \<open>GT_Race\<close>: the accepting thread (\<open>gt_network_ops_read\<close>, \<open>gt_network_round_dispatch\<close>) and the data
    threads (\<open>gt_poller_init\<close>, \<open>gt_poller_epoll_wait\<close>, \<open>gt_datanet_ops_read\<close>,
    \<open>gt_poller_gevent_destroy\<close>) cut at every access to what they share, and their interleaving.
    \<open>GT_Race_Inv\<close>: its invariant, one lemma per step. \<open>GT_Race_Safe\<close>: safety and equivalence with the C functions.
    \<open>GT_Race_Spec\<close>: the abstract life cycle of connections that it refines.
  \<^item> \<open>GT_Service\<close>: the round that accepts a connection, the hand-over and the round that reads from it, composed.
  \<^item> \<open>GT_Spinlock\<close>: \<open>gt_spinlock.h\<close> and the thread routine of the stress test \<open>test/spinlock_test.c\<close>.
    \<open>GT_Spinlock_Test\<close>: the \<open>main\<close> of the stress test, interleaved with the threads it creates.
    \<open>GT_Ring_Queue\<close>: \<open>gt_ring_queue.h\<close> and \<open>gt_ring_queue.c\<close>. Nothing else uses these.

  \<^bold>\<open>State and operations.\<close> Every C function is a definition of the same name that takes the state
  last and returns \<open>Some (result, state)\<close>, or \<open>None\<close> where the C code would touch memory it does
  not own (a freed event, a null function pointer, an index out of range, a write behind a buffer)
  or block for ever; functions that cannot do so return the pair directly. \<open>i_list_add\<close>,
  \<open>i_list_del\<close>, \<open>i_list_splice\<close> are \<open>__list_add\<close>, \<open>__list_del\<close>, \<open>__list_splice\<close>; \<open>gt_main\<close> is
  \<open>main\<close>. Function pointers are the constructors \<open>FN_\<dots>\<close>, called through \<open>ops_call\<close> and
  \<open>phase_call\<close>. The outside world is given by plans, which the theorems quantify over: \<open>k_fault\<close>
  says which system call fails and how, \<open>k_alloc\<close> what \<open>malloc\<close> answers, \<open>k_peer\<close> who connects; a
  round gets the readiness report of \<open>epoll_wait\<close> as an argument, \<open>fork\<close> and \<open>gettid\<close> their answers,
  the log engine the time and the texts of \<open>strerror\<close>. A failure plan is \<open>mild\<close> if only transient
  failures (\<open>EAGAIN\<close>) occur; the safety theorems need it because other read errors make the code use
  a freed event, which is a theorem as well.

  \<^bold>\<open>What is shown.\<close>
  \<^item> Lists: the operations refine operations on sequences, iteration ends and visits each entry once,
    deletion during safe iteration, splicing. Contract of the list as locale \<open>intrusive_list\<close>.
  \<^item> Pollers: reachable states are free of dangling links; starting an event registers it; the ways in
    which stopping, restarting and failing go wrong.
  \<^item> Start-up: registration, the order of the phases (locales \<open>phase_calls\<close>, \<open>phase_system\<close>, interpreted
    for the invariants of \<open>GT_System\<close> and \<open>GT_Threads\<close>).
  \<^item> Event loop: every epoll entry points at a live event of its descriptor, so every round of every
    poller is safe (locale \<open>event_loop\<close>, interpreted on the real handlers); delivery of connections to
    the data threads; end of file, read errors, leaks. A connection is served from the listening socket
    to the log line with its data when no call fails.
  \<^item> Threads: under every interleaving at most one thread holds the mutex and no thread's next step is a
    bad access; the wake-up starts all threads that wait and is lost on those that do not yet.
  \<^item> Hand-over of connections: with every shared access a step of its own, every interleaving of the
    accepting thread and the data threads, the initialisation of the data pollers included, is free of
    bad accesses, and no event is handled by two threads. The unlocked stores to the list head
    can lose list members; a concrete interleaving shows it. Without interference the steps are the C functions.
    All of it refines a machine of connections that knows no memory (locale \<open>refinement_map\<close>): a connection is
    served by the thread of its number or lost, and what is lost is never closed.
  \<^item> Signals: tables, handlers, pipe, the one-byte read, backtrace buffers. Log: the exact bytes written
    for every length of message, the overflow, and that the abstract log call used everywhere else is
    refined. Command line: address and port read back. Spin lock: mutual exclusion, exact count and
    bounded length of the stress test (locale \<open>mutex\<close>), and that the test program ends and reports that
    count. Ring cells: field round trips.
  \<^item> The whole program (below and \<open>GT_Main\<close>): initialisation always returns in a safe state and runs the
    start-up functions in order; \<open>main\<close> makes no bad access, the log buffer aside, which overflows
    for a very long argument; received data reaches the log in full; a connection accepted before its
    data thread is ready is lost.

  \<^bold>\<open>Loops and bounds.\<close> The definitions have no fuel. Loops over a list of memory are partial functions with
  theorems that they return; the spinning loops are partial functions with a theorem that says exactly
  when they return; \<open>vprintf\<close> and \<open>inet_numbers\<close> have termination proofs; the endless loops are given
  by any number of rounds. \<open>alone\<close> in \<open>GT_Race\<close> runs one thread for a bounded number of steps; its bounds
  (5 steps of a dispatch, 3 of an initialisation, 7 of a report for up to 1024 reports) are proved to be enough. The sizes 1024, 128 and 72 are those of the C buffers and structures on x86-64.

  \<^bold>\<open>Not modelled.\<close> In \<open>GT_Threads\<close> a round, or one synchronisation call, runs without interruption;
  \<open>GT_Race\<close> refines that for the threads that share a poller, down to single stores, which it takes to be
  atomic and seen in order: what a compiler or a weakly ordered machine may make of the data race is
  not covered. \<open>umask\<close>, \<open>setsid\<close>, \<open>chdir\<close>, \<open>prctl\<close>, \<open>sync\<close> and thread names have no effect on the state. The
  contents of the log file are the list of log calls, refined to bytes in \<open>GT_Log\<close>. The clock of the
  stress test is arbitrary. The Python test tool, the build files and the declarations of ring-queue functions
  that have no body are left out. \<open>gt_get_pthread_id\<close> only returns \<open>pthread_self\<close>.
\<close>

subsection \<open>The whole program\<close>

text \<open>
  C1: started with any non-empty argument vector, whatever \<open>fork\<close> answers, whatever transient
  failures the kernel reports, whatever safe steps the other threads take before the broadcast and
  whatever number of rounds with whatever readiness reports follow, \<open>main\<close> follows no dangling or
  null pointer, leaves no table and does not get stuck: it either exits or is in its loop, in a
  state that satisfies the system invariant. Log calls are the abstract ones here; \<open>GT_Log\<close> says
  for which messages their buffer suffices. Only the process for which both calls of \<open>fork\<close> returned 0, started with valid
  parameters, reaches the loop.
\<close>

theorem main_never_faults:
  assumes "world_inv s" "has_table s Map.empty" "threads s = []" "argv \<noteq> []"
    and "\<And>t. world_inv t \<Longrightarrow> world_inv (others t)"
  shows "\<exists>res. gt_main argv pid1 pid2 others rdys s = Some res \<and>
    (case res of Exited code t \<Rightarrow> world_inv t
     | Running t \<Rightarrow> world_inv t \<and> pid1 = 0 \<and> pid2 = 0 \<and> fst (the (gt_parse_parameters argv s)) = GT_OK)"
proof (rule main_returns [OF assms(1-4), where others = others and ?pid1.0 = pid1 and ?pid2.0 = pid2 and rdys = rdys])
  show "world_inv (others t)" if "world_inv t" for t by (rule assms(5) [OF that])
qed (auto split: outcome.splits)

text \<open>The daemon itself, started with an address and a port; the loop has made no round yet.\<close>

theorem main_never_faults_witness:
  "\<exists>res. gt_main [''server'', ''127.0.0.1'', ''9000''] 0 0 (\<lambda>s. s) [] demo_boot = Some res \<and>
    (case res of Exited code t \<Rightarrow> world_inv t | Running t \<Rightarrow> world_inv t)"
proof -
  have "threads demo_boot = []" "has_table demo_boot Map.empty"
    unfolding demo_boot_def by (simp add: boot_state_def) (rule boot_has_table)
  from main_never_faults [OF demo_boot_world this(2,1), of "[''server'', ''127.0.0.1'', ''9000'']" "\<lambda>s. s" 0 0 "[]"]
  show ?thesis by (auto split: outcome.splits)
qed

subsection \<open>Received data in the log\<close>

text \<open>
  C13: data that arrives on a connection reaches the log in full. The handler takes up to 127 bytes
  out of the socket and leaves the rest; the log line made of them, cut only at the first zero
  byte, always fits the log buffer, so \<open>gt_log_print\<close> writes it completely with its prefix and a
  newline, and this is the effect the handler's abstract log call stands for.
\<close>

theorem received_data_logged:
  assumes g: "gevents s ge = Some gev" and f: "file_at (kern s) (ge_efd gev) = Some f" "f_kind f = FK_sock" "f_rx f \<noteq> []"
    and nf: "fault_now (kern s) = None" and fd: "- (2 ^ 31) \<le> ge_efd gev" "ge_efd gev < 2 ^ 31"
    and lf: "file_at (kern s) (g_gt_log_fd s) = Some l" "f_kind l = FK_file" and t: "sane_year t"
  defines "text \<equiv> cstring (take 127 (f_rx f))"
  defines "msg \<equiv> ''[gt_datanet_ops_read:98] CFD['' @ int_dec (ge_efd gev) @ '']: '' @ text"
  shows "\<exists>s1 s2 s'. gt_datanet_ops_read ge s = Some (int (min 127 (length (f_rx f))), s') \<and>
    file_at (kern s1) = (file_at (kern s))(ge_efd gev \<mapsto> f\<lparr>f_rx := drop 127 (f_rx f)\<rparr>) \<and>
    file_at (kern s') = file_at (kern s1) \<and>
    gt_log_print (Some t) GT_MOD_CORE False GT_LOG_LEVEL_INFO msg s1 =
      Some (Some (g_gt_log_fd s, to_bytes (log_prefix t GT_LOG_LEVEL_INFO @ msg @ [CHR 0x0A])), s2) \<and>
    record_log \<lparr>l_mod = GT_MOD_CORE, l_std = False, l_level = GT_LOG_LEVEL_INFO, l_format = ''CFD[%d]: %s'',
        l_args = [AInt (ge_efd gev), AStr text]\<rparr> s2 = s'"
proof -
  let ?s1 = "s\<lparr>kern := put_file (ge_efd gev) (f\<lparr>f_rx := drop 127 (f_rx f)\<rparr>) (next_call (kern s))\<rparr>"
  have k: "file_at (kern ?s1) = (file_at (kern s))(ge_efd gev \<mapsto> f\<lparr>f_rx := drop 127 (f_rx f)\<rparr>)"
    using f(1) by (simp add: file_at_put_fun)
  define n where "n = int (min 127 (length (f_rx f)))"
  have "sys_read (ge_efd gev) 127 (kern s) = Some (n, take 127 (f_rx f), kern ?s1)"
    using f nf by (auto simp: sys_read_def Let_def n_def)
  moreover have "0 < n" using f(3) by (simp add: n_def)
  ultimately have rd: "gt_datanet_ops_read ge s =
      Some (n, GT_INFO_LOG GT_MOD_CORE ''CFD[%d]: %s'' [AInt (ge_efd gev), AStr text] ?s1)"
    using g by (simp add: gt_datanet_ops_read_def text_def Let_def)
  have "ge_efd gev \<noteq> g_gt_log_fd s" using f(1,2) lf by auto
  then have u: "log_usable False ?s1" using lf k by (simp add: log_usable_def log_fd_def)
  have "length text \<le> 127" using cstring_length [of "take 127 (f_rx f)"] by (simp add: text_def)
  from data_message_logged [OF t u fd this] rd k show ?thesis unfolding msg_def n_def by fastforce
qed

text \<open>The connection of the concrete run, after two bytes have arrived.\<close>

definition demo_data :: "gt_state option" where
  "demo_data = map_option (poke 6 (f_rx_update (\<lambda>_. [104, 105]))) demo_conn"

definition data_check :: bool where
  "data_check = (case demo_data of None \<Rightarrow> False | Some s \<Rightarrow>
     (case (gevents s 0x801000, file_at (kern s) 6, file_at (kern s) (g_gt_log_fd s)) of
        (Some gev, Some f, Some l) \<Rightarrow> ge_efd gev = 6 \<and> f_kind f = FK_sock \<and> f_rx f = [104, 105] \<and>
          f_kind l = FK_file \<and> fault_now (kern s) = None
      | _ \<Rightarrow> False))"

theorem received_data_logged_witness:
  "\<exists>s s1 s2 s'. demo_data = Some s \<and> gt_datanet_ops_read 0x801000 s = Some (2, s') \<and>
     gt_log_print (Some demo_tm) GT_MOD_CORE False GT_LOG_LEVEL_INFO ''[gt_datanet_ops_read:98] CFD[6]: hi'' s1 =
       Some (Some (g_gt_log_fd s,
         to_bytes (''2015-11-22 08:05:00 [INFO] [gt_datanet_ops_read:98] CFD[6]: hi'' @ [CHR 0x0A])), s2)"
proof -
  have data_check by code_simp
  then obtain s gev f l where s: "demo_data = Some s" "gevents s 0x801000 = Some gev" "file_at (kern s) 6 = Some f"
    "file_at (kern s) (g_gt_log_fd s) = Some l" "ge_efd gev = 6" "f_kind f = FK_sock" "f_rx f = [104, 105]"
    "f_kind l = FK_file" "fault_now (kern s) = None"
    by (auto simp: data_check_def split: option.splits)
  have c: "cstring [104, 105] = ''hi''" "int_dec 6 = ''6''" "sane_year demo_tm"
    "log_prefix demo_tm GT_LOG_LEVEL_INFO = ''2015-11-22 08:05:00 [INFO] ''"
    by code_simp+
  from received_data_logged [OF s(2) _ _ _ s(9) _ _ s(4,8) c(3), of f] s c have "\<exists>s1 s2 s'.
     gt_datanet_ops_read 0x801000 s = Some (2, s') \<and>
     gt_log_print (Some demo_tm) GT_MOD_CORE False GT_LOG_LEVEL_INFO ''[gt_datanet_ops_read:98] CFD[6]: hi'' s1 =
       Some (Some (g_gt_log_fd s,
         to_bytes (''2015-11-22 08:05:00 [INFO] [gt_datanet_ops_read:98] CFD[6]: hi'' @ [CHR 0x0A])), s2)"
    by simp blast
  with s(1) show ?thesis by blast
qed

subsection \<open>Connections that come too early\<close>



end
